(* ===== verification/Prelude.thy ===== *)
theory Prelude
  imports Main "HOL-Library.Word"
begin

text \<open>
  Shared vocabulary of the development: the machine types of the Go sources, the error
  values with the wrapping that \<^verbatim>\<open>fmt.Errorf("%w")\<close> and
  \<^verbatim>\<open>errors.Join\<close> build, and the generic lemmas on words and lists that the component
  theories use.

  A \<^verbatim>\<open>uint64\<close> (an LSN or a record count) is a \<open>64 word\<close>, a \<^verbatim>\<open>uint32\<close>
  (a length field or a CRC) is a \<open>32 word\<close>, a byte is an \<open>8 word\<close>; addition and subtraction on
  them wrap as in Go. File offsets and slice lengths are \<open>nat\<close>; durations and the signed
  capacity counters are \<open>int\<close>.
\<close>

unbundle bit_operations_syntax

subsection \<open>Machine types\<close>

type_synonym byte = "8 word"
type_synonym bytes = "8 word list"
type_synonym u32 = "32 word"
type_synonym u64 = "64 word"
type_synonym lsn = "64 word"
type_synonym duration = int

subsection \<open>Errors\<close>

text \<open>Operating-system error numbers: the two the sources test for, the two that file-system
  calls report for a name that exists or does not, and any other one.\<close>

datatype errno = ENOSPC | EDQUOT | EEXIST | ENOENT | EIO | EOTHER nat

text \<open>
  Go error values. The first group are the sentinels of package wal, the second those of package
  batch (prefixed with \<open>B\<close> where the two packages share a name), the third the errors of the
  operating system, of a context and of the ClickHouse sink. \<open>ErrText\<close> is an error made from text
  alone, \<open>Wrap\<close> is an error made with one or more \<open>%w\<close> verbs or with
  \<^verbatim>\<open>errors.Join\<close>: it holds the errors it wraps.
\<close>

datatype error =
    ErrClosed | ErrNoData | ErrRecordTooLarge | ErrTruncated | ErrCorrupt | ErrBroken | ErrPending
  | BErrFull | BErrTooLarge | BErrClosed | BErrDiskFull | BErrFailed | BErrPermanent
  | BErrUncertain | BErrPanic | BErrInvalidOption
  | Errno errno
  | Canceled | DeadlineExceeded
  | ErrRowShape
  | ChException int
  | ForeignError nat
  | ErrText string
  | Wrap string "error list"
  | RetryAfterError duration error

text \<open>\<^verbatim>\<open>errors.Is\<close>: the error itself or any error it wraps.\<close>

fun errors_is :: "error \<Rightarrow> error \<Rightarrow> bool" where
  "errors_is (Wrap s es) t = (Wrap s es = t \<or> list_ex (\<lambda>e. errors_is e t) es)"
| "errors_is (RetryAfterError d e) t = (RetryAfterError d e = t \<or> errors_is e t)"
| "errors_is e t = (e = t)"

lemma errors_is_refl [simp]: "errors_is e e"
  by (cases e) auto

subsection \<open>Collections of rewrite rules\<close>

named_theorems framing \<open>laws of the record framing: lengths, headers, prefixes\<close>
named_theorems io_simps \<open>unfolding rules of the file-system calls\<close>

subsection \<open>Words\<close>

lemma word_xor_cancel [simp]: "(a XOR c = b XOR c) = (a = b)" for a b c :: "'a::len word"
  by (metis xor.assoc xor_self_eq xor.right_neutral)

lemma word_xor_cancel_left [simp]: "(c XOR a = c XOR b) = (a = b)" for a b c :: "'a::len word"
  by (metis word_xor_cancel xor.commute)

lemma word_not_eq_iff [simp]: "(NOT a = NOT b) = (a = b)" for a b :: "'a::len word"
  by (metis bit.double_compl)

text \<open>The successor of an LSN below the top of the numbering does not wrap.\<close>

lemma unat_plus_one: "unat x + 1 < 2 ^ 64 \<Longrightarrow> unat (x + 1) = unat x + 1" for x :: u64
  by (simp add: unat_word_ariths)

lemma unat_plus_no_wrap:
  "unat x + unat y < 2 ^ 64 \<Longrightarrow> unat (x + y) = unat x + unat y" for x y :: u64
  by (simp add: unat_word_ariths)

lemma unat_minus_one_u64: "x \<noteq> 0 \<Longrightarrow> unat (x - 1) = unat x - 1" for x :: u64
  by (rule unat_minus_one)

lemma unat_of_nat_u64: "n < 2 ^ 64 \<Longrightarrow> unat (of_nat n :: u64) = n"
  by (simp add: unat_of_nat)

lemma unat_of_nat_u32: "n < 2 ^ 32 \<Longrightarrow> unat (of_nat n :: u32) = n"
  by (simp add: unat_of_nat)

lemma word_less_unat: "x < y \<longleftrightarrow> unat x < unat y" for x y :: u64
  by (rule word_less_nat_alt)

lemma word_le_unat: "x \<le> y \<longleftrightarrow> unat x \<le> unat y" for x y :: u64
  by (rule word_le_nat_alt)

lemma word_eq_unat: "x = y \<longleftrightarrow> unat x = unat y" for x y :: u64
  by (rule word_unat_eq_iff)

text \<open>Comparisons of LSNs read as comparisons of numbers.\<close>

lemmas lsn_nat = word_less_unat word_le_unat word_eq_unat

lemma unat_u64_bound [simp]: "unat (x :: u64) < 18446744073709551616"
  using unsigned_less [of x] by simp

lemma below_unat_u64: "n \<le> unat (x :: u64) \<Longrightarrow> n < 2 ^ 64"
  by (rule le_less_trans [of _ "unat x"]) simp_all

lemma less_succ_u64:
  fixes x :: u64
  assumes "x + 1 \<noteq> 0"
  shows "x < x + 1"
proof -
  have "unat x + 1 \<noteq> 2 ^ 64"
  proof
    assume "unat x + 1 = 2 ^ 64"
    then have "unat (x + 1) = 0" by (simp add: unat_word_ariths)
    with assms show False by (simp add: unat_eq_zero)
  qed
  moreover have "unat x < 2 ^ 64" by simp
  ultimately have "unat x + 1 < 2 ^ 64" by linarith
  then show ?thesis by (simp add: word_less_unat unat_plus_one)
qed

subsection \<open>Lists\<close>

lemma length_concat_map_ge:
  "x \<in> set xs \<Longrightarrow> length (f x) \<le> length (concat (map f xs))"
  by (induction xs) auto

lemma sum_list_map_nth_le:
  "i < length xs \<Longrightarrow> f (xs ! i) \<le> sum_list (map f xs)" for f :: "'a \<Rightarrow> nat"
  by (simp add: member_le_sum_list)

lemma last_butlast_append: "xs \<noteq> [] \<Longrightarrow> butlast xs @ [last xs] = xs"
  by (rule append_butlast_last_id)

lemma list_all2_snoc: "list_all2 P (xs @ [x]) (ys @ [y]) \<longleftrightarrow> list_all2 P xs ys \<and> P x y"
proof (cases "length xs = length ys")
  case True
  then show ?thesis by (simp add: list_all2_append)
next
  case False
  then show ?thesis by (auto dest: list_all2_lengthD)
qed

text \<open>A list numbered from a start value.\<close>

fun numbered :: "nat \<Rightarrow> 'a list \<Rightarrow> (nat \<times> 'a) list" where
  "numbered n [] = []"
| "numbered n (x # xs) = (n, x) # numbered (Suc n) xs"

lemma numbered_append: "numbered n (xs @ ys) = numbered n xs @ numbered (n + length xs) ys"
  by (induction xs arbitrary: n) simp_all

lemma length_numbered [simp]: "length (numbered n xs) = length xs"
  by (induction xs arbitrary: n) simp_all

lemma nth_numbered: "i < length xs \<Longrightarrow> numbered n xs ! i = (n + i, xs ! i)"
  by (induction xs arbitrary: n i) (auto simp: nth_Cons')

lemma in_numbered: "(k, x) \<in> set (numbered n xs) \<longleftrightarrow> n \<le> k \<and> k < n + length xs \<and> xs ! (k - n) = x"
proof (induction xs arbitrary: n k)
  case (Cons a xs)
  show ?case
  proof (cases "n < k")
    case True
    then obtain d where "k = Suc (n + d)" by (metis less_imp_Suc_add)
    then show ?thesis by (simp add: Cons.IH)
  next
    case False
    then show ?thesis by (cases "k = n") (auto simp: Cons.IH)
  qed
qed simp

subsection \<open>Self-delimiting encodings\<close>

text \<open>
  The contract the log relies on when it writes records back to back: no encoding is empty or a
  proper prefix of another, so a concatenation splits in one way only, and a cut anywhere in it
  leaves some complete encodings followed by a proper prefix of the next one.
\<close>

locale self_delimiting =
  fixes enc :: "'a \<Rightarrow> 'b list"
    and ok :: "'a \<Rightarrow> bool"
  assumes enc_nonempty: "enc x \<noteq> []"
    and enc_split: "ok x \<Longrightarrow> ok y \<Longrightarrow> enc x @ r = enc y @ s \<Longrightarrow> x = y \<and> r = s"
begin

lemma concat_enc_inj:
  "list_all ok xs \<Longrightarrow> list_all ok ys \<Longrightarrow>
   concat (map enc xs) = concat (map enc ys) \<Longrightarrow> xs = ys"
proof (induction xs arbitrary: ys)
  case Nil
  then show ?case by (cases ys) (auto simp: enc_nonempty)
next
  case (Cons x xs)
  from Cons.prems(3) obtain y zs where ys: "ys = y # zs"
    by (cases ys) (simp_all add: enc_nonempty)
  have "enc x @ concat (map enc xs) = enc y @ concat (map enc zs)"
    using Cons.prems(3) ys by simp
  then have "x = y \<and> concat (map enc xs) = concat (map enc zs)"
    using Cons.prems(1,2) ys by (intro enc_split) simp_all
  moreover have "list_all ok xs" and "list_all ok zs"
    using Cons.prems(1,2) ys by simp_all
  ultimately have "x = y" and "xs = zs"
    using Cons.IH by blast+
  then show ?case using ys by simp
qed

lemma cut_concat:
  "k \<le> length (concat (map enc xs)) \<Longrightarrow>
   \<exists>j t. j \<le> length xs \<and> take k (concat (map enc xs)) = concat (map enc (take j xs)) @ t
     \<and> (if j < length xs then \<exists>u. u \<noteq> [] \<and> enc (xs ! j) = t @ u else t = [])"
proof (induction xs arbitrary: k)
  case Nil
  then show ?case by auto
next
  case (Cons x xs)
  show ?case
  proof (cases "k < length (enc x)")
    case True
    then have "take k (concat (map enc (x # xs))) = take k (enc x)"
        and "enc x = take k (enc x) @ drop k (enc x)" and "drop k (enc x) \<noteq> []"
      by auto
    then show ?thesis
      by (intro exI [of _ 0] exI [of _ "take k (enc x)"]) (auto intro!: exI [of _ "drop k (enc x)"])
  next
    case False
    with Cons.prems have "k - length (enc x) \<le> length (concat (map enc xs))" by auto
    then obtain j t where j: "j \<le> length xs"
      and e: "take (k - length (enc x)) (concat (map enc xs)) = concat (map enc (take j xs)) @ t"
      and r: "if j < length xs then \<exists>u. u \<noteq> [] \<and> enc (xs ! j) = t @ u else t = []"
      using Cons.IH by blast
    then show ?thesis using False
      by (intro exI [of _ "Suc j"] exI [of _ t]) auto
  qed
qed

end

subsection \<open>Transition systems\<close>

text \<open>
  A step relation with an invariant, and a simulation between two step relations: the contracts the
  state machines of the log and of the delivery loop are proved against.
\<close>

locale invariant_system =
  fixes step :: "'s \<Rightarrow> 's \<Rightarrow> bool"
    and inv :: "'s \<Rightarrow> bool"
  assumes step_inv: "inv s \<Longrightarrow> step s s' \<Longrightarrow> inv s'"
begin

lemma steps_inv: "step\<^sup>*\<^sup>* s s' \<Longrightarrow> inv s \<Longrightarrow> inv s'"
  by (induction rule: rtranclp_induct) (auto intro: step_inv)

end

locale forward_simulation = abs: invariant_system astep ainv
  for astep :: "'a \<Rightarrow> 'a \<Rightarrow> bool" and ainv :: "'a \<Rightarrow> bool" +
  fixes cstep :: "'c \<Rightarrow> 'c \<Rightarrow> bool"
    and rel :: "'c \<Rightarrow> 'a \<Rightarrow> bool"
  assumes simulates: "rel c a \<Longrightarrow> ainv a \<Longrightarrow> cstep c c' \<Longrightarrow> \<exists>a'. astep\<^sup>*\<^sup>* a a' \<and> rel c' a'"
begin

lemma simulates_steps:
  "cstep\<^sup>*\<^sup>* c c' \<Longrightarrow> rel c a \<Longrightarrow> ainv a \<Longrightarrow> \<exists>a'. astep\<^sup>*\<^sup>* a a' \<and> rel c' a' \<and> ainv a'"
proof (induction rule: rtranclp_induct)
  case base
  then show ?case by blast
next
  case (step y z)
  then obtain a' where a': "astep\<^sup>*\<^sup>* a a'" "rel y a'" "ainv a'" by blast
  then obtain a'' where "astep\<^sup>*\<^sup>* a' a''" "rel z a''" using simulates step.hyps(2) by blast
  with a' show ?case using abs.steps_inv by (meson rtranclp_trans)
qed

end

end
