(* ===== verification/RecordFormat.thy ===== *)
theory RecordFormat
  imports Prelude
begin

text \<open>
  The record framing of \<^verbatim>\<open>internal/wal/record.go\<close>: a little-endian length, a CRC-32C of
  length and payload, and the payload. The checksum is Go's \<^verbatim>\<open>hash/crc32\<close> with the
  Castagnoli table, written out as its table-driven update.

  The lemmas show that the framing is self-delimiting (a header gives back the length and the
  checksum, and a framed record followed by anything parses back to its payload) and that the
  checksum notices every change confined to one byte of the payload or of the stored checksum.
\<close>

subsection \<open>Definitions\<close>

definition headerSize :: nat where
  "headerSize = 8"

text \<open>\<^verbatim>\<open>binary.LittleEndian\<close>: \<^verbatim>\<open>PutUint32\<close> and \<^verbatim>\<open>Uint32\<close>. The latter panics on
  fewer than four bytes; every caller passes four.\<close>

definition putUint32 :: "u32 \<Rightarrow> bytes" where
  "putUint32 v = [ucast v, ucast (drop_bit 8 v), ucast (drop_bit 16 v), ucast (drop_bit 24 v)]"

definition getUint32 :: "bytes \<Rightarrow> u32" where
  "getUint32 b = ucast (b ! 0) OR push_bit 8 (ucast (b ! 1))
     OR push_bit 16 (ucast (b ! 2)) OR push_bit 24 (ucast (b ! 3))"

text \<open>The Castagnoli table: entry \<open>i\<close> is eight shift-and-reduce steps from \<open>i\<close>.\<close>

definition crcStep :: "u32 \<Rightarrow> u32" where
  "crcStep c = (if bit c 0 then drop_bit 1 c XOR 0x82f63b78 else drop_bit 1 c)"

definition crcTable :: "byte \<Rightarrow> u32" where
  "crcTable i = (crcStep ^^ 8) (ucast i)"

definition crcByte :: "u32 \<Rightarrow> byte \<Rightarrow> u32" where
  "crcByte c v = crcTable (ucast c XOR v) XOR drop_bit 8 c"

text \<open>\<^verbatim>\<open>hash.Hash32.Write\<close> on a running CRC, which is kept complemented between calls.\<close>

definition crcWrite :: "u32 \<Rightarrow> bytes \<Rightarrow> u32" where
  "crcWrite c p = NOT (foldl crcByte (NOT c) p)"

definition checksum :: "u32 \<Rightarrow> bytes \<Rightarrow> u32" where
  "checksum lenField payload = crcWrite (crcWrite 0 (putUint32 lenField)) payload"

text \<open>
  \<^verbatim>\<open>matchesChecksum\<close> streams \<open>length\<close> bytes out of a reader. The reader is what is left of the
  file, \<open>r\<close>, and how it ends: \<open>rerr\<close> is \<open>None\<close> for the end of the file and \<open>Some e\<close> for a read
  that fails with \<open>e\<close> there.
\<close>

definition matchesChecksum :: "bytes \<Rightarrow> error option \<Rightarrow> u32 \<Rightarrow> u32 \<Rightarrow> error + bool" where
  "matchesChecksum r rerr len crc =
     (if length r < unat len then (case rerr of None \<Rightarrow> Inr False | Some e \<Rightarrow> Inl e)
      else Inr (checksum len (take (unat len) r) = crc))"

definition appendRecord :: "bytes \<Rightarrow> bytes \<Rightarrow> bytes" where
  "appendRecord dst payload =
     (let n = of_nat (length payload) in dst @ putUint32 n @ putUint32 (checksum n payload) @ payload)"

definition recordSize :: "nat \<Rightarrow> nat" where
  "recordSize payloadLen = headerSize + payloadLen"

definition decodeHeader :: "bytes \<Rightarrow> u32 \<times> u32" where
  "decodeHeader hdr = (getUint32 (take 4 hdr), getUint32 (take 4 (drop 4 hdr)))"

definition frame :: "bytes \<Rightarrow> bytes" where
  "frame payload = appendRecord [] payload"

text \<open>The records of a list of payloads, framed one after the other as
  \<^verbatim>\<open>AppendBatchAsync\<close> and \<^verbatim>\<open>Append\<close> encode them.\<close>

definition frames :: "bytes list \<Rightarrow> bytes" where
  "frames ps = foldl appendRecord [] ps"

subsection \<open>Little-endian words\<close>

lemma length_putUint32 [simp]: "length (putUint32 v) = 4"
  by (simp add: putUint32_def)

lemma getUint32_putUint32_append: "getUint32 (putUint32 v @ r) = v"
proof (rule bit_word_eqI)
  fix n assume "n < LENGTH(32)"
  then consider "n < 8" | "8 \<le> n" "n < 16" | "16 \<le> n" "n < 24" | "24 \<le> n" "n < 32" by fastforce
  then show "bit (getUint32 (putUint32 v @ r)) n = bit v n"
    by cases (auto simp: getUint32_def putUint32_def bit_simps)
qed

lemma getUint32_putUint32 [simp]: "getUint32 (putUint32 v) = v"
  using getUint32_putUint32_append [of v "[]"] by simp

lemma putUint32_inj [simp]: "putUint32 a = putUint32 b \<longleftrightarrow> a = b"
  by (metis getUint32_putUint32)

lemma bit_byte_high: "8 \<le> n \<Longrightarrow> \<not> bit b n" for b :: byte
  using bit_imp_le_length [of b n] by auto

lemma ucast_ucast_eq_byte: "ucast (ucast v :: u32) = v" for v :: byte
  by (rule bit_word_eqI) (auto simp: bit_simps)

lemma putUint32_getUint32:
  assumes "length b = 4"
  shows "putUint32 (getUint32 b) = b"
proof -
  obtain b0 b1 b2 b3 where b: "b = [b0, b1, b2, b3]"
    using assms by (auto simp: length_Suc_conv numeral_eq_Suc)
  show ?thesis
    unfolding b
    by (auto simp: getUint32_def putUint32_def bit_simps bit_byte_high intro!: bit_word_eqI)
qed

subsection \<open>The checksum\<close>

lemma crcStep_xor: "crcStep (a XOR b) = crcStep a XOR crcStep b"
  by (auto simp: crcStep_def bit_simps xor.assoc xor.left_commute intro!: bit_word_eqI)

lemma crcSteps_xor: "(crcStep ^^ n) (a XOR b) = (crcStep ^^ n) a XOR (crcStep ^^ n) b"
  by (induction n) (auto simp: crcStep_xor)

text \<open>The polynomial has its top bit set, so the top bit of a step tells the bit shifted out.\<close>

lemma crcStep_top: "bit (crcStep c) 31 = bit c 0"
  by (auto simp: crcStep_def bit_simps dest: bit_imp_le_length)

lemma crcStep_inj: "inj crcStep"
proof (rule injI)
  fix a b :: u32
  assume h: "crcStep a = crcStep b"
  then have z: "bit a 0 = bit b 0" by (metis crcStep_top)
  with h have d: "drop_bit 1 a = drop_bit 1 b"
    by (auto simp: crcStep_def split: if_splits)
  show "a = b"
  proof (rule bit_word_eqI)
    fix n
    have "bit (drop_bit 1 a) m = bit (drop_bit 1 b) m" for m
      using d by simp
    then show "bit a n = bit b n"
      using z by (cases n) (auto simp: bit_simps)
  qed
qed

lemma crcSteps_eq: "(crcStep ^^ n) a = (crcStep ^^ n) b \<longleftrightarrow> a = b"
  by (induction n) (simp_all add: inj_eq [OF crcStep_inj])

lemma crcSteps_low_zero:
  "(\<forall>i < n. \<not> bit y i) \<Longrightarrow> (crcStep ^^ n) y = drop_bit n y"
proof (induction n)
  case 0
  then show ?case by simp
next
  case (Suc n)
  then have "crcStep (drop_bit n y) = drop_bit 1 (drop_bit n y)"
    by (simp add: crcStep_def bit_simps)
  with Suc show ?case by (simp add: drop_bit_drop_bit)
qed

text \<open>One table-driven update is eight bitwise steps on the whole register.\<close>

lemma crcByte_steps: "crcByte c v = (crcStep ^^ 8) (c XOR ucast v)"
proof -
  have split: "c XOR ucast v = ucast (ucast c XOR v :: byte) XOR push_bit 8 (drop_bit 8 c)"
    by (rule bit_word_eqI) (auto simp: bit_simps bit_byte_high)
  have low: "\<forall>i < 8. \<not> bit (push_bit 8 (drop_bit 8 c)) i"
    by (simp add: bit_simps)
  have "drop_bit 8 (push_bit 8 (drop_bit 8 c)) = drop_bit 8 c"
    by (rule bit_word_eqI) (auto simp: bit_simps dest: bit_imp_le_length)
  with crcSteps_low_zero [OF low] show ?thesis
    by (simp only: split crcSteps_xor crcByte_def crcTable_def)
qed

lemma crcByte_inj_state: "crcByte c v = crcByte c' v \<longleftrightarrow> c = c'"
  by (simp only: crcByte_steps crcSteps_eq word_xor_cancel)

lemma crcByte_inj_byte: "crcByte c v = crcByte c v' \<longleftrightarrow> v = v'"
proof -
  have "ucast v = (ucast v' :: u32) \<longleftrightarrow> v = v'"
    by (metis ucast_ucast_eq_byte)
  then show ?thesis
    by (simp only: crcByte_steps crcSteps_eq word_xor_cancel_left)
qed

lemma foldl_crcByte_inj: "foldl crcByte c p = foldl crcByte c' p \<longleftrightarrow> c = c'"
  by (induction p arbitrary: c c') (auto simp: crcByte_inj_state)

lemma crcWrite_append: "crcWrite c (p @ q) = crcWrite (crcWrite c p) q"
  by (simp add: crcWrite_def)

lemma crcWrite_one_byte:
  assumes "i < length p" and "v \<noteq> p ! i"
  shows "crcWrite c (p[i := v]) \<noteq> crcWrite c p"
proof -
  have p: "p = take i p @ p ! i # drop (Suc i) p"
    using assms(1) by (rule id_take_nth_drop)
  have q: "p[i := v] = take i p @ v # drop (Suc i) p"
    using assms(1) by (rule upd_conv_take_nth_drop)
  have "crcWrite c (take i p @ v # drop (Suc i) p) = crcWrite c (take i p @ p ! i # drop (Suc i) p)
      \<longleftrightarrow> v = p ! i"
    by (simp only: crcWrite_def foldl_append foldl_Cons foldl_crcByte_inj crcByte_inj_byte
        word_not_eq_iff)
  with assms(2) show ?thesis
    by (simp only: q p [symmetric] not_False_eq_True)
qed

subsection \<open>Framing\<close>

lemma frame_def': "frame p = putUint32 (of_nat (length p)) @
    putUint32 (checksum (of_nat (length p)) p) @ p"
  by (simp add: frame_def appendRecord_def Let_def)

lemma appendRecord_frame: "appendRecord dst p = dst @ frame p"
  by (simp add: frame_def appendRecord_def Let_def)

lemma length_frame [simp]: "length (frame p) = recordSize (length p)"
  by (simp add: frame_def' recordSize_def headerSize_def)

lemma frame_not_Nil [simp]: "frame p \<noteq> []"
  by (simp add: frame_def' putUint32_def)

lemma foldl_appendRecord: "foldl appendRecord dst ps = dst @ concat (map frame ps)"
  by (induction ps arbitrary: dst) (auto simp: appendRecord_frame)

lemma frames_concat: "frames ps = concat (map frame ps)"
  by (simp add: frames_def foldl_appendRecord)

lemma frames_Nil [simp]: "frames [] = []"
  by (simp add: frames_def)

lemma frames_Cons [simp]: "frames (p # ps) = frame p @ frames ps"
  by (simp add: frames_concat)

lemma frames_append [simp]: "frames (ps @ qs) = frames ps @ frames qs"
  by (simp add: frames_concat)

lemma take_header_frame [framing]: "take headerSize (frame p @ r) =
    putUint32 (of_nat (length p)) @ putUint32 (checksum (of_nat (length p)) p)"
  by (simp add: frame_def' headerSize_def)

lemma take_header_frame0 [framing]: "take headerSize (frame p) =
    putUint32 (of_nat (length p)) @ putUint32 (checksum (of_nat (length p)) p)"
  using take_header_frame [of p "[]"] by simp

lemma drop_header_frame0 [framing]: "drop headerSize (frame p) = p"
  by (simp add: frame_def' headerSize_def)

lemma decodeHeader_put [framing]: "decodeHeader (putUint32 a @ putUint32 b) = (a, b)"
  by (simp add: decodeHeader_def)

lemma drop_header_frame [framing]: "drop headerSize (frame p @ r) = p @ r"
  by (simp add: frame_def' headerSize_def)

text \<open>What makes eight bytes and a payload a record: the test recovery and the reader make.\<close>

lemma frame_of_header:
  assumes "length r = recordSize (unat n)" and "decodeHeader (take headerSize r) = (n, c)"
    and "checksum n (drop headerSize r) = c"
  shows "r = frame (drop headerSize r)" and "length (drop headerSize r) = unat n"
proof -
  show len: "length (drop headerSize r) = unat n"
    using assms(1) by (simp add: recordSize_def)
  have n: "getUint32 (take 4 r) = n" and c: "getUint32 (take 4 (drop 4 r)) = c"
    using assms(2) by (auto simp: decodeHeader_def headerSize_def drop_take)
  have "take 4 r = putUint32 n"
    using assms(1) putUint32_getUint32 [of "take 4 r"] n by (simp add: recordSize_def headerSize_def)
  moreover have "take 4 (drop 4 r) = putUint32 c"
    using assms(1) putUint32_getUint32 [of "take 4 (drop 4 r)"] c
    by (simp add: recordSize_def headerSize_def)
  moreover have "r = take 4 r @ take 4 (drop 4 r) @ drop 8 r"
    by (metis append_take_drop_id drop_drop numeral_plus_numeral semiring_norm(2,6))
  moreover have "of_nat (unat n) = n" by simp
  ultimately show "r = frame (drop headerSize r)"
    using len assms(3) unfolding frame_def' headerSize_def by simp
qed

text \<open>The test as recovery makes it, at the front of what is left of a file.\<close>

lemma record_at_front:
  assumes "headerSize \<le> length r" and "decodeHeader (take headerSize r) = (n, c)"
    and "unat n \<le> length (drop headerSize r)"
    and "checksum n (take (unat n) (drop headerSize r)) = c"
  shows "r = frame (take (unat n) (drop headerSize r)) @ drop (unat n) (drop headerSize r)"
proof -
  let ?d = "take (recordSize (unat n)) r"
  have "length ?d = recordSize (unat n)"
    using assms(1,3) by (simp add: recordSize_def)
  moreover have dd: "drop headerSize ?d = take (unat n) (drop headerSize r)"
    by (simp add: recordSize_def drop_take)
  moreover have "take headerSize ?d = take headerSize r"
    by (simp add: recordSize_def)
  ultimately have "?d = frame (take (unat n) (drop headerSize r))"
    using frame_of_header(1) [of ?d n c] assms(2,4) by simp
  moreover have "r = ?d @ drop (unat n) (drop headerSize r)"
    by (metis add.commute append_take_drop_id drop_drop recordSize_def)
  ultimately show ?thesis by metis
qed

definition frameable :: "bytes \<Rightarrow> bool" where
  "frameable p \<longleftrightarrow> length p < 2 ^ 32"

lemma frame_split:
  assumes "frameable p" and "frameable q" and eq: "frame p @ r = frame q @ s"
  shows "p = q \<and> r = s"
proof -
  have h: "decodeHeader (take headerSize (frame p @ r)) = decodeHeader (take headerSize (frame q @ s))"
    and t: "drop headerSize (frame p @ r) = drop headerSize (frame q @ s)"
    using eq by simp_all
  from h have "(of_nat (length p) :: u32) = of_nat (length q)"
    by (simp only: framing) simp
  then have "length p = length q"
    using assms(1,2) by (metis frameable_def unat_of_nat_u32)
  moreover from t have "p @ r = q @ s"
    by (simp only: drop_header_frame)
  ultimately show ?thesis by simp
qed

interpretation rec: self_delimiting frame frameable
  by unfold_locales (auto dest: frame_split)

subsection \<open>Damage to one byte\<close>

lemma take_update_ge: "n \<le> i \<Longrightarrow> take n (xs[i := v]) = take n xs"
  by (rule nth_equalityI) auto

lemma getUint32_inj:
  "length a = 4 \<Longrightarrow> length b = 4 \<Longrightarrow> getUint32 a = getUint32 b \<longleftrightarrow> a = b"
  by (metis putUint32_getUint32)

lemma list_update_neq: "i < length xs \<Longrightarrow> v \<noteq> xs ! i \<Longrightarrow> xs[i := v] \<noteq> xs"
  by (metis nth_list_update_eq)

text \<open>
  A record with one byte changed behind its length field keeps its length and no longer passes the
  checksum test, whether the byte is in the stored checksum or in the payload.
\<close>

lemma frame_one_byte:
  assumes i: "4 \<le> i" "i < length (frame q)" and v: "v \<noteq> frame q ! i"
  shows "\<exists>c. decodeHeader (take headerSize ((frame q)[i := v])) = (of_nat (length q), c)
           \<and> checksum (of_nat (length q)) (drop headerSize ((frame q)[i := v])) \<noteq> c"
proof -
  let ?n = "of_nat (length q) :: u32" and ?d = "(frame q)[i := v]"
  have t4: "take 4 ?d = putUint32 ?n"
    using i(1) by (simp add: take_update_ge frame_def')
  have f: "take 4 (drop 4 (frame q)) = putUint32 (checksum ?n q)" "drop 8 (frame q) = q"
    by (simp_all add: frame_def')
  have n: "fst (decodeHeader (take headerSize ?d)) = ?n"
    using t4 by (simp add: decodeHeader_def headerSize_def)
  show ?thesis
  proof (cases "i < 8")
    case True
    let ?h = "putUint32 (checksum ?n q)"
    have "take 4 (drop 4 ?d) = ?h[i - 4 := v]"
      using i(1) True f(1) by (simp add: drop_update_swap take_update_swap)
    moreover have "?h[i - 4 := v] \<noteq> ?h"
      using i True v f(1) by (intro list_update_neq) (auto simp: frame_def' nth_append split: if_splits)
    ultimately have "getUint32 (take 4 (drop 4 ?d)) \<noteq> checksum ?n q"
      by (metis getUint32_inj getUint32_putUint32 length_list_update length_putUint32)
    moreover have "drop headerSize ?d = q"
      using True f(2) by (simp add: headerSize_def)
    ultimately show ?thesis
      using n by (auto simp: decodeHeader_def headerSize_def drop_take)
  next
    case False
    have "drop headerSize ?d = q[i - 8 := v]"
      using False f(2) by (simp add: headerSize_def drop_update_swap)
    moreover have "i - 8 < length q" and "v \<noteq> q ! (i - 8)"
      using i False v by (auto simp: frame_def' nth_append recordSize_def headerSize_def split: if_splits)
    then have "checksum ?n (q[i - 8 := v]) \<noteq> checksum ?n q"
      unfolding checksum_def by (rule crcWrite_one_byte)
    moreover have "take 4 (drop 4 ?d) = putUint32 (checksum ?n q)"
      using False f(1) i(1) by (simp add: drop_update_swap take_update_ge)
    ultimately show ?thesis
      using n by (auto simp: decodeHeader_def headerSize_def drop_take)
  qed
qed

subsection \<open>Properties\<close>

text \<open>Record framing round trip: the header of a framed record gives back the payload's length
  and checksum, the bytes behind it are the payload, and the record takes \<open>recordSize\<close> bytes,
  whatever follows it.\<close>

theorem record_roundtrip:
  assumes "length p < 2 ^ 32"
  shows "decodeHeader (take headerSize (appendRecord [] p @ r))
           = (of_nat (length p), checksum (of_nat (length p)) p)
       \<and> take (unat (of_nat (length p) :: u32)) (drop headerSize (appendRecord [] p @ r)) = p
       \<and> length (appendRecord [] p) = recordSize (length p)"
  using assms by (simp add: frame_def [symmetric] framing unat_of_nat_u32 recordSize_def)

theorem record_roundtrip_witness:
  "take (unat (of_nat (length [1 :: byte, 2]) :: u32)) (drop headerSize (appendRecord [] [1, 2] @ [7]))
     = [1 :: byte, 2]"
proof -
  have "length [1 :: byte, 2] < 2 ^ 32" by simp
  from record_roundtrip [OF this, of "[7]"] show ?thesis by blast
qed

text \<open>C37. One damaged byte behind the length field is always noticed: changing any single byte of a record's checksum or
  payload leaves a record whose checksum test fails. The four bytes of the length itself are not covered.\<close>

theorem record_damage_detected:
  assumes "4 \<le> i" and "i < length (appendRecord [] q)" and "v \<noteq> appendRecord [] q ! i"
  shows "case decodeHeader (take headerSize ((appendRecord [] q)[i := v])) of (len, crc) \<Rightarrow>
           len = of_nat (length q) \<and> checksum len (drop headerSize ((appendRecord [] q)[i := v])) \<noteq> crc"
  using frame_one_byte [of i q v] assms by (auto simp: frame_def)

theorem record_damage_detected_witness:
  "case decodeHeader (take headerSize ((appendRecord [] [1 :: byte, 2])[9 := 3])) of (len, crc) \<Rightarrow>
     len = of_nat (length [1 :: byte, 2])
       \<and> checksum len (drop headerSize ((appendRecord [] [1 :: byte, 2])[9 := 3])) \<noteq> crc"
proof (rule record_damage_detected)
  show "(9 :: nat) < length (appendRecord [] [1 :: byte, 2])"
    by (simp add: appendRecord_def Let_def putUint32_def)
  show "(3 :: byte) \<noteq> appendRecord [] [1 :: byte, 2] ! 9"
    by (simp add: appendRecord_def Let_def putUint32_def)
qed simp

end
