(* ===== verification/Text.thy ===== *)
theory Text
  imports Prelude
begin

text \<open>
  The pieces of Go's standard library that turn numbers into text and back:
  \<^verbatim>\<open>fmt\<close>'s \<open>%d\<close> and \<open>%020d\<close> verbs on a \<^verbatim>\<open>uint64\<close>, \<^verbatim>\<open>strconv.ParseUint(s, 10, 64)\<close> with its
  overflow tests, \<^verbatim>\<open>strings.TrimSpace\<close>, \<^verbatim>\<open>strings.Cut\<close> and \<^verbatim>\<open>strings.TrimSuffix\<close>. Strings are
  byte strings; a character is one byte.

  The main facts: printing and parsing are inverse on every \<^verbatim>\<open>uint64\<close>, padded or not, and
  trimming removes exactly the newline that the metadata files end with.
\<close>

subsection \<open>Definitions\<close>

definition digitChar :: "nat \<Rightarrow> char" where
  "digitChar d = char_of (48 + d)"

fun decimal :: "nat \<Rightarrow> string" where
  "decimal n = (if n < 10 then [digitChar n] else decimal (n div 10) @ [digitChar (n mod 10)])"

declare decimal.simps [simp del]

text \<open>The verbs \<open>%d\<close> and \<open>%020d\<close> on a \<^verbatim>\<open>uint64\<close>.\<close>

definition formatUint :: "u64 \<Rightarrow> string" where
  "formatUint v = decimal (unat v)"

definition formatUint20 :: "u64 \<Rightarrow> string" where
  "formatUint20 v = replicate (20 - length (formatUint v)) CHR ''0'' @ formatUint v"

definition digitVal :: "char \<Rightarrow> nat option" where
  "digitVal c = (let k = of_char c in if 48 \<le> k \<and> k \<le> 57 then Some (k - 48) else None)"

text \<open>
  The loop of \<^verbatim>\<open>strconv.ParseUint\<close> in base 10 and 64 bits: \<open>n \<ge> cutoff\<close> means that
  \<open>n * 10\<close> would overflow, \<open>n1 < n * 10\<close> that adding the digit did. The callers only ask whether
  there was an error, so a syntax error and a range error are both \<open>None\<close>.
\<close>

fun parseUintLoop :: "u64 \<Rightarrow> string \<Rightarrow> u64 option" where
  "parseUintLoop n [] = Some n"
| "parseUintLoop n (c # cs) =
     (case digitVal c of
        None \<Rightarrow> None
      | Some d \<Rightarrow>
          if n \<ge> 1844674407370955162 then None
          else let n1 = n * 10 + of_nat d
               in if n1 < n * 10 then None else parseUintLoop n1 cs)"

definition parseUint :: "string \<Rightarrow> u64 option" where
  "parseUint s = (if s = [] then None else parseUintLoop 0 s)"

text \<open>The encodings of the runes \<^verbatim>\<open>unicode.IsSpace\<close> accepts.\<close>

definition spaceRunes :: "string list" where
  "spaceRunes =
     [[CHR 0x09], [CHR 0x0A], [CHR 0x0B], [CHR 0x0C], [CHR 0x0D], [CHR 0x20],
      [CHR 0xC2, CHR 0x85], [CHR 0xC2, CHR 0xA0], [CHR 0xE1, CHR 0x9A, CHR 0x80]]
     @ map (\<lambda>k. [CHR 0xE2, CHR 0x80, char_of (0x80 + k)]) [0..<11]
     @ [[CHR 0xE2, CHR 0x80, CHR 0xA8], [CHR 0xE2, CHR 0x80, CHR 0xA9],
        [CHR 0xE2, CHR 0x80, CHR 0xAF], [CHR 0xE2, CHR 0x81, CHR 0x9F],
        [CHR 0xE3, CHR 0x80, CHR 0x80]]"

function trimRunes :: "string list \<Rightarrow> string \<Rightarrow> string" where
  "trimRunes rs s =
     (case find (\<lambda>r. r \<noteq> [] \<and> take (length r) s = r) rs of
        None \<Rightarrow> s
      | Some r \<Rightarrow> trimRunes rs (drop (length r) s))"
  by pat_completeness auto
termination
  by (relation "measure (\<lambda>(rs, s). length s)") (auto simp: find_Some_iff intro!: diff_less)

declare trimRunes.simps [simp del]

text \<open>\<^verbatim>\<open>strings.TrimSpace\<close>: leading space runes, then trailing ones.\<close>

definition trimSpace :: "string \<Rightarrow> string" where
  "trimSpace s = rev (trimRunes (map rev spaceRunes) (rev (trimRunes spaceRunes s)))"

definition hasSuffix :: "string \<Rightarrow> string \<Rightarrow> bool" where
  "hasSuffix s suf \<longleftrightarrow> length suf \<le> length s \<and> drop (length s - length suf) s = suf"

definition trimSuffix :: "string \<Rightarrow> string \<Rightarrow> string" where
  "trimSuffix s suf = (if hasSuffix s suf then take (length s - length suf) s else s)"

text \<open>\<^verbatim>\<open>strings.Cut\<close> around a one-character separator.\<close>

definition cutAt :: "char \<Rightarrow> string \<Rightarrow> string \<times> string \<times> bool" where
  "cutAt sep s = (if sep \<in> set s then (takeWhile (\<lambda>c. c \<noteq> sep) s, tl (dropWhile (\<lambda>c. c \<noteq> sep) s), True)
     else (s, [], False))"

text \<open>The conversions \<^verbatim>\<open>[]byte(s)\<close> and \<^verbatim>\<open>string(b)\<close>.\<close>

definition bytesOf :: "string \<Rightarrow> bytes" where
  "bytesOf s = map (\<lambda>c. of_nat (of_char c)) s"

definition stringOf :: "bytes \<Rightarrow> string" where
  "stringOf b = map (\<lambda>x. char_of (unat x)) b"

subsection \<open>Printing and parsing numbers\<close>

lemma stringOf_bytesOf [simp]: "stringOf (bytesOf s) = s"
  by (induction s) (auto simp: stringOf_def bytesOf_def unat_of_nat)

lemma digitVal_digitChar: "d < 10 \<Longrightarrow> digitVal (digitChar d) = Some d"
  by (simp add: digitVal_def digitChar_def Let_def)

fun decimalValue :: "nat \<Rightarrow> string \<Rightarrow> nat option" where
  "decimalValue n [] = Some n"
| "decimalValue n (c # cs) =
     (case digitVal c of None \<Rightarrow> None | Some d \<Rightarrow> decimalValue (10 * n + d) cs)"

lemma decimalValue_append:
  "decimalValue n (s @ t) = Option.bind (decimalValue n s) (\<lambda>m. decimalValue m t)"
  by (induction n s rule: decimalValue.induct) (auto split: option.splits)

lemma decimalValue_decimal: "decimalValue 0 (decimal n) = Some n"
proof (induction n rule: decimal.induct)
  case (1 n)
  then show ?case
    by (subst decimal.simps) (auto simp: decimalValue_append digitVal_digitChar)
qed

lemma decimalValue_zeros: "decimalValue 0 (replicate k CHR ''0'' @ s) = decimalValue 0 s"
  by (induction k) (auto simp: digitVal_def)

lemma decimalValue_ge: "decimalValue n s = Some m \<Longrightarrow> n \<le> m"
  by (induction n s rule: decimalValue.induct) (auto split: option.splits)

lemma digitVal_le: "digitVal c = Some d \<Longrightarrow> d \<le> 9"
  by (auto simp: digitVal_def Let_def split: if_splits)

lemma parseUintLoop_value:
  "parseUintLoop n s = (case decimalValue (unat n) s of None \<Rightarrow> None
     | Some m \<Rightarrow> if m < 2 ^ 64 then Some (of_nat m) else None)"
proof (induction n s rule: parseUintLoop.induct)
  case (1 n)
  then show ?case by simp
next
  case (2 n c cs)
  show ?case
  proof (cases "digitVal c")
    case None
    then show ?thesis by simp
  next
    case (Some d)
    then have d: "d \<le> 9" by (rule digitVal_le)
    show ?thesis
    proof (cases "n \<ge> 1844674407370955162")
      case True
      then have "2 ^ 64 \<le> 10 * unat n + d" by (simp add: word_le_nat_alt)
      then show ?thesis using True Some
        by (auto split: option.splits dest!: decimalValue_ge)
    next
      case False
      then have n10: "unat (n * 10) = unat n * 10"
        by (simp add: word_le_nat_alt unat_word_ariths)
      have ud: "unat (of_nat d :: u64) = d" using d by (simp add: unat_of_nat)
      show ?thesis
      proof (cases "unat n * 10 + d < 2 ^ 64")
        case True
        then have s: "unat (n * 10 + of_nat d) = 10 * unat n + d"
          using n10 ud by (simp add: unat_word_ariths)
        then have "\<not> n * 10 + of_nat d < n * 10"
          using n10 by (simp add: word_less_nat_alt)
        then show ?thesis using False Some 2 [OF Some False refl] s by simp
      next
        case big: False
        have lt: "unat n * 10 < 2 ^ 64"
          using n10 unat_u64_bound [of "n * 10"] by simp
        have "unat (n * 10 + of_nat d) = (unat n * 10 + d) mod 2 ^ 64"
          using n10 ud by (simp add: unat_word_ariths)
        also have "\<dots> = unat n * 10 + d - 2 ^ 64"
          using big d lt by (subst le_mod_geq) simp_all
        finally have "n * 10 + of_nat d < n * 10"
          using big d n10 lt by (simp add: word_less_nat_alt)
        then show ?thesis using big False Some
          by (auto split: option.splits dest!: decimalValue_ge)
      qed
    qed
  qed
qed

lemma decimal_not_Nil [simp]: "decimal n \<noteq> []"
  by (subst decimal.simps) simp

lemma parseUint_padded: "parseUint (replicate k CHR ''0'' @ formatUint v) = Some v"
  by (simp add: parseUint_def formatUint_def parseUintLoop_value decimalValue_zeros
      decimalValue_decimal)

lemma parseUint_formatUint [simp]: "parseUint (formatUint v) = Some v"
  using parseUint_padded [of 0 v] by simp

lemma parseUint_formatUint20 [simp]: "parseUint (formatUint20 v) = Some v"
  by (simp add: formatUint20_def parseUint_padded)

subsection \<open>Trimming and splitting\<close>

definition plainChar :: "char \<Rightarrow> bool" where
  "plainChar c \<longleftrightarrow> (let k = of_char c :: nat in 33 \<le> k \<and> k \<le> 126)"

lemma spaceRunes_not_plain:
  "list_all (\<lambda>r. r \<noteq> [] \<and> \<not> plainChar (hd r) \<and> \<not> plainChar (last r)) spaceRunes"
  by code_simp

lemma trimRunes_plain:
  assumes "list_all (\<lambda>r. r \<noteq> [] \<and> \<not> plainChar (hd r)) rs" and "plainChar c"
  shows "trimRunes rs (c # s) = c # s"
proof -
  have "take (length r) (c # s) \<noteq> r" if "r \<in> set rs" for r
  proof -
    have "r \<noteq> []" and "hd r \<noteq> c"
      using that assms by (auto simp: list_all_iff)
    then show ?thesis by (cases r) auto
  qed
  then have "find (\<lambda>r. r \<noteq> [] \<and> take (length r) (c # s) = r) rs = None"
    by (auto simp: find_None_iff)
  then show ?thesis by (subst trimRunes.simps) simp
qed

lemma trimRunes_newline:
  "trimRunes (map rev spaceRunes) (CHR 0x0A # s) = trimRunes (map rev spaceRunes) s"
  by (subst trimRunes.simps) (simp add: spaceRunes_def)

text \<open>Text that begins and ends with a visible character loses exactly its final newline.\<close>

lemma trimSpace_newline:
  assumes "s \<noteq> []" and "plainChar (hd s)" and "plainChar (last s)"
  shows "trimSpace (s @ [CHR 0x0A]) = s"
proof -
  have "trimRunes spaceRunes (s @ [CHR 0x0A]) = s @ [CHR 0x0A]"
    using trimRunes_plain [of spaceRunes "hd s" "tl s @ [CHR 0x0A]"] spaceRunes_not_plain assms
    by (cases s) (auto simp: list_all_iff)
  moreover have "trimRunes (map rev spaceRunes) (rev s) = rev s"
    using trimRunes_plain [of "map rev spaceRunes" "last s" "tl (rev s)"] spaceRunes_not_plain assms
    by (auto simp: list_all_iff hd_rev [symmetric])
  ultimately show ?thesis
    by (simp add: trimSpace_def trimRunes_newline)
qed

lemma plainChar_digitChar: "d < 10 \<Longrightarrow> plainChar (digitChar d)"
  by (simp add: plainChar_def digitChar_def Let_def)

lemma decimal_chars: "c \<in> set (decimal n) \<Longrightarrow> \<exists>d < 10. c = digitChar d"
proof (induction n rule: decimal.induct)
  case (1 n)
  show ?case
  proof (cases "n < 10")
    case True
    with "1.prems" show ?thesis by (auto simp: decimal.simps [of n])
  next
    case False
    with 1 show ?thesis
      by (auto simp: decimal.simps [of n] intro: exI [of _ "n mod 10"])
  qed
qed

lemma formatUint_plain: "c \<in> set (formatUint v) \<Longrightarrow> plainChar c"
  by (auto simp: formatUint_def dest: decimal_chars plainChar_digitChar)

lemma formatUint_not_Nil [simp]: "formatUint v \<noteq> []"
  by (simp add: formatUint_def)

lemma trimSpace_formatUint [simp]: "trimSpace (formatUint v @ [CHR 0x0A]) = formatUint v"
  by (intro trimSpace_newline formatUint_plain [of _ v] hd_in_set last_in_set) simp_all

lemma hasSuffix_append [simp]: "hasSuffix (s @ suf) suf"
  by (simp add: hasSuffix_def)

lemma trimSuffix_append [simp]: "trimSuffix (s @ suf) suf = s"
  by (simp add: trimSuffix_def)

lemma cutAt_append [simp]:
  "sep \<notin> set s \<Longrightarrow> cutAt sep (s @ sep # t) = (s, t, True)"
proof -
  assume a: "sep \<notin> set s"
  then have "takeWhile (\<lambda>c. c \<noteq> sep) (s @ sep # t) = s"
    and "dropWhile (\<lambda>c. c \<noteq> sep) (s @ sep # t) = sep # t"
    by (induction s) auto
  then show ?thesis by (simp add: cutAt_def)
qed

lemma digitChar_not_dot: "d < 10 \<Longrightarrow> digitChar d \<noteq> CHR ''.''"
  by (auto simp: digitChar_def dest!: arg_cong [of _ _ "of_char :: char \<Rightarrow> nat"])

lemma dot_not_in_formatUint20: "CHR ''.'' \<notin> set (formatUint20 v)"
  by (auto simp: formatUint20_def formatUint_def dest!: decimal_chars digitChar_not_dot)

end
