(* ===== verification/Filesystem.thy ===== *)
theory Filesystem
  imports Prelude "HOL-Library.AList" "HOL-Library.Sublist"
begin

text \<open>
  The operating system underneath the log: one directory, its files, and the calls of Go's
  \<^verbatim>\<open>os\<close> package that the log makes on them.

  A file is an inode: \<open>data\<close> is what every process reads, \<open>stable\<close> what the last successful
  \<^verbatim>\<open>File.Sync\<close> put on the device. Names live in \<open>dents\<close> as every process sees them and in \<open>sdents\<close>
  as the last successful sync of the directory made them durable. A process that dies leaves
  \<open>dents\<close> and \<open>data\<close>; a machine that dies is only sure of \<open>sdents\<close> and \<open>stable\<close>.

  Every call may fail. Which ones do is an input: \<open>faults\<close> lists the outcome of the calls to come,
  one entry per call, and a call past the end of the list succeeds. A failing write has still put
  some of its bytes in the file, and a failing read has still delivered some: the number is part
  of the fault. A theorem about an arbitrary file system is therefore a theorem about every
  pattern of I/O errors. The hooks \<^verbatim>\<open>WriteFunc\<close>, \<^verbatim>\<open>SyncFunc\<close> and \<^verbatim>\<open>RollbackSyncFunc\<close> of
  \<^verbatim>\<open>wal.Options\<close>, which exist for tests to inject such errors, are covered by the same list.
\<close>

subsection \<open>State\<close>

datatype fault = Fault errno nat

record fs =
  dents :: "(string \<times> nat) list"
  sdents :: "(string \<times> nat) list"
  subdirs :: "string list"
  data :: "nat \<Rightarrow> bytes"
  stable :: "nat \<Rightarrow> bytes"
  nextIno :: nat
  faults :: "fault option list"

text \<open>A computation on the file system that returns a value or an error.\<close>

type_synonym 'a io = "fs \<Rightarrow> (error + 'a) \<times> fs"

definition io_return :: "'a \<Rightarrow> 'a io" where
  "io_return x w = (Inr x, w)"

definition io_throw :: "error \<Rightarrow> 'a io" where
  "io_throw e w = (Inl e, w)"

text \<open>Sequencing: \<^verbatim>\<open>if err != nil { return err }\<close> after the first call.\<close>

definition io_bind :: "'a io \<Rightarrow> ('a \<Rightarrow> 'b io) \<Rightarrow> 'b io" where
  "io_bind m f w = (case m w of (Inl e, w') \<Rightarrow> (Inl e, w') | (Inr x, w') \<Rightarrow> f x w')"

text \<open>Clean-up on the error path: run \<open>c\<close>, whose own outcome is ignored, and return the error.\<close>

definition io_on_error :: "'a io \<Rightarrow> 'c io \<Rightarrow> 'a io" where
  "io_on_error m c w = (case m w of (Inl e, w') \<Rightarrow> (Inl e, snd (c w')) | (Inr x, w') \<Rightarrow> (Inr x, w'))"

subsection \<open>Calls\<close>

definition next_fault :: "fs \<Rightarrow> fault option" where
  "next_fault w = (case faults w of [] \<Rightarrow> None | x # _ \<Rightarrow> x)"

definition pop_fault :: "fs \<Rightarrow> fs" where
  "pop_fault w = w\<lparr>faults := tl (faults w)\<rparr>"

definition lookup_name :: "fs \<Rightarrow> string \<Rightarrow> nat option" where
  "lookup_name w p = map_of (dents w) p"

definition create_name :: "string \<Rightarrow> fs \<Rightarrow> fs" where
  "create_name p w = w\<lparr>dents := AList.update p (nextIno w) (dents w),
     data := (data w)(nextIno w := []), stable := (stable w)(nextIno w := []),
     nextIno := Suc (nextIno w)\<rparr>"

text \<open>\<^verbatim>\<open>os.OpenFile\<close> with \<open>O_CREATE|O_TRUNC\<close>.\<close>

definition open_trunc :: "string \<Rightarrow> nat io" where
  "open_trunc p w = (case next_fault w of
      Some (Fault e _) \<Rightarrow> (Inl (Errno e), pop_fault w)
    | None \<Rightarrow> (case lookup_name w p of
         None \<Rightarrow> (Inr (nextIno w), create_name p (pop_fault w))
       | Some i \<Rightarrow> (Inr i, (pop_fault w)\<lparr>data := (data w)(i := [])\<rparr>)))"

text \<open>\<^verbatim>\<open>os.OpenFile\<close> with \<open>O_CREATE|O_EXCL\<close>.\<close>

definition open_excl :: "string \<Rightarrow> nat io" where
  "open_excl p w = (case next_fault w of
      Some (Fault e _) \<Rightarrow> (Inl (Errno e), pop_fault w)
    | None \<Rightarrow> (case lookup_name w p of
         None \<Rightarrow> (Inr (nextIno w), create_name p (pop_fault w))
       | Some _ \<Rightarrow> (Inl (Errno EEXIST), pop_fault w)))"

text \<open>\<^verbatim>\<open>os.OpenFile\<close> with \<open>O_CREATE\<close> alone.\<close>

definition open_create :: "string \<Rightarrow> nat io" where
  "open_create p w = (case next_fault w of
      Some (Fault e _) \<Rightarrow> (Inl (Errno e), pop_fault w)
    | None \<Rightarrow> (case lookup_name w p of
         None \<Rightarrow> (Inr (nextIno w), create_name p (pop_fault w))
       | Some i \<Rightarrow> (Inr i, pop_fault w)))"

text \<open>\<^verbatim>\<open>os.Open\<close>, and \<^verbatim>\<open>os.OpenFile\<close> without \<open>O_CREATE\<close>.\<close>

definition open_existing :: "string \<Rightarrow> nat io" where
  "open_existing p w = (case next_fault w of
      Some (Fault e _) \<Rightarrow> (Inl (Errno e), pop_fault w)
    | None \<Rightarrow> (case lookup_name w p of
         None \<Rightarrow> (Inl (Errno ENOENT), pop_fault w)
       | Some i \<Rightarrow> (Inr i, pop_fault w)))"

text \<open>\<^verbatim>\<open>File.Write\<close> at the end of the file.\<close>

definition file_write :: "nat \<Rightarrow> bytes \<Rightarrow> unit io" where
  "file_write i b w = (case next_fault w of
      Some (Fault e k) \<Rightarrow> (Inl (Errno e), (pop_fault w)\<lparr>data := (data w)(i := data w i @ take k b)\<rparr>)
    | None \<Rightarrow> (Inr (), (pop_fault w)\<lparr>data := (data w)(i := data w i @ b)\<rparr>))"

definition file_sync :: "nat \<Rightarrow> unit io" where
  "file_sync i w = (case next_fault w of
      Some (Fault e _) \<Rightarrow> (Inl (Errno e), pop_fault w)
    | None \<Rightarrow> (Inr (), (pop_fault w)\<lparr>stable := (stable w)(i := data w i)\<rparr>))"

definition file_close :: "nat \<Rightarrow> unit io" where
  "file_close i w = (case next_fault w of
      Some (Fault e _) \<Rightarrow> (Inl (Errno e), pop_fault w)
    | None \<Rightarrow> (Inr (), pop_fault w))"

text \<open>\<^verbatim>\<open>File.Truncate\<close> and \<^verbatim>\<open>os.Truncate\<close>: a longer size pads with zeros.\<close>

definition file_truncate :: "nat \<Rightarrow> nat \<Rightarrow> unit io" where
  "file_truncate i n w = (case next_fault w of
      Some (Fault e _) \<Rightarrow> (Inl (Errno e), pop_fault w)
    | None \<Rightarrow> (Inr (), (pop_fault w)\<lparr>data :=
        (data w)(i := take n (data w i) @ replicate (n - length (data w i)) 0)\<rparr>))"

definition file_size :: "nat \<Rightarrow> nat io" where
  "file_size i w = (case next_fault w of
      Some (Fault e _) \<Rightarrow> (Inl (Errno e), pop_fault w)
    | None \<Rightarrow> (Inr (length (data w i)), pop_fault w))"

text \<open>\<^verbatim>\<open>os.Stat\<close> and \<^verbatim>\<open>os.Truncate\<close> by name.\<close>

definition stat_path :: "string \<Rightarrow> nat io" where
  "stat_path p w = (case lookup_name w p of
      None \<Rightarrow> (case next_fault w of
          Some (Fault e _) \<Rightarrow> (Inl (Errno e), pop_fault w)
        | None \<Rightarrow> (Inl (Errno ENOENT), pop_fault w))
    | Some i \<Rightarrow> file_size i w)"

definition truncate_path :: "string \<Rightarrow> nat \<Rightarrow> unit io" where
  "truncate_path p n w = (case lookup_name w p of
      None \<Rightarrow> (case next_fault w of
          Some (Fault e _) \<Rightarrow> (Inl (Errno e), pop_fault w)
        | None \<Rightarrow> (Inl (Errno ENOENT), pop_fault w))
    | Some i \<Rightarrow> file_truncate i n w)"

text \<open>
  Reading a file from the start: the bytes that can be read and how the reading ends, either at
  the end of the file (\<open>None\<close>) or with an error after \<open>k\<close> bytes.
\<close>

definition file_stream :: "nat \<Rightarrow> (bytes \<times> error option) io" where
  "file_stream i w = (case next_fault w of
      Some (Fault e k) \<Rightarrow> (Inr (take k (data w i), Some (Errno e)), pop_fault w)
    | None \<Rightarrow> (Inr (data w i, None), pop_fault w))"

text \<open>\<^verbatim>\<open>os.ReadFile\<close>.\<close>

definition read_file :: "string \<Rightarrow> bytes io" where
  "read_file p = io_bind (open_existing p) (\<lambda>i. io_bind (file_stream i)
     (\<lambda>(b, err). case err of None \<Rightarrow> io_return b | Some e \<Rightarrow> io_throw e))"

definition rename_file :: "string \<Rightarrow> string \<Rightarrow> unit io" where
  "rename_file a b w = (case next_fault w of
      Some (Fault e _) \<Rightarrow> (Inl (Errno e), pop_fault w)
    | None \<Rightarrow> (case lookup_name w a of
         None \<Rightarrow> (Inl (Errno ENOENT), pop_fault w)
       | Some i \<Rightarrow> (Inr (), (pop_fault w)\<lparr>dents := AList.update b i (AList.delete a (dents w))\<rparr>)))"

definition remove_file :: "string \<Rightarrow> unit io" where
  "remove_file p w = (case next_fault w of
      Some (Fault e _) \<Rightarrow> (Inl (Errno e), pop_fault w)
    | None \<Rightarrow> (case lookup_name w p of
         None \<Rightarrow> (Inl (Errno ENOENT), pop_fault w)
       | Some i \<Rightarrow> (Inr (), (pop_fault w)\<lparr>dents := AList.delete p (dents w)\<rparr>)))"

text \<open>\<^verbatim>\<open>os.ReadDir\<close>: the entries, and for each whether it is a directory.\<close>

definition read_dir :: "(string \<times> bool) list io" where
  "read_dir w = (case next_fault w of
      Some (Fault e _) \<Rightarrow> (Inl (Errno e), pop_fault w)
    | None \<Rightarrow> (Inr (map (\<lambda>(p, _). (p, False)) (dents w) @ map (\<lambda>p. (p, True)) (subdirs w)),
        pop_fault w))"

text \<open>\<^verbatim>\<open>os.MkdirAll\<close> of the log's directory.\<close>

definition mkdir_all :: "unit io" where
  "mkdir_all w = (case next_fault w of
      Some (Fault e _) \<Rightarrow> (Inl (Errno e), pop_fault w)
    | None \<Rightarrow> (Inr (), pop_fault w))"

text \<open>Opening the directory itself and syncing it are two calls.\<close>

definition open_dir :: "unit io" where
  "open_dir w = (case next_fault w of
      Some (Fault e _) \<Rightarrow> (Inl (Errno e), pop_fault w)
    | None \<Rightarrow> (Inr (), pop_fault w))"

definition sync_dir_handle :: "unit io" where
  "sync_dir_handle w = (case next_fault w of
      Some (Fault e _) \<Rightarrow> (Inl (Errno e), pop_fault w)
    | None \<Rightarrow> (Inr (), (pop_fault w)\<lparr>sdents := dents w\<rparr>))"

text \<open>\<^verbatim>\<open>syncDir\<close> of \<^verbatim>\<open>segment.go\<close>.\<close>

definition syncDir :: "unit io" where
  "syncDir = io_bind open_dir (\<lambda>_. sync_dir_handle)"

text \<open>What a process reads under a name, and what survives a machine crash under it.\<close>

definition file_at :: "fs \<Rightarrow> string \<Rightarrow> bytes option" where
  "file_at w p = map_option (data w) (lookup_name w p)"

definition stable_at :: "fs \<Rightarrow> string \<Rightarrow> bytes option" where
  "stable_at w p = map_option (stable w) (map_of (sdents w) p)"

text \<open>
  What the next process finds: after this one was killed, everything it had written; after a power
  loss that kept nothing but what was synced, the durable names and contents. The new process
  starts with a list of outcomes of its own, here the one in which no call fails.

  A power loss need not be that tidy. \<open>power_loss P w w'\<close> says that \<open>w'\<close> may be found after one: under
  every name the file that was durable there or the one that was visible; a file that had only grown
  since its last sync starts with what was synced, and then has anything; and a file that has not been
  changed since its last sync, which is any whose name is not in \<open>P\<close> and whose contents agree with what
  was synced, is as it was. (A file cut back to what was synced, without a sync after that, agrees with
  it too, but the device may have the longer contents: \<open>P\<close> is for those.)
\<close>

definition after_kill :: "fs \<Rightarrow> fs" where
  "after_kill w = w\<lparr>faults := []\<rparr>"

definition after_power_loss :: "fs \<Rightarrow> fs" where
  "after_power_loss w = w\<lparr>dents := sdents w, data := stable w, faults := []\<rparr>"

subsection \<open>Sequencing\<close>

lemma io_bind_Inr:
  "io_bind m f w = (Inr y, w'') \<longleftrightarrow> (\<exists>x w'. m w = (Inr x, w') \<and> f x w' = (Inr y, w''))"
  by (auto simp: io_bind_def split: prod.splits sum.splits)

lemma io_bind_Inl:
  "io_bind m f w = (Inl e, w'') \<longleftrightarrow>
     m w = (Inl e, w'') \<or> (\<exists>x w'. m w = (Inr x, w') \<and> f x w' = (Inl e, w''))"
  by (auto simp: io_bind_def split: prod.splits sum.splits)

lemma io_on_error_Inr: "io_on_error m c w = (Inr x, w') \<longleftrightarrow> m w = (Inr x, w')"
  by (auto simp: io_on_error_def split: prod.splits sum.splits)

lemma io_on_error_Inl:
  "io_on_error m c w = (Inl e, w'') \<longleftrightarrow> (\<exists>w'. m w = (Inl e, w') \<and> w'' = snd (c w'))"
  by (auto simp: io_on_error_def split: prod.splits sum.splits)

lemma io_return_simp [simp]: "io_return x w = (Inr x, w)"
  by (simp add: io_return_def)

lemma io_throw_simp [simp]: "io_throw e w = (Inl e, w)"
  by (simp add: io_throw_def)

lemma io_bind_return [simp]: "io_bind (io_return x) f = f x"
  by (simp add: io_bind_def fun_eq_iff)

lemma pop_fault_simps [simp]:
  "dents (pop_fault w) = dents w" "sdents (pop_fault w) = sdents w"
  "subdirs (pop_fault w) = subdirs w" "data (pop_fault w) = data w"
  "stable (pop_fault w) = stable w" "nextIno (pop_fault w) = nextIno w"
  by (simp_all add: pop_fault_def)

lemmas call_defs = open_trunc_def open_excl_def open_existing_def file_write_def file_sync_def
  file_close_def file_truncate_def file_size_def file_stream_def rename_file_def remove_file_def
  open_dir_def sync_dir_handle_def create_name_def lookup_name_def stat_path_def truncate_path_def

text \<open>
  Well-formedness: names are unique and refer to inodes already allocated, no two names share an
  inode, the inode of a temporary file has not been made durable under another name, and an inode
  that is durable under the name of a metadata file is visible under no other name.
\<close>

definition is_meta :: "string \<Rightarrow> bool" where
  "is_meta p \<longleftrightarrow> p \<in> {''CHECKPOINT'', ''RESERVED'', ''LOGID''}"

definition is_tmp :: "string \<Rightarrow> bool" where
  "is_tmp p \<longleftrightarrow> (\<exists>n. p = n @ ''.tmp'')"

definition fs_ok :: "fs \<Rightarrow> bool" where
  "fs_ok w \<longleftrightarrow> distinct (map fst (dents w)) \<and> distinct (map fst (sdents w)) \<and>
     (\<forall>p q i. map_of (sdents w) p = Some i \<and> map_of (sdents w) q = Some i \<longrightarrow> p = q) \<and> (\<forall>p i. map_of (dents w) p = Some i \<longrightarrow> i < nextIno w)
     \<and> (\<forall>p i. map_of (sdents w) p = Some i \<longrightarrow> i < nextIno w)
     \<and> (\<forall>p q i. map_of (dents w) p = Some i \<and> map_of (dents w) q = Some i \<longrightarrow> p = q)
     \<and> (\<forall>p q i. (is_tmp p \<or> is_meta q) \<and> map_of (dents w) p = Some i \<and> map_of (sdents w) q = Some i \<longrightarrow> p = q)"

text \<open>The states a power loss may leave, the tidiest and the one that lost nothing among them.\<close>

definition power_loss :: "string set \<Rightarrow> fs \<Rightarrow> fs \<Rightarrow> bool" where
  "power_loss P w w' \<longleftrightarrow> fs_ok w' \<and> faults w' = [] \<and> subdirs w' = subdirs w
     \<and> sdents w' = dents w' \<and> stable w' = data w'
     \<and> (\<forall>p. map_of (dents w') p \<in> {map_of (sdents w) p, map_of (dents w) p})
     \<and> (\<forall>i. prefix (stable w i) (data w i) \<longrightarrow> prefix (stable w i) (data w' i))
     \<and> (\<forall>p i. p \<notin> P \<and> map_of (dents w') p = Some i \<and> stable w i = data w i \<longrightarrow> data w' i = data w i)"

lemma power_loss_synced: "fs_ok w \<Longrightarrow> power_loss P w (after_power_loss w)"
  by (auto simp: power_loss_def after_power_loss_def fs_ok_def)

lemma power_loss_written:
  "fs_ok w \<Longrightarrow> power_loss P w ((after_kill w)\<lparr>sdents := dents w, stable := data w\<rparr>)"
  by (auto simp: power_loss_def after_kill_def fs_ok_def)

lemma power_loss_name:
  assumes "power_loss P w w'" and "map_of (dents w) p = x" and "map_of (sdents w) p = x"
  shows "map_of (dents w') p = x"
  using assms unfolding power_loss_def by (metis insertE singletonD)

subsection \<open>What the calls leave alone\<close>

text \<open>A computation that touches nothing but the contents of one inode.\<close>

definition only_ino :: "nat \<Rightarrow> fs \<Rightarrow> fs \<Rightarrow> bool" where
  "only_ino i w w' \<longleftrightarrow> dents w' = dents w \<and> sdents w' = sdents w \<and> subdirs w' = subdirs w
     \<and> nextIno w' = nextIno w \<and> (\<forall>j. j \<noteq> i \<longrightarrow> data w' j = data w j \<and> stable w' j = stable w j)"

lemma only_ino_refl [simp]: "only_ino i w w"
  by (simp add: only_ino_def)

lemma only_ino_pop [simp]: "only_ino i w (pop_fault w)"
  by (simp add: only_ino_def)

lemma only_ino_trans: "only_ino i w w' \<Longrightarrow> only_ino i w' w'' \<Longrightarrow> only_ino i w w''"
  by (simp add: only_ino_def)

lemma file_write_only: "only_ino i w (snd (file_write i b w))"
  by (auto simp: file_write_def only_ino_def split: option.splits fault.splits)

lemma file_sync_only: "only_ino i w (snd (file_sync i w))"
  by (auto simp: file_sync_def only_ino_def split: option.splits fault.splits)

lemma file_close_only: "only_ino i w (snd (file_close i w))"
  by (auto simp: file_close_def split: option.splits fault.splits)

lemma file_truncate_only: "only_ino i w (snd (file_truncate i n w))"
  by (auto simp: file_truncate_def only_ino_def split: option.splits fault.splits)

lemma file_size_only: "only_ino i w (snd (file_size j w))"
  by (auto simp: file_size_def split: option.splits fault.splits)

lemma file_stream_only: "only_ino i w (snd (file_stream j w))"
  by (auto simp: file_stream_def split: option.splits fault.splits)

lemma open_existing_only: "only_ino i w (snd (open_existing p w))"
  by (auto simp: open_existing_def split: option.splits fault.splits)

lemmas calls_only = file_write_only file_sync_only file_close_only file_truncate_only
  file_size_only file_stream_only open_existing_only

lemma io_bind_only:
  assumes "\<And>w. only_ino i w (snd (m w))" and "\<And>x w. only_ino i w (snd (f x w))"
  shows "only_ino i w (snd (io_bind m f w))"
  using assms(1) [of w] assms(2)
  by (auto simp: io_bind_def split: prod.splits sum.splits) (metis only_ino_trans snd_conv)

lemma io_on_error_only:
  assumes "\<And>w. only_ino i w (snd (m w))" and "\<And>w. only_ino i w (snd (c w))"
  shows "only_ino i w (snd (io_on_error m c w))"
  using assms(1) [of w] assms(2)
  by (auto simp: io_on_error_def split: prod.splits sum.splits) (metis only_ino_trans snd_conv)

lemma io_bind_assoc: "io_bind (io_bind m f) g = io_bind m (\<lambda>x. io_bind (f x) g)"
  by (auto simp: io_bind_def fun_eq_iff split: prod.splits sum.splits)

subsection \<open>Results of the calls\<close>

lemma file_write_ok:
  "file_write i b w = (Inr x, w') \<Longrightarrow> data w' i = data w i @ b \<and> stable w' = stable w"
  by (auto simp: file_write_def split: option.splits fault.splits)

lemma file_sync_ok:
  "file_sync i w = (Inr x, w') \<Longrightarrow> stable w' i = data w i \<and> data w' = data w"
  by (auto simp: file_sync_def split: option.splits fault.splits)

lemma file_close_same: "file_close i w = (r, w') \<Longrightarrow> data w' = data w \<and> stable w' = stable w"
  by (auto simp: file_close_def split: option.splits fault.splits)

lemma fs_okD:
  assumes "fs_ok w"
  shows "distinct (map fst (dents w))"
    and "map_of (dents w) p = Some i \<Longrightarrow> i < nextIno w"
    and "map_of (sdents w) p = Some i \<Longrightarrow> i < nextIno w"
    and "map_of (dents w) p = Some i \<Longrightarrow> map_of (dents w) q = Some i \<Longrightarrow> p = q"
    and "is_tmp p \<or> is_meta q \<Longrightarrow> map_of (dents w) p = Some i \<Longrightarrow> map_of (sdents w) q = Some i \<Longrightarrow> p = q"
    and "distinct (map fst (sdents w))"
    and "map_of (sdents w) p = Some i \<Longrightarrow> map_of (sdents w) q = Some i \<Longrightarrow> p = q"
  using assms unfolding fs_ok_def by blast+

lemma fs_okI:
  assumes "distinct (map fst (dents w))"
    and "\<And>p i. map_of (dents w) p = Some i \<Longrightarrow> i < nextIno w"
    and "\<And>p i. map_of (sdents w) p = Some i \<Longrightarrow> i < nextIno w"
    and "\<And>p q i. map_of (dents w) p = Some i \<Longrightarrow> map_of (dents w) q = Some i \<Longrightarrow> p = q"
    and "\<And>p q i. is_tmp p \<or> is_meta q \<Longrightarrow> map_of (dents w) p = Some i \<Longrightarrow> map_of (sdents w) q = Some i \<Longrightarrow> p = q"
    and "distinct (map fst (sdents w))"
    and "\<And>p q i. map_of (sdents w) p = Some i \<Longrightarrow> map_of (sdents w) q = Some i \<Longrightarrow> p = q"
  shows "fs_ok w"
  using assms unfolding fs_ok_def by blast

lemma only_ino_fs_ok: "only_ino i w w' \<Longrightarrow> fs_ok w' = fs_ok w"
  by (simp add: fs_ok_def only_ino_def)

text \<open>\<^verbatim>\<open>syncDir\<close> changes the durable entries and nothing else, and only when it succeeds.\<close>

lemma syncDir_cases:
  assumes "syncDir w = (r, w')"
  shows "dents w' = dents w \<and> data w' = data w \<and> stable w' = stable w \<and> nextIno w' = nextIno w
    \<and> subdirs w' = subdirs w \<and> (case r of Inr _ \<Rightarrow> sdents w' = dents w | Inl _ \<Rightarrow> sdents w' = sdents w)"
  using assms
  by (auto simp: syncDir_def io_bind_def open_dir_def sync_dir_handle_def
      split: prod.splits sum.splits option.splits fault.splits)

lemma syncDir_fs_ok: "fs_ok w \<Longrightarrow> syncDir w = (r, w') \<Longrightarrow> fs_ok w'"
  using syncDir_cases [of w r w'] fs_okD [of w]
  by (intro fs_okI) (auto split: sum.splits)

lemma rename_file_cases:
  assumes "rename_file a b w = (r, w')"
  shows "data w' = data w \<and> stable w' = stable w \<and> sdents w' = sdents w \<and> nextIno w' = nextIno w
    \<and> subdirs w' = subdirs w
    \<and> (case r of Inl _ \<Rightarrow> dents w' = dents w
       | Inr _ \<Rightarrow> \<exists>i. map_of (dents w) a = Some i
           \<and> dents w' = AList.update b i (AList.delete a (dents w)))"
  using assms by (auto simp: rename_file_def lookup_name_def split: option.splits fault.splits)

lemma create_name_fs_ok:
  assumes "fs_ok w" and "map_of (dents w) p = None"
  shows "fs_ok (create_name p (pop_fault w))"
proof -
  have fresh: "map_of (dents w) q \<noteq> Some (nextIno w)" "map_of (sdents w) q \<noteq> Some (nextIno w)" for q
    using fs_okD(2,3) [OF assms(1)] by fastforce+
  show ?thesis
    using fs_okD [OF assms(1)] fresh
    by (intro fs_okI)
      (auto simp: create_name_def update_conv distinct_update less_SucI split: if_splits)
qed

lemma rename_file_fs_ok:
  assumes "fs_ok w" and "rename_file a b w = (r, w')" and "\<not> is_tmp b" and "\<not> is_meta a"
  shows "fs_ok w'"
proof -
  have "b = q" if "map_of (dents w) a = Some i" "map_of (sdents w) q = Some i" "is_meta q" for i q
    using that fs_okD(5) [OF assms(1), of a q i] assms(4) by blast
  then show ?thesis
    using rename_file_cases [OF assms(2)] fs_okD [OF assms(1)] assms(3,4)
    by (intro fs_okI)
      (auto simp: update_conv delete_conv distinct_update distinct_delete split: sum.splits if_splits)
qed

lemma remove_file_cases:
  assumes "remove_file p w = (r, w')"
  shows "data w' = data w \<and> stable w' = stable w \<and> sdents w' = sdents w \<and> nextIno w' = nextIno w
    \<and> subdirs w' = subdirs w
    \<and> (case r of Inl _ \<Rightarrow> dents w' = dents w | Inr _ \<Rightarrow> dents w' = AList.delete p (dents w))"
  using assms by (auto simp: remove_file_def lookup_name_def split: option.splits fault.splits)

lemma remove_file_fs_ok:
  assumes "fs_ok w" and "remove_file p w = (r, w')"
  shows "fs_ok w'"
  using remove_file_cases [OF assms(2)] fs_okD [OF assms(1)]
  by (intro fs_okI) (auto simp: delete_conv distinct_delete split: sum.splits if_splits)

lemma after_crash_simps [simp]:
  "faults (after_kill w) = []" "faults (after_power_loss w) = []"
  "file_at (after_kill w) p = file_at w p" "file_at (after_power_loss w) p = stable_at w p"
  by (simp_all add: after_kill_def after_power_loss_def file_at_def stable_at_def lookup_name_def)

lemma pop_fault_calm [simp]: "faults w = [] \<Longrightarrow> pop_fault w = w"
  by (simp add: pop_fault_def)

lemma next_fault_calm [simp]: "faults w = [] \<Longrightarrow> next_fault w = None"
  by (simp add: next_fault_def)

lemma read_file_calm:
  "faults w = [] \<Longrightarrow> read_file p w = (case file_at w p of None \<Rightarrow> (Inl (Errno ENOENT), w) | Some b \<Rightarrow> (Inr b, w))"
  by (auto simp: read_file_def io_bind_def open_existing_def file_stream_def file_at_def
      split: option.splits)

lemma read_file_only: "only_ino i w (snd (read_file p w))"
  unfolding read_file_def
  by (intro io_bind_only calls_only) (auto split: prod.splits option.splits)

lemma read_file_ok: "read_file p w = (Inr b, w') \<Longrightarrow> file_at w' p = Some b"
  by (auto simp: read_file_def io_bind_Inr open_existing_def file_stream_def file_at_def lookup_name_def
      split: option.splits fault.splits)

end
