(* ===== verification/Segment.thy ===== *)
theory Segment
  imports RecordFormat Text Filesystem
begin

text \<open>
  One segment file of the log, \<^verbatim>\<open>internal/wal/segment.go\<close>: its name, its creation, and the scan that
  recovery makes over it.

  The names carry the two numbers recovery chains segments with, and the lemmas show that they
  parse back. The scan is proved against the framing: on intact records it counts them all; on a
  file cut anywhere it counts the records that are still whole and reports the rest as torn; on
  damage with data behind it, it stops with \<^verbatim>\<open>ErrCorrupt\<close> and says where; on a record above the
  configured limit that is really there, it reports that rather than cutting it away; and on any
  bytes whatever, what it accepts is a sequence of framed records.
\<close>

subsection \<open>Definitions\<close>

text \<open>
  The \<^verbatim>\<open>segment\<close> struct. \<open>segFile\<close> is the write handle, an inode, and only the active segment has
  one; \<open>segShut\<close> is the state of that handle: an \<^verbatim>\<open>os.File\<close> is closed by \<^verbatim>\<open>Close\<close> also when
  \<^verbatim>\<open>Close\<close> reports an error, and every later call on it fails. \<open>segSize\<close> is the number of durable
  bytes.
\<close>

record segment =
  baseLSN :: u64
  segPath :: string
  prevEnd :: u64
  segFile :: "nat option"
  segShut :: bool
  segSize :: nat
  segCount :: u64

definition segmentSuffix :: string where
  "segmentSuffix = ''.log''"

definition lastLSN :: "segment \<Rightarrow> u64" where
  "lastLSN s = baseLSN s + segCount s - 1"

fun lastRecordLSN_from :: "segment list \<Rightarrow> u64" where
  "lastRecordLSN_from [] = 0"
| "lastRecordLSN_from (s # ss) = (if segCount s > 0 then lastLSN s else lastRecordLSN_from ss)"

text \<open>The loop runs from the last segment down.\<close>

definition lastRecordLSN :: "segment list \<Rightarrow> u64" where
  "lastRecordLSN segs = lastRecordLSN_from (rev segs)"

definition segmentName :: "u64 \<Rightarrow> u64 \<Rightarrow> string" where
  "segmentName base prev = formatUint20 base @ ''.'' @ formatUint20 prev @ segmentSuffix"

definition parseSegmentName :: "string \<Rightarrow> (u64 \<times> u64) option" where
  "parseSegmentName name =
     (if \<not> hasSuffix name segmentSuffix then None
      else case cutAt CHR ''.'' (trimSuffix name segmentSuffix) of (base, prev, found) \<Rightarrow>
        if \<not> found then None
        else case parseUint base of
          None \<Rightarrow> None
        | Some b \<Rightarrow> (case parseUint prev of None \<Rightarrow> None | Some p \<Rightarrow> Some (b, p)))"

text \<open>\<^verbatim>\<open>discard\<close> closes and removes a segment that never became part of the log; both outcomes are
  ignored.\<close>

definition discard :: "segment \<Rightarrow> unit io" where
  "discard s w =
     (let w1 = (case segFile s of None \<Rightarrow> w | Some i \<Rightarrow> snd (file_close i w))
      in (Inr (), snd (remove_file (segPath s) w1)))"

definition newSegment :: "u64 \<Rightarrow> u64 \<Rightarrow> nat \<Rightarrow> segment" where
  "newSegment base prev i = \<lparr>baseLSN = base, segPath = segmentName base prev, prevEnd = prev,
     segFile = Some i, segShut = False, segSize = 0, segCount = 0\<rparr>"

text \<open>The open with \<open>O_EXCL\<close>, with the retry that clears an empty left-over out of the way.\<close>

definition openNewSegment :: "string \<Rightarrow> nat io" where
  "openNewSegment path w =
     (case open_excl path w of
        (Inr i, w1) \<Rightarrow> (Inr i, w1)
      | (Inl err, w1) \<Rightarrow>
          if \<not> errors_is err (Errno EEXIST) then (Inl err, w1)
          else case stat_path path w1 of
            (Inl _, w2) \<Rightarrow> (Inl err, w2)
          | (Inr sz, w2) \<Rightarrow>
              if sz \<noteq> 0 then (Inl err, w2)
              else case remove_file path w2 of
                (Inl _, w3) \<Rightarrow> (Inl err, w3)
              | (Inr _, w3) \<Rightarrow> open_excl path w3)"

definition createSegment :: "u64 \<Rightarrow> u64 \<Rightarrow> segment io" where
  "createSegment base prev =
     io_bind (openNewSegment (segmentName base prev)) (\<lambda>i.
       let s = newSegment base prev i
       in io_on_error (io_bind syncDir (\<lambda>_. io_return s)) (discard s))"

text \<open>
  The loop of \<^verbatim>\<open>scanSegment\<close>. \<open>r\<close> is what is left of the file and \<open>rerr\<close> how reading it ends
  (\<open>None\<close>: end of file); \<open>totalSize\<close> is the size of the file. The result is the four values of the Go
  function: \<open>count\<close>, \<open>good\<close>, \<open>truncated\<close> and the error.
\<close>

function scanLoop :: "nat \<Rightarrow> nat \<Rightarrow> error option \<Rightarrow> bytes \<Rightarrow> u64 \<Rightarrow> nat \<Rightarrow> u64 \<times> nat \<times> bool \<times> error option" where
  "scanLoop maxRecordBytes totalSize rerr r count good =
     (if length r < headerSize then
        (case rerr of
           Some e \<Rightarrow> (0, 0, False, Some e)
         | None \<Rightarrow> if r = [] then (count, good, good \<noteq> totalSize, None) else (count, good, True, None))
      else
        (case decodeHeader (take headerSize r) of (len, crc) \<Rightarrow>
         let rest = drop headerSize r in
         if len > of_nat maxRecordBytes then
           (if good + recordSize (unat len) \<le> totalSize then
              (case matchesChecksum rest rerr len crc of
                 Inl e \<Rightarrow> (0, 0, False, Some e)
               | Inr okay \<Rightarrow>
                   if okay then (0, 0, False, Some (Wrap ''record above MaxRecordBytes'' [ErrRecordTooLarge]))
                   else (count, good, True, None))
            else (count, good, True, None))
         else if length rest < unat len then
           (case rerr of Some e \<Rightarrow> (0, 0, False, Some e) | None \<Rightarrow> (count, good, True, None))
         else if checksum len (take (unat len) rest) \<noteq> crc then
           (if good + recordSize (unat len) < totalSize
            then (count, good, False, Some (Wrap ''record fails its checksum'' [ErrCorrupt]))
            else (count, good, True, None))
         else scanLoop maxRecordBytes totalSize rerr (drop (unat len) rest) (count + 1)
                (good + recordSize (unat len))))"
  by pat_completeness auto
termination
  by (relation "measure (\<lambda>(_, _, _, r, _, _). length r)") (auto simp: headerSize_def)

declare scanLoop.simps [simp del]

text \<open>The scan of a file with the bytes \<open>b\<close> that reads without an error.\<close>

definition scanBytes :: "nat \<Rightarrow> bytes \<Rightarrow> u64 \<times> nat \<times> bool \<times> error option" where
  "scanBytes maxRecordBytes b = scanLoop maxRecordBytes (length b) None b 0 0"

definition scanSegment :: "string \<Rightarrow> nat \<Rightarrow> fs \<Rightarrow> (u64 \<times> nat \<times> bool \<times> error option) \<times> fs" where
  "scanSegment path maxRecordBytes w =
     (case open_existing path w of
        (Inl e, w1) \<Rightarrow> ((0, 0, False, Some e), w1)
      | (Inr i, w1) \<Rightarrow>
          (case file_size i w1 of
             (Inl e, w2) \<Rightarrow> ((0, 0, False, Some e), w2)
           | (Inr totalSize, w2) \<Rightarrow>
               (case file_stream i w2 of
                  (Inl e, w3) \<Rightarrow> ((0, 0, False, Some e), w3)
                | (Inr (r, rerr), w3) \<Rightarrow> (scanLoop maxRecordBytes totalSize rerr r 0 0, w3))))"

subsection \<open>Names\<close>

lemma parseSegmentName_segmentName [simp]: "parseSegmentName (segmentName b p) = Some (b, p)"
proof -
  have "hasSuffix (segmentName b p) segmentSuffix"
    and "trimSuffix (segmentName b p) segmentSuffix = formatUint20 b @ CHR ''.'' # formatUint20 p"
    using hasSuffix_append [of "formatUint20 b @ ''.'' @ formatUint20 p" segmentSuffix]
      trimSuffix_append [of "formatUint20 b @ ''.'' @ formatUint20 p" segmentSuffix]
    by (simp_all add: segmentName_def)
  then show ?thesis
    by (simp add: parseSegmentName_def dot_not_in_formatUint20)
qed

lemma segmentName_inj [simp]: "segmentName b p = segmentName b' p' \<longleftrightarrow> b = b' \<and> p = p'"
  by (metis option.inject parseSegmentName_segmentName prod.inject)

subsection \<open>Scanning\<close>

text \<open>A limit that the header can describe: what \<^verbatim>\<open>Open\<close> checks before anything else.\<close>

definition limit_ok :: "nat \<Rightarrow> bool" where
  "limit_ok m \<longleftrightarrow> m \<le> 2 ^ 32 - 1 - headerSize"

lemma limit_fits: "limit_ok m \<Longrightarrow> length p \<le> m \<Longrightarrow> unat (of_nat (length p) :: u32) = length p"
  by (simp add: limit_ok_def unat_of_nat_u32)

lemma limit_not_above:
  "limit_ok m \<Longrightarrow> length p \<le> m \<Longrightarrow> \<not> (of_nat m :: u32) < of_nat (length p)"
  by (simp add: limit_ok_def word_less_nat_alt unat_of_nat_u32)

text \<open>Scanning over one whole record.\<close>

lemma scanLoop_frame:
  assumes "limit_ok m" and "length p \<le> m"
  shows "scanLoop m totalSize rerr (frame p @ r) c g = scanLoop m totalSize rerr r (c + 1) (g + length (frame p))"
  using assms limit_fits [OF assms] limit_not_above [OF assms]
  by (subst scanLoop.simps)
    (simp add: framing recordSize_def Let_def)

lemma scanLoop_frames:
  assumes "limit_ok m"
  shows "list_all (\<lambda>p. length p \<le> m) ps \<Longrightarrow>
    scanLoop m totalSize rerr (frames ps @ r) c g
      = scanLoop m totalSize rerr r (c + of_nat (length ps)) (g + length (frames ps))"
  by (induction ps arbitrary: c g) (simp_all add: scanLoop_frame [OF assms] add_ac)

lemma scanLoop_Nil: "scanLoop m totalSize None [] c g = (c, g, g \<noteq> totalSize, None)"
  by (subst scanLoop.simps) (simp add: headerSize_def)

text \<open>A proper, non-empty prefix of a record is torn.\<close>

lemma scanLoop_torn:
  assumes m: "limit_ok m" "length q \<le> m" and t: "frame q = t @ u" "u \<noteq> []" "t \<noteq> []"
  shows "scanLoop m totalSize None t c g = (c, g, True, None)"
proof (cases "length t < headerSize")
  case True
  with t(3) show ?thesis by (subst scanLoop.simps) simp
next
  case False
  then have "take headerSize t = take headerSize (frame q @ [])"
    using t(1) by simp
  then have hdr: "decodeHeader (take headerSize t) =
      (of_nat (length q), checksum (of_nat (length q)) q)"
    by (simp only: take_header_frame decodeHeader_put)
  have "length t < recordSize (length q)"
    using t(1,2) length_frame [of q] by (metis length_append length_greater_0_conv less_add_same_cancel1)
  then have "length (drop headerSize t) < length q"
    using False by (simp add: recordSize_def)
  then show ?thesis
    using False hdr limit_fits [OF m] limit_not_above [OF m]
    by (subst scanLoop.simps) (simp add: Let_def)
qed

text \<open>A complete record that fails its checksum: corruption if anything follows it, torn if not.\<close>

lemma scanLoop_bad_checksum:
  assumes "limit_ok m" and "n \<le> m" and "length d = recordSize n"
    and "decodeHeader (take headerSize d) = (of_nat n, c)"
    and "checksum (of_nat n) (drop headerSize d) \<noteq> c"
  shows "scanLoop m totalSize rerr (d @ r) k g =
      (if g + length d < totalSize then (k, g, False, Some (Wrap ''record fails its checksum'' [ErrCorrupt]))
       else (k, g, True, None))"
proof -
  have u: "unat (of_nat n :: u32) = n" and "\<not> (of_nat m :: u32) < of_nat n"
    using assms(1,2) by (auto simp: limit_ok_def unat_of_nat_u32 word_less_nat_alt)
  with assms(3,4,5) show ?thesis
    by (subst scanLoop.simps) (simp add: recordSize_def Let_def)
qed

text \<open>A complete record above the limit whose checksum verifies.\<close>

lemma scanLoop_oversize:
  assumes "frameable p" and "m < length p" and "g + length (frame p) \<le> totalSize"
  shows "scanLoop m totalSize rerr (frame p @ r) k g =
      (0, 0, False, Some (Wrap ''record above MaxRecordBytes'' [ErrRecordTooLarge]))"
proof -
  have u: "unat (of_nat (length p) :: u32) = length p" and "(of_nat m :: u32) < of_nat (length p)"
    using assms(1,2) by (auto simp: frameable_def unat_of_nat_u32 word_less_nat_alt)
  with assms(3) show ?thesis
    by (subst scanLoop.simps) (simp add: framing recordSize_def matchesChecksum_def Let_def)
qed

text \<open>What the scan accepts, on any bytes, is a sequence of framed records within the limit.\<close>

lemma scanLoop_sound:
  "limit_ok m \<Longrightarrow> scanLoop m totalSize rerr r c g = (c', g', tr, e) \<Longrightarrow>
    (\<exists>ps. c' = c + of_nat (length ps) \<and> g' = g + length (frames ps) \<and> g' - g \<le> length r
       \<and> take (g' - g) r = frames ps \<and> list_all (\<lambda>p. length p \<le> m) ps)
    \<or> (c' = 0 \<and> g' = 0 \<and> \<not> tr \<and> e \<noteq> None \<and>
       (e = rerr \<or> e = Some (Wrap ''record above MaxRecordBytes'' [ErrRecordTooLarge])))"
proof (induction m totalSize rerr r c g rule: scanLoop.induct)
  case (1 m totalSize rerr r c g)
  obtain len crc where h: "decodeHeader (take headerSize r) = (len, crc)" by fastforce
  let ?rest = "drop headerSize r"
  let ?p = "take (unat len) ?rest"
  let ?step = "\<not> length r < headerSize \<and> \<not> of_nat m < len \<and> \<not> length ?rest < unat len
      \<and> checksum len ?p = crc"
  show ?case
  proof (cases ?step)
    case False
    have "(c', g') = (c, g) \<or> (c' = 0 \<and> g' = 0 \<and> \<not> tr \<and> e \<noteq> None \<and>
       (e = rerr \<or> e = Some (Wrap ''record above MaxRecordBytes'' [ErrRecordTooLarge])))"
      using "1.prems"(2) False
      by (subst (asm) scanLoop.simps)
        (auto simp: h Let_def matchesChecksum_def split: if_splits option.splits)
    then show ?thesis
      by (auto intro!: exI [of _ "[]"])
  next
    case True
    then have r: "r = frame ?p @ drop (unat len) ?rest"
      using h by (intro record_at_front) auto
    have p: "length ?p = unat len" using True by simp
    have le: "length ?p \<le> m"
      using True "1.prems"(1) p by (simp add: word_less_nat_alt unat_of_nat_u32 limit_ok_def not_less)
    have "scanLoop m totalSize rerr (drop (unat len) ?rest) (c + 1) (g + recordSize (unat len)) = (c', g', tr, e)"
      using "1.prems"(2) True by (subst (asm) scanLoop.simps) (simp add: h Let_def)
    with 1(1) [OF _ h [symmetric] refl] True "1.prems"(1) consider
        (ok) ps where "c' = c + 1 + of_nat (length ps)"
          "g' = g + recordSize (unat len) + length (frames ps)"
          "g' - (g + recordSize (unat len)) \<le> length (drop (unat len) ?rest)"
          "take (g' - (g + recordSize (unat len))) (drop (unat len) ?rest) = frames ps"
          "list_all (\<lambda>p. length p \<le> m) ps"
      | (err) "c' = 0 \<and> g' = 0 \<and> \<not> tr \<and> e \<noteq> None \<and>
          (e = rerr \<or> e = Some (Wrap ''record above MaxRecordBytes'' [ErrRecordTooLarge]))"
      by auto
    then show ?thesis
    proof cases
      case ok
      have "take (g' - g) r = frames (?p # ps)"
        using ok p by (subst r) simp
      moreover have "g' - g \<le> length r"
        using ok p by (subst r) simp
      ultimately show ?thesis
        using ok le p by (intro disjI1 exI [of _ "?p # ps"]) simp
    next
      case err
      then show ?thesis by (intro disjI2)
    qed
  qed
qed

subsection \<open>Properties\<close>

lemma scanBytes_frames:
  assumes "limit_ok m" and "list_all (\<lambda>p. length p \<le> m) ps"
  shows "scanBytes m (frames ps) = (of_nat (length ps), length (frames ps), False, None)"
  using scanLoop_frames [OF assms, of "length (frames ps)" None "[]" 0 0]
  by (simp add: scanBytes_def scanLoop_Nil)

lemma scanBytes_torn:
  assumes "limit_ok m" and "list_all (\<lambda>p. length p \<le> m) ps" and "length q \<le> m"
    and "frame q = t @ u" and "u \<noteq> []" and "t \<noteq> []"
  shows "scanBytes m (frames ps @ t) = (of_nat (length ps), length (frames ps), True, None)"
  using scanLoop_frames [OF assms(1,2), of "length (frames ps @ t)" None t 0 0]
    scanLoop_torn [OF assms(1,3-6)]
  by (simp add: scanBytes_def)

lemma scanLoop_cut:
  assumes "limit_ok m" and "list_all (\<lambda>p. length p \<le> m) ps" and "k \<le> length (frames ps)"
  shows "\<exists>j t. j \<le> length ps \<and> take k (frames ps) = frames (take j ps) @ t
     \<and> (if j < length ps then \<exists>u. u \<noteq> [] \<and> frame (ps ! j) = t @ u else t = [])
     \<and> scanLoop m (g + k) None (take k (frames ps)) c g
         = (c + of_nat j, g + length (frames (take j ps)), t \<noteq> [], None)"
proof -
  obtain j t where j: "j \<le> length ps" and e: "take k (frames ps) = frames (take j ps) @ t"
    and u: "if j < length ps then \<exists>u. u \<noteq> [] \<and> frame (ps ! j) = t @ u else t = []"
    using rec.cut_concat [of k ps] assms(3) unfolding frames_concat by blast
  have pre: "list_all (\<lambda>p. length p \<le> m) (take j ps)"
    using assms(2) by (auto simp: list_all_iff dest: in_set_takeD)
  have len: "k = length (frames (take j ps)) + length t"
    using e assms(3) by (metis length_append length_take min.absorb2)
  have "scanLoop m (g + k) None t (c + of_nat j) (g + length (frames (take j ps)))
      = (c + of_nat j, g + length (frames (take j ps)), t \<noteq> [], None)"
  proof (cases "t = []")
    case True
    then show ?thesis using len by (simp add: scanLoop_Nil)
  next
    case False
    with u obtain u' where q: "u' \<noteq> []" "frame (ps ! j) = t @ u'" and lt: "j < length ps"
      by (auto split: if_splits)
    then have "length (ps ! j) \<le> m" using assms(2) by (simp add: list_all_length)
    with scanLoop_torn [OF assms(1) this q(2,1) False] False show ?thesis by simp
  qed
  then have "scanLoop m (g + k) None (frames (take j ps) @ t) c g
      = (c + of_nat j, g + length (frames (take j ps)), t \<noteq> [], None)"
    using scanLoop_frames [OF assms(1) pre] j by simp
  with j e u show ?thesis by (intro exI [of _ j] exI [of _ t]) simp
qed

text \<open>C34. Torn tail: cut a segment file of intact records at any byte, and the scan reports exactly the
  records that are still whole, with \<^verbatim>\<open>truncated\<close> set just when a piece of another one is left,
  and never an error.\<close>

theorem scan_torn_tail:
  assumes "limit_ok m" and "list_all (\<lambda>p. length p \<le> m) ps" and "k \<le> length (frames ps)"
  shows "\<exists>j t. j \<le> length ps \<and> take k (frames ps) = frames (take j ps) @ t
     \<and> (if j < length ps then \<exists>u. u \<noteq> [] \<and> frame (ps ! j) = t @ u else t = [])
     \<and> scanBytes m (take k (frames ps)) = (of_nat j, length (frames (take j ps)), t \<noteq> [], None)"
  using scanLoop_cut [OF assms, of 0 0] assms(3) by (simp add: scanBytes_def min_absorb2)

theorem scan_torn_tail_witness:
  "\<exists>j t. j \<le> length [[1 :: byte], [2, 3]] \<and> take 12 (frames [[1], [2, 3]]) = frames (take j [[1], [2, 3]]) @ t
     \<and> (if j < length [[1 :: byte], [2, 3]] then \<exists>u. u \<noteq> [] \<and> frame ([[1], [2, 3]] ! j) = t @ u else t = [])
     \<and> scanBytes 10 (take 12 (frames [[1], [2, 3]]))
         = (of_nat j, length (frames (take j [[1], [2, 3]])), t \<noteq> [], None)"
proof (rule scan_torn_tail)
  show "limit_ok 10" by (simp add: limit_ok_def headerSize_def)
  show "12 \<le> length (frames [[1 :: byte], [2, 3]])" by (simp add: recordSize_def headerSize_def)
qed simp

text \<open>Soundness of the scan on any file whatever: if it ends without an error, or with
  \<^verbatim>\<open>ErrCorrupt\<close>, then the first \<open>good\<close> bytes of the file are \<open>count\<close> framed records, each within the
  limit, so neither truncating there nor salvaging there can keep anything but records.\<close>

theorem scan_sound:
  assumes "limit_ok m" and "scanBytes m b = (count, good, trunc, err)"
    and "case err of None \<Rightarrow> True | Some e \<Rightarrow> errors_is e ErrCorrupt"
  shows "\<exists>ps. take good b = frames ps \<and> good \<le> length b \<and> count = of_nat (length ps)
           \<and> list_all (\<lambda>p. length p \<le> m) ps"
proof -
  from scanLoop_sound [OF assms(1) assms(2) [unfolded scanBytes_def]] show ?thesis
  proof
    assume "count = 0 \<and> good = 0 \<and> \<not> trunc \<and> err \<noteq> None \<and>
      (err = None \<or> err = Some (Wrap ''record above MaxRecordBytes'' [ErrRecordTooLarge]))"
    with assms(3) have False by auto
    then show ?thesis ..
  qed auto
qed

theorem scan_sound_witness:
  "\<exists>ps. take 9 (frames [[1 :: byte]]) = frames ps \<and> 9 \<le> length (frames [[1 :: byte]])
      \<and> (1 :: u64) = of_nat (length ps) \<and> list_all (\<lambda>p. length p \<le> 4) ps"
proof (rule scan_sound [where trunc = False and err = None])
  show "limit_ok 4" by (simp add: limit_ok_def headerSize_def)
  then show "scanBytes 4 (frames [[1 :: byte]]) = (1, 9, False, None)"
    using scanBytes_frames [of 4 "[[1]]"] by (simp add: recordSize_def headerSize_def)
qed simp

text \<open>C35. One changed byte inside a segment is refused, not cut away: if a byte of a record's checksum or payload
  is changed, and anything is stored after the record, the scan stops with \<^verbatim>\<open>ErrCorrupt\<close>, with \<open>count\<close> and \<open>good\<close>
  describing exactly the intact records in front of the damage. (The four bytes of the length field are not covered: a
  changed length may reach beyond the end of the file, and is then taken for a torn tail.)\<close>

theorem scan_interior_damage:
  assumes "limit_ok m" and "list_all (\<lambda>p. length p \<le> m) ps" and "length q \<le> m" and "r \<noteq> []"
    and "4 \<le> i" and "i < length (frame q)" and "v \<noteq> frame q ! i"
  shows "scanBytes m (frames ps @ (frame q)[i := v] @ r)
     = (of_nat (length ps), length (frames ps), False, Some (Wrap ''record fails its checksum'' [ErrCorrupt]))"
proof -
  let ?d = "(frame q)[i := v]"
  from frame_one_byte [OF assms(5-7)] obtain c where
    "decodeHeader (take headerSize ?d) = (of_nat (length q), c)"
    "checksum (of_nat (length q)) (drop headerSize ?d) \<noteq> c" by blast
  from scanLoop_bad_checksum [OF assms(1,3) _ this]
    scanLoop_frames [OF assms(1,2), of "length (frames ps @ ?d @ r)" None "?d @ r" 0 0] assms(4)
  show ?thesis by (simp add: scanBytes_def)
qed

theorem scan_interior_damage_witness:
  "scanBytes 4 (frames [[1 :: byte]] @ (frame [2, 3])[9 := 5] @ frame [6])
     = (of_nat (length [[1 :: byte]]), length (frames [[1 :: byte]]), False,
        Some (Wrap ''record fails its checksum'' [ErrCorrupt]))"
proof (rule scan_interior_damage)
  show "limit_ok 4" by (simp add: limit_ok_def headerSize_def)
  show "(9 :: nat) < length (frame [2 :: byte, 3])" by (simp add: recordSize_def headerSize_def)
  show "(5 :: byte) \<noteq> frame [2, 3] ! 9" by (simp add: frame_def' putUint32_def)
qed simp_all

text \<open>Lowering \<^verbatim>\<open>MaxRecordBytes\<close> never deletes a record: where the next record of the file is longer
  than the limit and intact, the scan reports \<^verbatim>\<open>ErrRecordTooLarge\<close> instead of a torn tail.\<close>

theorem scan_oversize_refused:
  assumes "limit_ok m" and "list_all (\<lambda>p. length p \<le> m) ps" and "m < length q" and "length q < 2 ^ 32"
  shows "scanBytes m (frames ps @ frame q @ r)
     = (0, 0, False, Some (Wrap ''record above MaxRecordBytes'' [ErrRecordTooLarge]))"
  using scanLoop_oversize [of q m "length (frames ps)" "length (frames ps @ frame q @ r)"]
    scanLoop_frames [OF assms(1,2), of "length (frames ps @ frame q @ r)" None "frame q @ r" 0 0] assms(3,4)
  by (simp add: scanBytes_def frameable_def)

theorem scan_oversize_refused_witness:
  "scanBytes 1 (frames [[1 :: byte]] @ frame [2, 3] @ [])
     = (0, 0, False, Some (Wrap ''record above MaxRecordBytes'' [ErrRecordTooLarge]))"
  by (rule scan_oversize_refused) (simp_all add: limit_ok_def headerSize_def)

text \<open>Segment names round trip for every pair of numbers, and no two segments share a name.\<close>

theorem segment_name_roundtrip:
  "parseSegmentName (segmentName base prev) = Some (base, prev)
     \<and> (segmentName base prev = segmentName base' prev' \<longleftrightarrow> base = base' \<and> prev = prev')"
  by simp

end
