(* ===== verification/MetaFiles.thy ===== *)
theory MetaFiles
  imports Text Filesystem
begin

text \<open>
  The three small files beside the segments: \<^verbatim>\<open>CHECKPOINT\<close> (\<^verbatim>\<open>checkpoint.go\<close>),
  \<^verbatim>\<open>RESERVED\<close> (\<^verbatim>\<open>reservation.go\<close>) and \<^verbatim>\<open>LOGID\<close> (\<^verbatim>\<open>identity.go\<close>). All three are written the same
  way: into a temporary file that is synced, renamed into place and followed by a sync of the
  directory.

  The locale \<open>durable_cell\<close> states what that buys, for all three at once: a write that returns
  without an error is on the device; a write that fails at any call, which is also what a crash
  between two calls leaves behind, has either changed nothing under the name or replaced the
  contents whole.
\<close>

subsection \<open>Definitions\<close>

definition checkpointName :: string where
  "checkpointName = ''CHECKPOINT''"

definition reservedName :: string where
  "reservedName = ''RESERVED''"

definition identityName :: string where
  "identityName = ''LOGID''"

definition tmpName :: "string \<Rightarrow> string" where
  "tmpName name = name @ ''.tmp''"

text \<open>The sequence of calls the three writers share.\<close>

definition replaceFile :: "string \<Rightarrow> bytes \<Rightarrow> unit io" where
  "replaceFile name content =
     io_bind (open_trunc (tmpName name)) (\<lambda>f.
     io_bind (io_on_error (file_write f content) (file_close f)) (\<lambda>_.
     io_bind (io_on_error (file_sync f) (file_close f)) (\<lambda>_.
     io_bind (file_close f) (\<lambda>_.
     io_bind (rename_file (tmpName name) name) (\<lambda>_.
     syncDir)))))"

definition numberLine :: "u64 \<Rightarrow> bytes" where
  "numberLine v = bytesOf (formatUint v @ [CHR 0x0A])"

definition writeCheckpoint :: "u64 \<Rightarrow> unit io" where
  "writeCheckpoint lsn = replaceFile checkpointName (numberLine lsn)"

definition writeReserved :: "u64 \<Rightarrow> unit io" where
  "writeReserved lsn = replaceFile reservedName (numberLine lsn)"

definition writeIdentity :: "string \<Rightarrow> unit io" where
  "writeIdentity text = replaceFile identityName (bytesOf (text @ [CHR 0x0A]))"

text \<open>The two readers differ in the file and in the message of the parse error.\<close>

definition readNumber :: "string \<Rightarrow> string \<Rightarrow> u64 io" where
  "readNumber name msg w =
     (case read_file name w of
        (Inl e, w1) \<Rightarrow> if errors_is e (Errno ENOENT) then (Inr 0, w1) else (Inl e, w1)
      | (Inr b, w1) \<Rightarrow>
          (case parseUint (trimSpace (stringOf b)) of
             None \<Rightarrow> (Inl (Wrap msg [ErrText ''strconv.ParseUint'']), w1)
           | Some lsn \<Rightarrow> (Inr lsn, w1)))"

definition readCheckpoint :: "u64 io" where
  "readCheckpoint = readNumber checkpointName ''wal: malformed checkpoint''"

definition readReserved :: "u64 io" where
  "readReserved = readNumber reservedName ''wal: malformed reservation''"

text \<open>
  \<^verbatim>\<open>loadIdentity\<close>. \<open>text\<close> is what \<^verbatim>\<open>rand.Text()\<close> returns. The source tests runes with
  \<open>r <= ' ' || r > '~'\<close>; every byte of a rune outside ASCII is above \<open>'~'\<close> as well, so the test on
  bytes is the same.
\<close>

definition badIdentity :: "string \<Rightarrow> bool" where
  "badIdentity s \<longleftrightarrow> s = [] \<or> list_ex (\<lambda>c. (of_char c :: nat) \<le> 32 \<or> (of_char c :: nat) > 126) s"

definition makeIdentity :: "string \<Rightarrow> string io" where
  "makeIdentity text = io_bind (writeIdentity text) (\<lambda>_. io_return text)"

definition loadIdentity :: "bool \<Rightarrow> string \<Rightarrow> string io" where
  "loadIdentity fresh text w =
     (if fresh then makeIdentity text w
      else case read_file identityName w of
        (Inr b, w1) \<Rightarrow>
          (let s = trimSpace (stringOf b)
           in if badIdentity s then (Inl (ErrText ''wal: malformed log identity''), w1) else (Inr s, w1))
      | (Inl e, w1) \<Rightarrow> if errors_is e (Errno ENOENT) then makeIdentity text w1 else (Inl e, w1))"

subsection \<open>Replacing a file\<close>

lemma tmpName_neq [simp]: "tmpName name \<noteq> name" "name \<noteq> tmpName name"
  by (simp_all add: tmpName_def)

lemma is_tmp_tmpName [simp]: "is_tmp (tmpName name)"
  by (auto simp: tmpName_def is_tmp_def)

text \<open>The calls between opening the temporary file and renaming it touch that file only.\<close>

definition fillFile :: "nat \<Rightarrow> bytes \<Rightarrow> unit io" where
  "fillFile f content =
     io_bind (io_on_error (file_write f content) (file_close f)) (\<lambda>_.
     io_bind (io_on_error (file_sync f) (file_close f)) (\<lambda>_. file_close f))"

lemma replaceFile_fill: "replaceFile name content =
    io_bind (open_trunc (tmpName name)) (\<lambda>f. io_bind (fillFile f content) (\<lambda>_.
      io_bind (rename_file (tmpName name) name) (\<lambda>_. syncDir)))"
  by (simp add: replaceFile_def fillFile_def io_bind_assoc)

lemma fillFile_only: "only_ino f w (snd (fillFile f content w))"
  unfolding fillFile_def by (intro io_bind_only io_on_error_only calls_only)

lemma fillFile_ok:
  assumes "fillFile f content w = (Inr x, w')"
  shows "data w' f = data w f @ content \<and> stable w' f = data w f @ content"
  using assms unfolding fillFile_def
  by (auto simp: io_bind_Inr io_on_error_Inr dest!: file_write_ok file_sync_ok file_close_same)

text \<open>
  After the open: the temporary name refers to an inode \<open>i\<close> that no other name refers to, and
  everything else is as it was in \<open>w0\<close>.
\<close>

definition tmp_phase :: "string \<Rightarrow> fs \<Rightarrow> nat \<Rightarrow> fs \<Rightarrow> bool" where
  "tmp_phase name w0 i w \<longleftrightarrow> fs_ok w \<and> sdents w = sdents w0 \<and> subdirs w = subdirs w0
     \<and> nextIno w0 \<le> nextIno w \<and> map_of (dents w) = (map_of (dents w0))(tmpName name \<mapsto> i)
     \<and> (\<forall>j. j \<noteq> i \<longrightarrow> data w j = data w0 j \<and> stable w j = stable w0 j)
     \<and> (\<forall>q. q \<noteq> tmpName name \<longrightarrow> map_of (dents w0) q \<noteq> Some i \<and> map_of (sdents w0) q \<noteq> Some i)"

lemma open_trunc_phase:
  assumes ok: "fs_ok w" and r: "open_trunc (tmpName name) w = (Inr i, w')"
  shows "tmp_phase name w i w' \<and> data w' i = []"
proof (cases "lookup_name w (tmpName name)")
  case (Some j)
  then have ij: "i = j" and w': "w' = (pop_fault w)\<lparr>data := (data w)(i := [])\<rparr>"
    using r by (auto simp: open_trunc_def split: option.splits fault.splits)
  then have "only_ino i w w'" by (simp add: only_ino_def)
  moreover have "map_of (dents w) q \<noteq> Some i \<and> map_of (sdents w) q \<noteq> Some i"
    if "q \<noteq> tmpName name" for q
    using that Some ij fs_okD(4) [OF ok, of "tmpName name" i q] fs_okD(5) [OF ok, of "tmpName name" q i] by (auto simp: lookup_name_def)
  ultimately show ?thesis
    using Some ok ij w' only_ino_fs_ok [of i w w']
    by (auto simp: tmp_phase_def lookup_name_def fun_eq_iff)
next
  case None
  then have i: "i = nextIno w" and w': "w' = create_name (tmpName name) (pop_fault w)"
    using r by (auto simp: open_trunc_def split: option.splits fault.splits)
  have fresh: "map_of (dents w) q \<noteq> Some i" "map_of (sdents w) q \<noteq> Some i" for q
    using fs_okD(2,3) [OF ok] i by fastforce+
  have "fs_ok w'"
    using create_name_fs_ok [OF ok] None w' by (simp add: lookup_name_def)
  then show ?thesis
    using fresh i by (auto simp: tmp_phase_def w' create_name_def update_conv)
qed

lemma open_trunc_error:
  "open_trunc p w = (Inl e, w') \<Longrightarrow> w' = pop_fault w"
  by (auto simp: open_trunc_def split: option.splits fault.splits)

lemma tmp_phase_only: "tmp_phase name w0 i w \<Longrightarrow> only_ino i w w' \<Longrightarrow> tmp_phase name w0 i w'"
  using only_ino_fs_ok [of i w w'] by (auto simp: tmp_phase_def only_ino_def)

text \<open>What replacing \<open>name\<close> does to every other file: nothing to its contents, and to its directory
  entry at most what a sync of the directory does.\<close>

definition meta_frame :: "string \<Rightarrow> fs \<Rightarrow> fs \<Rightarrow> bool" where
  "meta_frame name w w' \<longleftrightarrow> fs_ok w' \<and> subdirs w' = subdirs w \<and> nextIno w \<le> nextIno w'
     \<and> (\<forall>q. q \<noteq> name \<and> q \<noteq> tmpName name \<longrightarrow> map_of (dents w') q = map_of (dents w) q
          \<and> (map_of (sdents w') q = map_of (sdents w) q \<or> map_of (sdents w') q = map_of (dents w) q))
     \<and> (\<forall>q j. q \<noteq> tmpName name \<and> (map_of (dents w) q = Some j \<or> map_of (sdents w) q = Some j)
          \<longrightarrow> data w' j = data w j \<and> stable w' j = stable w j)"

lemma meta_frame_data:
  "meta_frame name w w' \<Longrightarrow> q \<noteq> tmpName name \<Longrightarrow>
   map_of (dents w) q = Some j \<or> map_of (sdents w) q = Some j \<Longrightarrow>
   data w' j = data w j \<and> stable w' j = stable w j"
  unfolding meta_frame_def by blast

lemma meta_frame_names:
  "meta_frame name w w' \<Longrightarrow> q \<noteq> name \<Longrightarrow> q \<noteq> tmpName name \<Longrightarrow>
   map_of (dents w') q = map_of (dents w) q
   \<and> (map_of (sdents w') q = map_of (sdents w) q \<or> map_of (sdents w') q = map_of (dents w) q)"
  unfolding meta_frame_def by blast

text \<open>The entry of \<open>name\<close>: as before, or pointing at the new contents, written and synced.\<close>

definition swapped :: "string \<Rightarrow> bytes \<Rightarrow> fs \<Rightarrow> fs \<Rightarrow> bool" where
  "swapped name content w w' \<longleftrightarrow> (\<exists>i. map_of (dents w') name = Some i
     \<and> data w' i = content \<and> stable w' i = content)"

lemma not_is_meta_tmp [simp]: "\<not> is_meta (tmpName name)"
proof -
  have "last (tmpName name) = CHR ''p''" by (simp add: tmpName_def)
  then show ?thesis by (auto simp: is_meta_def)
qed

lemma tmp_phase_frame:
  assumes "tmp_phase name w0 i w" and "map_of (dents w0) name = d"
  shows "meta_frame name w0 w \<and> map_of (dents w) name = d \<and> sdents w = sdents w0"
  using assms by (auto simp: tmp_phase_def meta_frame_def)

lemma rename_phase:
  assumes ph: "tmp_phase name w0 i w" and tmp: "\<not> is_tmp name"
    and full: "data w i = content" "stable w i = content"
    and r: "rename_file (tmpName name) name w = (Inr x, w')"
  shows "fs_ok w' \<and> map_of (dents w') = (map_of (dents w0))(tmpName name := None, name \<mapsto> i)
     \<and> sdents w' = sdents w0 \<and> swapped name content w w' \<and> meta_frame name w0 w'"
proof -
  have m: "map_of (dents w) = (map_of (dents w0))(tmpName name \<mapsto> i)"
    using ph by (simp add: tmp_phase_def)
  have c: "data w' = data w" "stable w' = stable w" "sdents w' = sdents w" "nextIno w' = nextIno w"
      "subdirs w' = subdirs w" and d: "dents w' = AList.update name i (AList.delete (tmpName name) (dents w))"
    using rename_file_cases [OF r] m by auto
  have ok: "fs_ok w'"
    using rename_file_fs_ok [OF _ r tmp not_is_meta_tmp] ph by (simp add: tmp_phase_def)
  have d': "map_of (dents w') = (map_of (dents w0))(tmpName name := None, name \<mapsto> i)"
    by (simp add: d update_conv' delete_conv' m)
  then show ?thesis
    using ph ok c full by (auto simp: swapped_def meta_frame_def tmp_phase_def)
qed

text \<open>The outcome of \<open>replaceFile\<close>, whatever fails.\<close>

lemma replaceFile_outcome:
  assumes ok: "fs_ok w" and tmp: "\<not> is_tmp name" and r: "replaceFile name content w = (res, w')"
  shows "meta_frame name w w'
     \<and> (map_of (dents w') name = map_of (dents w) name \<or> swapped name content w w')
     \<and> (map_of (sdents w') name = map_of (sdents w) name
         \<or> map_of (sdents w') name = map_of (dents w') name \<and> swapped name content w w')
     \<and> (case res of Inl _ \<Rightarrow> True
         | Inr _ \<Rightarrow> swapped name content w w' \<and> map_of (sdents w') name = map_of (dents w') name)"
proof (cases "open_trunc (tmpName name) w")
  case (Pair ro w1)
  show ?thesis
  proof (cases ro)
    case (Inl e)
    then have "w' = pop_fault w" and "res = Inl e"
      using r Pair open_trunc_error by (auto simp: replaceFile_fill io_bind_def)
    then show ?thesis using ok only_ino_fs_ok [of 0 w "pop_fault w"]
      by (auto simp: meta_frame_def)
  next
    case (Inr f)
    then have ph1: "tmp_phase name w f w1" and empty: "data w1 f = []"
      using open_trunc_phase [OF ok] Pair by auto
    obtain rf w2 where fill: "fillFile f content w1 = (rf, w2)" by fastforce
    with fillFile_only [of f w1 content] have ph2: "tmp_phase name w f w2"
      using tmp_phase_only [OF ph1] by simp
    obtain rr w3 where ren: "rename_file (tmpName name) name w2 = (rr, w3)" by fastforce
    consider (fill_failed) e where "rf = Inl e" | (ren_failed) e where "rf = Inr ()" "rr = Inl e"
      | (renamed) "rf = Inr ()" "rr = Inr ()"
      by (cases rf; cases rr) auto
    then show ?thesis
    proof cases
      case fill_failed
      then have "w' = w2" "res = Inl e"
        using r Pair Inr fill by (auto simp: replaceFile_fill io_bind_def)
      then show ?thesis using tmp_phase_frame [OF ph2 refl] by auto
    next
      case ren_failed
      then have "w' = w3" "res = Inl e"
        using r Pair Inr fill ren by (auto simp: replaceFile_fill io_bind_def)
      moreover have "only_ino f w2 w3"
        using rename_file_cases [OF ren] ren_failed by (simp add: only_ino_def)
      ultimately show ?thesis
        using tmp_phase_frame [OF tmp_phase_only [OF ph2] refl, of w3] by auto
    next
      case renamed
      have full: "data w2 f = content" "stable w2 f = content"
        using fillFile_ok [of f content w1] fill renamed empty by auto
      note rn = rename_phase [OF ph2 tmp full, of "()" w3]
      have s: "syncDir w3 = (res, w')"
        using r Pair Inr fill ren renamed by (auto simp: replaceFile_fill io_bind_def)
      note sc = syncDir_cases [OF s]
      have "fs_ok w'" using syncDir_fs_ok [OF _ s] rn ren renamed by simp
      then show ?thesis
        using rn ren renamed sc
        by (auto simp: meta_frame_def swapped_def split: sum.splits)
    qed
  qed
qed

subsection \<open>The contract of the metadata files\<close>

locale durable_cell =
  fixes name :: string
    and enc :: "'v \<Rightarrow> bytes"
    and valid :: "'v \<Rightarrow> bool"
    and wr :: "'v \<Rightarrow> unit io"
    and rd :: "'v io"
  assumes not_tmp: "\<not> is_tmp name"
    and wr_replaces: "wr v = replaceFile name (enc v)"
    and rd_enc: "valid v \<Longrightarrow> faults w = [] \<Longrightarrow> file_at w name = Some (enc v) \<Longrightarrow> fst (rd w) = Inr v"
    and rd_only_name: "faults w = [] \<Longrightarrow> faults w' = [] \<Longrightarrow> file_at w name = file_at w' name
      \<Longrightarrow> fst (rd w) = fst (rd w')"
begin

lemma write_frame: "fs_ok w \<Longrightarrow> wr v w = (res, w') \<Longrightarrow> meta_frame name w w'"
  using replaceFile_outcome [OF _ not_tmp] by (simp add: wr_replaces)

lemma write_old_or_new:
  assumes "fs_ok w" and "wr v w = (res, w')"
  shows "(file_at w' name = file_at w name \<or> file_at w' name = Some (enc v))
       \<and> (stable_at w' name = stable_at w name \<or> stable_at w' name = Some (enc v))"
proof -
  note out = replaceFile_outcome [OF assms(1) not_tmp assms(2) [unfolded wr_replaces]]
  have mf: "data w' j = data w j \<and> stable w' j = stable w j"
    if "map_of (dents w) name = Some j \<or> map_of (sdents w) name = Some j" for j
    using out that meta_frame_data [of name w w' name j] by simp
  have "map_option (data w') (map_of (dents w) name) = map_option (data w) (map_of (dents w) name)"
    and "map_option (stable w') (map_of (sdents w) name) = map_option (stable w) (map_of (sdents w) name)"
    using mf by (cases "map_of (dents w) name"; cases "map_of (sdents w) name"; simp)+
  then show ?thesis
    using out by (auto simp: file_at_def stable_at_def lookup_name_def swapped_def)
qed

lemma write_ok_durable:
  assumes "fs_ok w" and "wr v w = (Inr u, w')"
  shows "file_at w' name = Some (enc v) \<and> stable_at w' name = Some (enc v)"
  using replaceFile_outcome [OF assms(1) not_tmp assms(2) [unfolded wr_replaces]]
  by (auto simp: file_at_def stable_at_def lookup_name_def swapped_def)

text \<open>After any outcome, the next process reads the old value or the new one.\<close>

lemma crash_old_or_new:
  assumes "fs_ok w" and "valid v" and "wr v w = (res, w')"
  shows "fst (rd (after_kill w')) \<in> {fst (rd (after_kill w)), Inr v}
       \<and> fst (rd (after_power_loss w')) \<in> {fst (rd (after_power_loss w)), Inr v}"
proof -
  have seen: "fst (rd x') \<in> {fst (rd x), Inr v}"
    if "faults x = []" "faults x' = []" "file_at x' name = file_at x name \<or> file_at x' name = Some (enc v)" for x x'
    using that rd_enc [OF assms(2), of x'] rd_only_name [of x x'] by auto
  show ?thesis
    using write_old_or_new [OF assms(1,3)] by (intro conjI seen) simp_all
qed

lemma crash_after_ok:
  assumes "fs_ok w" and "valid v" and "wr v w = (Inr u, w')"
  shows "fst (rd (after_kill w')) = Inr v \<and> fst (rd (after_power_loss w')) = Inr v"
  using write_ok_durable [OF assms(1,3)] rd_enc [OF assms(2)] by simp

end

lemma not_is_tmp_names [simp]:
  "\<not> is_tmp checkpointName" "\<not> is_tmp reservedName" "\<not> is_tmp identityName"
  by (auto simp: is_tmp_def checkpointName_def reservedName_def identityName_def append_eq_Cons_conv
      Cons_eq_append_conv)

lemma readNumber_calm:
  "faults w = [] \<Longrightarrow> readNumber name msg w = (case file_at w name of None \<Rightarrow> (Inr 0, w)
     | Some b \<Rightarrow> (case parseUint (trimSpace (stringOf b)) of
          None \<Rightarrow> (Inl (Wrap msg [ErrText ''strconv.ParseUint'']), w) | Some v \<Rightarrow> (Inr v, w)))"
  by (auto simp: readNumber_def read_file_calm split: option.splits)

lemma parse_numberLine [simp]: "parseUint (trimSpace (stringOf (numberLine v))) = Some v"
  by (simp add: numberLine_def del: append_assoc)

interpretation cp: durable_cell checkpointName numberLine "\<lambda>_. True" writeCheckpoint readCheckpoint
  by unfold_locales (auto simp: writeCheckpoint_def readCheckpoint_def readNumber_calm split: option.splits)

interpretation rsv: durable_cell reservedName numberLine "\<lambda>_. True" writeReserved readReserved
  by unfold_locales (auto simp: writeReserved_def readReserved_def readNumber_calm split: option.splits)

text \<open>What \<^verbatim>\<open>rand.Text()\<close> documents: a non-empty string of characters of the base-32 alphabet,
  all of them visible.\<close>

definition visible :: "string \<Rightarrow> bool" where
  "visible s \<longleftrightarrow> s \<noteq> [] \<and> list_all plainChar s"

lemma visible_trim: "visible s \<Longrightarrow> trimSpace (s @ [CHR 0x0A]) = s"
  by (intro trimSpace_newline) (auto simp: visible_def list_all_iff)

lemma visible_not_bad: "visible s \<Longrightarrow> \<not> badIdentity s"
  by (auto simp: visible_def badIdentity_def list_all_iff list_ex_iff plainChar_def Let_def)

interpretation ident: durable_cell identityName "\<lambda>s. bytesOf (s @ [CHR 0x0A])" visible writeIdentity
    "\<lambda>w. case file_at w identityName of None \<Rightarrow> (Inl (Errno ENOENT), w) | Some _ \<Rightarrow> loadIdentity False [] w"
  by unfold_locales
    (auto simp: writeIdentity_def loadIdentity_def read_file_calm visible_trim visible_not_bad Let_def
      split: option.splits)

subsection \<open>Properties\<close>

text \<open>C36. A checkpoint that \<^verbatim>\<open>WriteCheckpoint\<close> reported as written is what the next process reads, after a
  kill and after a power loss; and if the write failed at any of its calls, the next process reads
  that value or what it would have read before, never a partial one.\<close>

theorem checkpoint_atomic:
  assumes "fs_ok w" and "writeCheckpoint lsn w = (res, w')"
  shows "fst (readCheckpoint (after_kill w')) \<in> {fst (readCheckpoint (after_kill w)), Inr lsn}
       \<and> fst (readCheckpoint (after_power_loss w')) \<in> {fst (readCheckpoint (after_power_loss w)), Inr lsn}
       \<and> (case res of Inl _ \<Rightarrow> True
          | Inr _ \<Rightarrow> fst (readCheckpoint (after_kill w')) = Inr lsn
              \<and> fst (readCheckpoint (after_power_loss w')) = Inr lsn)"
  using cp.crash_old_or_new [OF assms(1) _ assms(2)] cp.crash_after_ok [OF assms(1), of lsn _ w'] assms(2)
  by (auto split: sum.splits)

definition empty_fs :: fs where
  "empty_fs = \<lparr>dents = [], sdents = [], subdirs = [], data = (\<lambda>_. []), stable = (\<lambda>_. []),
     nextIno = 0, faults = []\<rparr>"

lemma empty_fs_ok [simp]: "fs_ok (empty_fs\<lparr>faults := fl\<rparr>)"
  by (simp add: empty_fs_def fs_ok_def)

theorem checkpoint_atomic_witness:
  "fst (writeCheckpoint 42 (empty_fs\<lparr>faults := [None, None, None, None, Some (Fault EIO 0)]\<rparr>)) = Inl (Errno EIO)
   \<and> fst (readCheckpoint (after_kill (snd (writeCheckpoint 42
          (empty_fs\<lparr>faults := [None, None, None, None, Some (Fault EIO 0)]\<rparr>))))) \<in> {Inr 0, Inr 42}"
proof -
  let ?w = "empty_fs\<lparr>faults := [None, None, None, None, Some (Fault EIO 0)]\<rparr>"
  have 1: "fst (writeCheckpoint 42 ?w) = Inl (Errno EIO)"
    by (simp add: writeCheckpoint_def replaceFile_def io_bind_def io_on_error_def call_defs
        next_fault_def pop_fault_def empty_fs_def)
  have 2: "fst (readCheckpoint (after_kill ?w)) = Inr 0"
    by (simp add: readCheckpoint_def readNumber_calm file_at_def lookup_name_def empty_fs_def after_kill_def)
  have "writeCheckpoint 42 ?w = (fst (writeCheckpoint 42 ?w), snd (writeCheckpoint 42 ?w))"
    by simp
  from checkpoint_atomic [OF empty_fs_ok this] 1 2 show ?thesis by simp
qed

text \<open>The log identity survives: the identity an open returned is what every later open of a log that
  is not fresh returns, after a kill and, when it was made by this open, after a power loss; and a
  fresh log never keeps a stale one.\<close>

theorem identity_persists:
  assumes "fs_ok w" and "visible text" and "loadIdentity fresh text w = (Inr i, w')"
  shows "fst (loadIdentity False text' (after_kill w')) = Inr i
       \<and> (fresh \<longrightarrow> i = text \<and> fst (loadIdentity False text' (after_power_loss w')) = Inr i)"
proof (cases "fresh \<or> (\<exists>e w1. read_file identityName w = (Inl e, w1))")
  case True
  then obtain w0 where w0: "fs_ok w0" "makeIdentity text w0 = (Inr i, w')"
  proof (cases fresh)
    case True
    then show ?thesis using assms that by (simp add: loadIdentity_def)
  next
    case False
    with True obtain e w1 where r: "read_file identityName w = (Inl e, w1)" by blast
    then have "only_ino 0 w w1"
      using read_file_only [of 0 w identityName] by simp
    then have "fs_ok w1" using assms(1) only_ino_fs_ok by blast
    then show ?thesis using assms(3) False r that by (auto simp: loadIdentity_def split: if_splits)
  qed
  then have i: "i = text" and wr: "writeIdentity text w0 = (Inr (), w')"
    by (auto simp: makeIdentity_def io_bind_Inr)
  have "fst (loadIdentity False text' x) = Inr text"
    if "faults x = []" "file_at x identityName = Some (bytesOf (text @ [CHR 0x0A]))" for x
    using that visible_trim [OF assms(2)] visible_not_bad [OF assms(2)]
    by (simp add: loadIdentity_def read_file_calm del: append_assoc)
  with ident.write_ok_durable [OF w0(1) wr] i show ?thesis by simp
next
  case False
  then obtain b w1 where "\<not> fresh" and r: "read_file identityName w = (Inr b, w1)"
    by (cases "read_file identityName w"; cases "fst (read_file identityName w)") auto
  then have "w' = w1" and i: "i = trimSpace (stringOf b)" "\<not> badIdentity i"
    using assms(3) by (auto simp: loadIdentity_def Let_def split: if_splits)
  moreover have "file_at w1 identityName = Some b"
    using r by (rule read_file_ok)
  ultimately show ?thesis
    using \<open>\<not> fresh\<close> by (simp add: loadIdentity_def read_file_calm)
qed

theorem identity_persists_witness:
  "fst (loadIdentity True ''Q3'' empty_fs) = Inr ''Q3''
   \<and> fst (loadIdentity False ''ZZ'' (after_power_loss (snd (loadIdentity True ''Q3'' empty_fs)))) = Inr ''Q3''"
proof -
  have ok: "fs_ok empty_fs" using empty_fs_ok [of "[]"] by (simp add: empty_fs_def)
  have v: "visible ''Q3''" by code_simp
  have r: "fst (loadIdentity True ''Q3'' empty_fs) = Inr ''Q3''"
    by (simp add: loadIdentity_def makeIdentity_def writeIdentity_def replaceFile_def io_bind_def
        io_on_error_def call_defs syncDir_def empty_fs_def)
  then have "loadIdentity True ''Q3'' empty_fs = (Inr ''Q3'', snd (loadIdentity True ''Q3'' empty_fs))"
    by (metis prod.collapse)
  from identity_persists [OF ok v this, of "''ZZ''"] r show ?thesis by simp
qed

end
