(* ===== verification/Wal.thy ===== *)
theory Wal
  imports Segment MetaFiles
begin

text \<open>
  The log itself, \<^verbatim>\<open>internal/wal/wal.go\<close>: staging, group commit with rollback, rotation, truncation and
  shutdown.

  The \<^verbatim>\<open>Log\<close> struct is the record \<open>log\<close>. Its operations take the log and the file system and return
  both. \<^verbatim>\<open>commit\<close>, which
  releases the lock while it writes, is cut into three parts that other goroutines can come
  between: \<open>commitTake\<close>, \<open>commitWrite\<close> and \<open>commitSettle\<close>. Two operations are coarser than the locking of the code: \<open>commitWrite\<close> takes the lock several times around
  its file operations (to swap the segment in, to count the bytes, to roll back), and \<open>truncateLog\<close> removes files between its two critical sections;
  each is one operation here. Only the committer writes segments and only one goroutine truncates, so that the parts of one such
  operation interleave in the code with staging, readers and the other of the two. A \<^verbatim>\<open>round\<close> is a number, and the
  table \<open>rounds\<close> holds what has been decided about it. \<^verbatim>\<open>l.active\<close> is always the last element of
  \<^verbatim>\<open>l.segs\<close> and is read from there; the \<^verbatim>\<open>spare\<close> buffer only saves an allocation and has no field.
\<close>

subsection \<open>Options\<close>

datatype syncMode = SyncPeriodic | SyncAlways | SyncNever

record options =
  SyncMode :: syncMode
  SyncInterval :: duration
  MaxSegmentBytes :: int
  MaxRecordBytes :: int
  CommitBytes :: int
  SalvageSet :: bool

text \<open>Durations are nanoseconds.\<close>

definition millisecond :: duration where
  "millisecond = 1000000"

definition withDefaults :: "options \<Rightarrow> options" where
  "withDefaults o0 =
     (let o1 = (if SyncInterval o0 \<le> 0 then o0\<lparr>SyncInterval := 5 * millisecond\<rparr> else o0);
          o2 = (if MaxSegmentBytes o1 \<le> 0 then o1\<lparr>MaxSegmentBytes := 64 * 2 ^ 20\<rparr> else o1);
          o3 = (if MaxRecordBytes o2 \<le> 0 then o2\<lparr>MaxRecordBytes := 4 * 2 ^ 20\<rparr> else o2);
          o4 = (if CommitBytes o3 \<le> 0 then o3\<lparr>CommitBytes := 2 ^ 20\<rparr> else o3)
      in o4)"

definition MaxRecordLimit :: int where
  "MaxRecordLimit = 2 ^ 32 - 1 - int headerSize"

definition reserveBlock :: u64 where
  "reserveBlock = 2 ^ 20"

subsection \<open>State\<close>

text \<open>\<open>rounds\<close>: \<open>None\<close> while the round is undecided, \<open>Some err\<close> once its \<^verbatim>\<open>done\<close> channel is closed.\<close>

record log =
  opts :: options
  lockFile :: nat
  segs :: "segment list"
  nextLSN :: u64
  firstLSN :: u64
  reserved :: u64
  logID :: string
  pending :: bytes
  pendingMin :: u64
  pendingMax :: u64
  durable :: u64
  closed :: bool
  cur :: nat
  inflight :: "nat option"
  rounds :: "nat \<Rightarrow> error option option"
  nextRound :: nat
  failErr :: "error option"
  broken :: bool
  closeErr :: "error option"
  signalled :: bool

abbreviation maxRecord :: "log \<Rightarrow> nat" where
  "maxRecord l \<equiv> nat (MaxRecordBytes (opts l))"

definition active :: "log \<Rightarrow> segment" where
  "active l = last (segs l)"

definition set_active :: "segment \<Rightarrow> log \<Rightarrow> log" where
  "set_active s l = l\<lparr>segs := butlast (segs l) @ [s]\<rparr>"

definition newRound :: "log \<Rightarrow> log" where
  "newRound l = l\<lparr>cur := nextRound l, rounds := (rounds l)(nextRound l := None),
     nextRound := Suc (nextRound l)\<rparr>"

definition resolve :: "nat \<Rightarrow> error option \<Rightarrow> log \<Rightarrow> log" where
  "resolve r err l = l\<lparr>rounds := (rounds l)(r := Some err)\<rparr>"

text \<open>A call on a segment's file handle, which may be nil or already closed.\<close>

definition on_handle :: "segment \<Rightarrow> (nat \<Rightarrow> 'a io) \<Rightarrow> 'a io" where
  "on_handle s call w = (case segFile s of
      None \<Rightarrow> (Inl (ErrText ''invalid argument''), w)
    | Some i \<Rightarrow> if segShut s then (Inl (ErrText ''file already closed''), w) else call i w)"

subsection \<open>Staging\<close>

definition stage :: "(bytes \<Rightarrow> bytes) \<Rightarrow> u64 \<Rightarrow> log \<Rightarrow> fs \<Rightarrow> (error + u64 \<times> nat \<times> bool) \<times> log \<times> fs" where
  "stage encode n l w =
     (if closed l then (Inl ErrClosed, l, w)
      else if broken l then (Inl (the (failErr l)), l, w)
      else
        let lst = nextLSN l + n - 1;
            want = max lst (nextLSN l + reserveBlock - 1);
            (rerr, l1, w1) =
              (if lst > reserved l then
                 (case writeReserved want w of
                    (Inl e, w1) \<Rightarrow> (Some (Wrap ''wal: reserve LSNs'' [e]), l, w1)
                  | (Inr _, w1) \<Rightarrow> (None, l\<lparr>reserved := want\<rparr>, w1))
               else (None, l, w))
        in case rerr of
             Some e \<Rightarrow> (Inl e, l1, w1)
           | None \<Rightarrow>
               let first = nextLSN l1;
                   l2 = (if pending l1 = [] then l1\<lparr>pendingMin := first\<rparr> else l1);
                   l3 = l2\<lparr>pending := encode (pending l2), nextLSN := nextLSN l2 + n,
                           pendingMax := first + n - 1\<rparr>;
                   force = (SyncMode (opts l3) \<noteq> SyncPeriodic
                            \<or> int (length (pending l3)) \<ge> CommitBytes (opts l3))
               in (Inr (first, cur l3, force), l3, w1))"

definition signalCommit :: "log \<Rightarrow> log" where
  "signalCommit l = l\<lparr>signalled := True\<rparr>"

definition hasPending :: "log \<Rightarrow> bool" where
  "hasPending l \<longleftrightarrow> length (pending l) > 0"

text \<open>A \<^verbatim>\<open>Commit\<close>: the numbers of the records and the round they were staged into.\<close>

record commit_handle =
  First :: u64
  Last :: u64
  Round :: "nat option"

definition noCommit :: commit_handle where
  "noCommit = \<lparr>First = 0, Last = 0, Round = None\<rparr>"

definition appendBatchAsync :: "bytes list \<Rightarrow> log \<Rightarrow> fs \<Rightarrow> (error + commit_handle) \<times> log \<times> fs" where
  "appendBatchAsync payloads l w =
     (if payloads = [] then (Inr noCommit, l, w)
      else if list_ex (\<lambda>p. int (length p) > MaxRecordBytes (opts l)) payloads
        then (Inl ErrRecordTooLarge, l, w)
      else
        case stage (\<lambda>dst. foldl appendRecord dst payloads) (of_nat (length payloads)) l w of
          (Inl e, l1, w1) \<Rightarrow> (Inl e, l1, w1)
        | (Inr (first, r, force), l1, w1) \<Rightarrow>
            (Inr \<lparr>First = first, Last = first + of_nat (length payloads) - 1, Round = Some r\<rparr>,
             if force then signalCommit l1 else l1, w1))"

text \<open>
  Waiting. \<open>ctxErr\<close> is the error of the context once it is cancelled; when the round is decided and
  the context is cancelled too, \<^verbatim>\<open>select\<close> takes either case, and \<open>takeCtx\<close> says which. The result is
  \<open>None\<close> while the call blocks.
\<close>

definition logWait :: "nat option \<Rightarrow> error option \<Rightarrow> bool \<Rightarrow> log \<Rightarrow> error option option" where
  "logWait r ctxErr takeCtx l = (case r of
      None \<Rightarrow> Some None
    | Some r \<Rightarrow> (case (rounds l r, ctxErr) of
         (None, None) \<Rightarrow> None
       | (Some err, None) \<Rightarrow> Some err
       | (None, Some ce) \<Rightarrow> Some (Some (Wrap ''wait'' [ErrPending, ce]))
       | (Some err, Some ce) \<Rightarrow> Some (if takeCtx then Some (Wrap ''wait'' [ErrPending, ce]) else err)))"

definition await :: "commit_handle \<Rightarrow> error option \<Rightarrow> bool \<Rightarrow> log \<Rightarrow> error option option" where
  "await c ctxErr takeCtx l = logWait (Round c) ctxErr takeCtx l"

text \<open>
  The calls that stage and then wait. \<open>env\<close> is what the other goroutines, the committer among them,
  do to the log and the disk before the wait ends.
\<close>

type_synonym env = "log \<Rightarrow> fs \<Rightarrow> log \<times> fs"

definition logAppend :: "env \<Rightarrow> error option \<Rightarrow> bool \<Rightarrow> bytes \<Rightarrow> log \<Rightarrow> fs \<Rightarrow> (u64 \<times> error option option) \<times> log \<times> fs" where
  "logAppend env ctxErr takeCtx payload l w =
     (if int (length payload) > MaxRecordBytes (opts l) then ((0, Some (Some ErrRecordTooLarge)), l, w)
      else case stage (\<lambda>dst. appendRecord dst payload) 1 l w of
          (Inl e, l1, w1) \<Rightarrow> ((0, Some (Some e)), l1, w1)
        | (Inr (first, r, force), l1, w1) \<Rightarrow>
            (case env (if force then signalCommit l1 else l1) w1 of
               (l2, w2) \<Rightarrow> ((first, logWait (Some r) ctxErr takeCtx l2), l2, w2)))"

definition appendBatch :: "env \<Rightarrow> error option \<Rightarrow> bool \<Rightarrow> bytes list \<Rightarrow> log \<Rightarrow> fs \<Rightarrow> (u64 \<times> error option option) \<times> log \<times> fs" where
  "appendBatch env ctxErr takeCtx payloads l w =
     (if payloads = [] then ((0, Some None), l, w)
      else case appendBatchAsync payloads l w of
          (Inl e, l1, w1) \<Rightarrow> ((0, Some (Some e)), l1, w1)
        | (Inr c, l1, w1) \<Rightarrow> (case env l1 w1 of
               (l2, w2) \<Rightarrow> ((First c, await c ctxErr takeCtx l2), l2, w2)))"

definition syncLog :: "env \<Rightarrow> error option \<Rightarrow> bool \<Rightarrow> log \<Rightarrow> fs \<Rightarrow> error option option \<times> log \<times> fs" where
  "syncLog env ctxErr takeCtx l w =
     (let r = (if length (pending l) > 0 then Some (cur l) else inflight l)
      in case env (signalCommit l) w of (l1, w1) \<Rightarrow> (logWait r ctxErr takeCtx l1, l1, w1))"

subsection \<open>Commit rounds\<close>

text \<open>The rotation at the start of \<^verbatim>\<open>writeBatch\<close>.\<close>

definition rotateSegment :: "u64 \<Rightarrow> log \<Rightarrow> fs \<Rightarrow> error option \<times> log \<times> fs" where
  "rotateSegment first l w =
     (case createSegment first (first - 1) w of
        (Inl e, w1) \<Rightarrow> (Some e, l, w1)
      | (Inr next, w1) \<Rightarrow>
          (case on_handle (active l) file_sync w1 of
             (Inl e, w2) \<Rightarrow> (Some e, l, snd (discard next w2))
           | (Inr _, w2) \<Rightarrow>
               (case on_handle (active l) file_close w2 of
                  (Inl e, w3) \<Rightarrow> (Some e, set_active ((active l)\<lparr>segShut := True\<rparr>) l, snd (discard next w3))
                | (Inr _, w3) \<Rightarrow>
                    (None, l\<lparr>segs := butlast (segs l) @ [(active l)\<lparr>segFile := None\<rparr>, next]\<rparr>, w3))))"

text \<open>The append at the end of \<^verbatim>\<open>writeBatch\<close>: size and count are published last.\<close>

definition appendRound :: "bytes \<Rightarrow> u64 \<Rightarrow> log \<Rightarrow> fs \<Rightarrow> error option \<times> log \<times> fs" where
  "appendRound buf n l1 w1 =
     (case on_handle (active l1) (\<lambda>i. file_write i buf) w1 of
        (Inl e, w2) \<Rightarrow> (Some e, l1, w2)
      | (Inr _, w2) \<Rightarrow>
          (case (if SyncMode (opts l1) \<noteq> SyncNever then on_handle (active l1) file_sync w2
                 else (Inr (), w2)) of
             (Inl e, w3) \<Rightarrow> (Some e, l1, w3)
           | (Inr _, w3) \<Rightarrow>
               (None, set_active ((active l1)\<lparr>segSize := segSize (active l1) + length buf,
                                              segCount := segCount (active l1) + n\<rparr>) l1, w3)))"

definition writeBatch :: "bytes \<Rightarrow> u64 \<Rightarrow> u64 \<Rightarrow> log \<Rightarrow> fs \<Rightarrow> error option \<times> log \<times> fs" where
  "writeBatch buf first n l w =
     (let full = (segSize (active l) > 0
                  \<and> int (segSize (active l)) + int (length buf) > MaxSegmentBytes (opts l))
      in case (if full then rotateSegment first l w else (None, l, w)) of
           (Some e, l1, w1) \<Rightarrow> (Some e, l1, w1)
         | (None, l1, w1) \<Rightarrow> appendRound buf n l1 w1)"

definition rollback :: "log \<Rightarrow> fs \<Rightarrow> error option \<times> fs" where
  "rollback l w =
     (if segFile (active l) = None then (None, w)
      else case on_handle (active l) (\<lambda>i. file_truncate i (segSize (active l))) w of
          (Inl e, w1) \<Rightarrow> (Some e, w1)
        | (Inr _, w1) \<Rightarrow> (case on_handle (active l) file_sync w1 of
             (Inl e, w2) \<Rightarrow> (Some e, w2)
           | (Inr _, w2) \<Rightarrow> (None, w2)))"

text \<open>What a round carries between the parts of \<^verbatim>\<open>commit\<close>.\<close>

record job =
  jbuf :: bytes
  jfirst :: u64
  jlast :: u64
  jround :: nat

definition commitTake :: "log \<Rightarrow> (job \<times> log) option" where
  "commitTake l =
     (if length (pending l) = 0 \<or> broken l then None
      else
        let r = cur l;
            l1 = (newRound l)\<lparr>inflight := Some r, pending := [], pendingMin := 0, pendingMax := 0\<rparr>
        in Some (\<lparr>jbuf = pending l, jfirst = pendingMin l, jlast = pendingMax l, jround = r\<rparr>, l1))"

definition commitWrite :: "job \<Rightarrow> log \<Rightarrow> fs \<Rightarrow> (error option \<times> error option) \<times> log \<times> fs" where
  "commitWrite j l w =
     (case writeBatch (jbuf j) (jfirst j) (jlast j - jfirst j + 1) l w of
        (None, l1, w1) \<Rightarrow> ((None, None), l1, w1)
      | (Some e, l1, w1) \<Rightarrow> (case rollback l1 w1 of (rbErr, w2) \<Rightarrow> ((Some e, rbErr), l1, w2)))"

definition commitSettle :: "job \<Rightarrow> error option \<Rightarrow> error option \<Rightarrow> log \<Rightarrow> error option \<times> log" where
  "commitSettle j err rollbackErr l =
     (case err of
        None \<Rightarrow> (None, resolve (jround j) None (l\<lparr>durable := jlast j, inflight := None\<rparr>))
      | Some e \<Rightarrow>
          let staged = cur l;
              fe = (case rollbackErr of None \<Rightarrow> e
                    | Some re \<Rightarrow> Wrap ''wal: log is broken'' [ErrBroken, Wrap ''join'' [e, re]]);
              l1 = (newRound l)\<lparr>failErr := Some fe, pending := [], pendingMin := 0, pendingMax := 0,
                     nextLSN := jfirst j, broken := broken l \<or> rollbackErr \<noteq> None, inflight := None\<rparr>
          in (Some fe, resolve staged (Some fe) (resolve (jround j) (Some fe) l1)))"

definition commit :: "log \<Rightarrow> fs \<Rightarrow> error option \<times> log \<times> fs" where
  "commit l w = (case commitTake l of
      None \<Rightarrow> (None, l, w)
    | Some (j, l1) \<Rightarrow> (case commitWrite j l1 w of
         ((err, rbErr), l2, w2) \<Rightarrow> (case commitSettle j err rbErr l2 of (res, l3) \<Rightarrow> (res, l3, w2))))"

text \<open>
  The committer goroutine. Each element of the list is one turn of its loop: what the other
  goroutines do before it, and which channel the \<^verbatim>\<open>select\<close> finds ready. The last component of the
  result tells whether the goroutine has returned.
\<close>

datatype wake = WakeDone | WakeSignal | WakeTick

fun committer :: "(env \<times> wake) list \<Rightarrow> log \<Rightarrow> fs \<Rightarrow> log \<times> fs \<times> bool" where
  "committer [] l w = (l, w, False)"
| "committer ((env, ev) # turns) l w =
     (case env l w of (l0, w0) \<Rightarrow>
        if SyncMode (opts l0) \<noteq> SyncPeriodic \<and> hasPending l0 then
          (case commit l0 w0 of (_, l1, w1) \<Rightarrow> committer turns l1 w1)
        else (case ev of
            WakeDone \<Rightarrow> (case commit l0 w0 of
                (None, l1, w1) \<Rightarrow> (l1, w1, True)
              | (Some e, l1, w1) \<Rightarrow> (l1\<lparr>closeErr := Some e\<rparr>, w1, True))
          | WakeSignal \<Rightarrow> (case commit (l0\<lparr>signalled := False\<rparr>) w0 of (_, l1, w1) \<Rightarrow> committer turns l1 w1)
          | WakeTick \<Rightarrow> (case commit l0 w0 of (_, l1, w1) \<Rightarrow> committer turns l1 w1)))"

subsection \<open>Truncation\<close>

text \<open>The loop that counts the segments to drop stops before the last one.\<close>

fun dropCount :: "u64 \<Rightarrow> segment list \<Rightarrow> nat" where
  "dropCount limit (s # t # ss) = (if lastLSN s \<ge> limit then 0 else Suc (dropCount limit (t # ss)))"
| "dropCount limit ss = 0"

fun removeDoomed :: "segment list \<Rightarrow> nat \<Rightarrow> fs \<Rightarrow> error option \<times> nat \<times> fs" where
  "removeDoomed [] removed w = (None, removed, w)"
| "removeDoomed (s # ss) removed w = (case remove_file (segPath s) w of
      (Inl e, w1) \<Rightarrow> if e \<noteq> Errno ENOENT then (Some e, removed, w1) else removeDoomed ss (Suc removed) w1
    | (Inr _, w1) \<Rightarrow> removeDoomed ss (Suc removed) w1)"

definition truncateLog :: "u64 \<Rightarrow> log \<Rightarrow> fs \<Rightarrow> error option \<times> log \<times> fs" where
  "truncateLog limit l w =
     (let doomed = take (dropCount limit (segs l)) (segs l)
      in if doomed = [] then (None, l, w)
         else case removeDoomed doomed 0 w of (rerr, removed, w1) \<Rightarrow>
           let l1 = l\<lparr>segs := drop removed (segs l)\<rparr>;
               l2 = (case segs l1 of [] \<Rightarrow> l1 | s # _ \<Rightarrow> l1\<lparr>firstLSN := baseLSN s\<rparr>)
           in case rerr of
                Some e \<Rightarrow> (Some e, l2, w1)
              | None \<Rightarrow> (case syncDir w1 of
                  (Inl e, w2) \<Rightarrow> (Some e, l2, w2) | (Inr _, w2) \<Rightarrow> (None, l2, w2)))"

definition firstPrevEnd :: "log \<Rightarrow> u64" where
  "firstPrevEnd l = prevEnd (hd (segs l))"

subsection \<open>Shutdown\<close>

definition idle :: env where
  "idle l w = (l, w)"

definition first_error :: "error option \<Rightarrow> (error + 'a) \<Rightarrow> error option" where
  "first_error err r = (case err of Some e \<Rightarrow> Some e | None \<Rightarrow> (case r of Inl e \<Rightarrow> Some e | Inr _ \<Rightarrow> None))"

text \<open>
  \<^verbatim>\<open>Close\<close>. \<open>wakes\<close> are the ticks and signals the committer still takes before it finds \<^verbatim>\<open>done\<close>
  closed; it then needs at most two turns, one for a round it commits without waiting and one for
  the final round.
\<close>

definition closeLog :: "wake list \<Rightarrow> log \<Rightarrow> fs \<Rightarrow> error option \<times> log \<times> fs" where
  "closeLog wakes l w =
     (if closed l then (None, l, w)
      else
        case committer (map (Pair idle) (wakes @ [WakeDone, WakeDone])) (l\<lparr>closed := True\<rparr>) w of
          (l1, w1, _) \<Rightarrow>
        let err0 = closeErr l1;
            allocated = nextLSN l1 - 1;
            (err1, w2) = (if reserved l1 > allocated
                          then (case writeReserved allocated w1 of (r, w2) \<Rightarrow> (first_error err0 r, w2))
                          else (err0, w1));
            (err2, l2, w3) =
              (if segFile (active l1) \<noteq> None then
                 (case on_handle (active l1) file_sync w2 of (sr, wa) \<Rightarrow>
                  case on_handle (active l1) file_close wa of (cr, wb) \<Rightarrow>
                    (first_error (first_error err1 sr) cr, set_active ((active l1)\<lparr>segFile := None\<rparr>) l1, wb))
               else (err1, l1, w2))
        in case file_close (lockFile l2) w3 of (r, w4) \<Rightarrow> (first_error err2 r, l2, w4))"

subsection \<open>Views\<close>

record segView =
  vpath :: string
  vbase :: u64
  vprevEnd :: u64
  vcount :: u64
  vsize :: nat

definition gapBefore :: "segView \<Rightarrow> u64 \<Rightarrow> bool" where
  "gapBefore v lsn \<longleftrightarrow> lsn > vprevEnd v \<and> lsn < vbase v"

definition segView_of :: "segment \<Rightarrow> segView" where
  "segView_of s = \<lparr>vpath = segPath s, vbase = baseLSN s, vprevEnd = prevEnd s, vcount = segCount s,
     vsize = segSize s\<rparr>"

definition snapshot :: "log \<Rightarrow> segView list \<times> u64" where
  "snapshot l = (map segView_of (segs l), durable l)"

end
