(* ===== verification/SegmentDisk.thy ===== *)
theory SegmentDisk
  imports Segment MetaFiles
begin

text \<open>
  Segments and the disk: what it means that a segment file holds certain records, that they survive
  a power loss, and which calls leave that alone.

  \<open>untouched P w w'\<close> is the frame condition all the log's operations are described with: between
  \<open>w\<close> and \<open>w'\<close> only names in \<open>P\<close> were touched. What is durable may have caught up with what is
  visible in the meantime: a sync of the directory publishes all its names, a sync of a file all its
  bytes. For the metadata files it also says that what is durable under their names is not lost.
\<close>

subsection \<open>Frames\<close>

definition untouched :: "string set \<Rightarrow> fs \<Rightarrow> fs \<Rightarrow> bool" where
  "untouched P w w' \<longleftrightarrow> fs_ok w' \<and> nextIno w \<le> nextIno w' \<and>
     (\<forall>q. q \<notin> P \<longrightarrow> map_of (dents w') q = map_of (dents w) q
        \<and> (map_of (sdents w') q = map_of (dents w) q
            \<or> map_of (sdents w') q = map_of (sdents w) q
                \<and> (\<forall>j. is_meta q \<and> map_of (sdents w) q = Some j \<longrightarrow> stable w' j = stable w j
                     \<or> map_of (dents w) q = Some j \<and> stable w' j = data w j))
        \<and> (\<forall>j. map_of (dents w) q = Some j \<longrightarrow> data w' j = data w j
            \<and> (stable w' j = stable w j \<or> stable w' j = data w j)))"

lemma untouched_refl: "fs_ok w \<Longrightarrow> untouched P w w"
  by (simp add: untouched_def)

lemma untouched_ok: "untouched P w w' \<Longrightarrow> fs_ok w'"
  by (simp add: untouched_def)

lemma untouched_trans: "untouched P w w' \<Longrightarrow> untouched Q w' w'' \<Longrightarrow> untouched (P \<union> Q) w w''"
  unfolding untouched_def by (intro conjI allI impI) (auto, metis+)

lemma untouched_trans_same: "untouched P w w' \<Longrightarrow> untouched P w' w'' \<Longrightarrow> untouched P w w''"
  using untouched_trans [of P w w' P w''] by simp

lemma untouched_mono: "untouched P w w' \<Longrightarrow> P \<subseteq> Q \<Longrightarrow> untouched Q w w'"
  unfolding untouched_def by blast

lemma untouched_name: "untouched P w w' \<Longrightarrow> q \<notin> P \<Longrightarrow> map_of (dents w') q = map_of (dents w) q"
  by (simp add: untouched_def)

lemma untouched_data:
  "untouched P w w' \<Longrightarrow> q \<notin> P \<Longrightarrow> map_of (dents w) q = Some j \<Longrightarrow> data w' j = data w j"
  by (simp add: untouched_def)

lemma meta_frame_untouched: "meta_frame name w w' \<Longrightarrow> untouched {name, tmpName name} w w'"
  unfolding meta_frame_def untouched_def by auto

text \<open>Calls on the file behind a name touch only that name.\<close>

lemma only_ino_untouched:
  assumes "fs_ok w" and "only_ino i w w'" and "map_of (dents w) p = Some i"
  shows "untouched {p} w w'"
proof -
  have "j \<noteq> i" if "q \<noteq> p" "map_of (dents w) q = Some j" for q j
    using that assms(1,3) fs_okD(4) by metis
  moreover have "j \<noteq> i" if "q \<noteq> p" "is_meta q" "map_of (sdents w) q = Some j" for q j
    using that assms(1,3) fs_okD(5) by metis
  ultimately show ?thesis
    using assms only_ino_fs_ok [OF assms(2)] by (auto simp: untouched_def only_ino_def)
qed

lemma pop_fault_untouched: "fs_ok w \<Longrightarrow> untouched P w (pop_fault w)"
  using only_ino_fs_ok [OF only_ino_pop] by (simp add: untouched_def)

lemma file_close_untouched: "fs_ok w \<Longrightarrow> untouched P w (snd (file_close i w))"
  by (auto simp: file_close_def pop_fault_untouched split: option.splits fault.splits)

lemma file_sync_untouched:
  assumes "fs_ok w" and "map_of (dents w) p = Some i"
  shows "untouched P w (snd (file_sync i w))"
proof -
  have "q = p" if "is_meta q" "map_of (sdents w) q = Some i" for q
    using that assms fs_okD(5) by metis
  then show ?thesis
    using assms only_ino_fs_ok [OF file_sync_only [of i w]]
    by (auto simp: untouched_def file_sync_def split: option.splits fault.splits)
qed

lemma syncDir_untouched: "fs_ok w \<Longrightarrow> untouched P w (snd (syncDir w))"
  using syncDir_cases [of w "fst (syncDir w)" "snd (syncDir w)"] syncDir_fs_ok [of w "fst (syncDir w)"]
  by (auto simp: untouched_def split: sum.splits)

lemma remove_file_untouched: "fs_ok w \<Longrightarrow> untouched {p} w (snd (remove_file p w))"
  using remove_file_cases [of p w "fst (remove_file p w)" "snd (remove_file p w)"]
    remove_file_fs_ok [of w p "fst (remove_file p w)"]
  by (auto simp: untouched_def delete_conv split: sum.splits)

lemma discard_untouched:
  assumes "fs_ok w" shows "untouched {segPath s} w (snd (discard s w))"
proof -
  define w1 where "w1 = (case segFile s of None \<Rightarrow> w | Some i \<Rightarrow> snd (file_close i w))"
  have "untouched {segPath s} w w1"
    using assms file_close_untouched by (auto simp: w1_def untouched_refl split: option.splits)
  moreover from this have "untouched {segPath s} w1 (snd (remove_file (segPath s) w1))"
    by (intro remove_file_untouched) (rule untouched_ok)
  moreover have "snd (discard s w) = snd (remove_file (segPath s) w1)"
    by (simp add: discard_def w1_def)
  ultimately show ?thesis
    using untouched_trans_same by metis
qed

subsection \<open>Creating a segment\<close>

text \<open>Opening with \<open>O_EXCL\<close> gives a new, empty file under a name that was free.\<close>

lemma open_excl_outcome:
  assumes "fs_ok w" and "open_excl p w = (r, w')"
  shows "untouched {p} w w' \<and> (case r of Inl _ \<Rightarrow> True
     | Inr i \<Rightarrow> map_of (dents w') p = Some i \<and> data w' i = [] \<and> stable w' i = [] \<and> nextIno w \<le> i)"
proof -
  have "untouched {p} w (create_name p (pop_fault w))" if "map_of (dents w) p = None"
    using that create_name_fs_ok [OF assms(1) that] fs_okD(2,3) [OF assms(1)]
    by (fastforce simp: untouched_def create_name_def update_conv)
  then show ?thesis
    using assms pop_fault_untouched [OF assms(1)]
    by (auto simp: open_excl_def lookup_name_def create_name_def update_conv
        split: option.splits fault.splits)
qed

lemma stat_path_untouched: "fs_ok w \<Longrightarrow> untouched P w (snd (stat_path p w))"
  by (auto simp: stat_path_def file_size_def pop_fault_untouched split: option.splits fault.splits)

lemma openNewSegment_outcome:
  assumes "fs_ok w" and "openNewSegment p w = (r, w')"
  shows "untouched {p} w w' \<and> (case r of Inl _ \<Rightarrow> True
     | Inr i \<Rightarrow> map_of (dents w') p = Some i \<and> data w' i = [] \<and> stable w' i = [] \<and> nextIno w \<le> i)"
proof -
  obtain r1 w1 where o1: "open_excl p w = (r1, w1)" by fastforce
  note out1 = open_excl_outcome [OF assms(1) o1]
  have ok1: "fs_ok w1" using out1 untouched_ok by blast
  obtain r2 w2 where st: "stat_path p w1 = (r2, w2)" by fastforce
  have u2: "untouched {p} w1 w2" using stat_path_untouched [OF ok1, of "{p}" p] st by simp
  then have ok2: "fs_ok w2" by (rule untouched_ok)
  obtain r3 w3 where rm: "remove_file p w2 = (r3, w3)" by fastforce
  have u3: "untouched {p} w2 w3" using remove_file_untouched [OF ok2, of p] rm by simp
  then have ok3: "fs_ok w3" by (rule untouched_ok)
  have u12: "untouched {p} w w2" using untouched_trans_same out1 u2 by blast
  have u13: "untouched {p} w w3" using untouched_trans_same [OF u12 u3] .
  obtain r4 w4 where o4: "open_excl p w3 = (r4, w4)" by fastforce
  note out4 = open_excl_outcome [OF ok3 o4]
  then have u14: "untouched {p} w w4" using untouched_trans_same [OF u13] by blast
  have n: "nextIno w \<le> nextIno w3" using u13 by (simp add: untouched_def)
  from assms(2) show ?thesis
    using out1 out4 u12 u13 u14 n
    by (auto simp: openNewSegment_def o1 st rm o4 split: sum.splits if_splits)
qed

lemma createSegment_outcome:
  assumes ok: "fs_ok w" and c: "createSegment base prev w = (r, w')"
  shows "untouched {segmentName base prev} w w' \<and> (case r of Inl _ \<Rightarrow> True
     | Inr s \<Rightarrow> \<exists>i. s = newSegment base prev i \<and> map_of (dents w') (segmentName base prev) = Some i
         \<and> data w' i = [] \<and> stable w' i = [] \<and> nextIno w \<le> i \<and> sdents w' = dents w')"
proof -
  let ?p = "segmentName base prev"
  obtain ro w1 where o: "openNewSegment ?p w = (ro, w1)" by fastforce
  note out = openNewSegment_outcome [OF ok o]
  show ?thesis
  proof (cases ro)
    case (Inl e)
    then show ?thesis using c o out by (auto simp: createSegment_def io_bind_def)
  next
    case (Inr i)
    let ?s = "newSegment base prev i"
    obtain rs w2 where s: "syncDir w1 = (rs, w2)" by fastforce
    have ok1: "fs_ok w1" using out untouched_ok by blast
    have u: "untouched {?p} w w2"
      using untouched_trans_same out syncDir_untouched [OF ok1, of "{?p}"] s by fastforce
    then have ok2: "fs_ok w2" by (rule untouched_ok)
    have d: "untouched {?p} w (snd (discard ?s w2))"
      using untouched_trans_same [OF u] discard_untouched [OF ok2, of ?s] by (simp add: newSegment_def)
    show ?thesis
      using c o Inr s u d out syncDir_cases [OF s]
      by (auto simp: createSegment_def io_bind_def io_on_error_def Let_def split: sum.splits)
  qed
qed

subsection \<open>What a segment holds\<close>

text \<open>
  \<open>seg_holds m w s ps\<close>: the file of segment \<open>s\<close> starts with the records \<open>ps\<close>, and the size and
  count published for it are theirs. There may be bytes after them, of a round still being written.
\<close>

definition seg_holds :: "nat \<Rightarrow> fs \<Rightarrow> segment \<Rightarrow> bytes list \<Rightarrow> bool" where
  "seg_holds m w s ps \<longleftrightarrow> segPath s = segmentName (baseLSN s) (prevEnd s)
     \<and> (\<exists>i. map_of (dents w) (segPath s) = Some i \<and> take (segSize s) (data w i) = frames ps)
     \<and> segSize s = length (frames ps) \<and> segCount s = of_nat (length ps)
     \<and> list_all (\<lambda>p. length p \<le> m) ps
     \<and> 0 < unat (baseLSN s) \<and> unat (baseLSN s) + length ps < 2 ^ 64"

text \<open>The file has no bytes beyond the published ones.\<close>

definition seg_exact :: "fs \<Rightarrow> segment \<Rightarrow> bool" where
  "seg_exact w s \<longleftrightarrow> (\<forall>i. map_of (dents w) (segPath s) = Some i \<longrightarrow> length (data w i) = segSize s)"

text \<open>The published bytes, and nothing else, would survive a power loss, and so would the name.\<close>

definition seg_durable :: "fs \<Rightarrow> segment \<Rightarrow> bool" where
  "seg_durable w s \<longleftrightarrow> map_of (sdents w) (segPath s) = map_of (dents w) (segPath s)
     \<and> (\<forall>i. map_of (dents w) (segPath s) = Some i \<longrightarrow> stable w i = take (segSize s) (data w i))"

definition seg_end :: "segment \<Rightarrow> nat" where
  "seg_end s = unat (baseLSN s) + unat (segCount s)"

text \<open>Each segment says which LSN the one before it ends at, and lies above it.\<close>

fun chained :: "segment list \<Rightarrow> bool" where
  "chained (s # t # ss) \<longleftrightarrow> prevEnd t = lastLSN s \<and> seg_end s \<le> unat (baseLSN t)
     \<and> unat (baseLSN s) < unat (baseLSN t) \<and> chained (t # ss)"
| "chained _ \<longleftrightarrow> True"

lemma seg_holds_count: "seg_holds m w s ps \<Longrightarrow> unat (segCount s) = length ps"
  by (auto simp: seg_holds_def unat_of_nat_u64)

lemma seg_holds_end: "seg_holds m w s ps \<Longrightarrow> seg_end s = unat (baseLSN s) + length ps"
  by (simp add: seg_end_def seg_holds_count)

lemma seg_holds_lastLSN: "seg_holds m w s ps \<Longrightarrow> unat (lastLSN s) = seg_end s - 1"
proof -
  assume h: "seg_holds m w s ps"
  then have n: "unat (segCount s) = length ps" and "unat (baseLSN s) + length ps < 2 ^ 64"
    and pos: "0 < unat (baseLSN s)"
    using seg_holds_count by (auto simp: seg_holds_def)
  then have "unat (baseLSN s + segCount s) = seg_end s"
    using unat_plus_no_wrap [of "baseLSN s" "segCount s"] by (simp add: seg_end_def)
  moreover from this have "baseLSN s + segCount s \<noteq> 0"
    using pos by (metis add_is_0 neq0_conv seg_end_def unat_0)
  ultimately show ?thesis
    by (simp add: lastLSN_def unat_minus_one_u64)
qed

lemma seg_holds_untouched:
  assumes "seg_holds m w s ps" and "untouched P w w'" and "segPath s \<notin> P"
  shows "seg_holds m w' s ps"
  using assms untouched_name [OF assms(2,3)] untouched_data [OF assms(2,3)]
  by (auto simp: seg_holds_def)

lemma seg_exact_untouched:
  assumes "seg_exact w s" and "untouched P w w'" and "segPath s \<notin> P"
  shows "seg_exact w' s"
  using assms unfolding untouched_def seg_exact_def by metis

lemma seg_durable_untouched:
  assumes "seg_durable w s" and "seg_exact w s" and "untouched P w w'" and "segPath s \<notin> P"
  shows "seg_durable w' s"
proof -
  have "map_of (dents w') (segPath s) = map_of (dents w) (segPath s)"
    "map_of (sdents w') (segPath s) = map_of (dents w) (segPath s)"
    using assms by (auto simp: untouched_def seg_durable_def)
  moreover have "stable w' i = take (segSize s) (data w' i)" if "map_of (dents w) (segPath s) = Some i" for i
    using assms that by (auto simp: untouched_def seg_durable_def seg_exact_def)
  ultimately show ?thesis by (simp add: seg_durable_def)
qed

text \<open>Calls that sync no file but those named in \<open>P\<close>.\<close>

definition kept :: "string set \<Rightarrow> fs \<Rightarrow> fs \<Rightarrow> bool" where
  "kept P w w' \<longleftrightarrow> (\<forall>q j. q \<notin> P \<longrightarrow> map_of (dents w) q = Some j \<longrightarrow> stable w' j = stable w j)"

lemma kept_trans: "kept P w w' \<Longrightarrow> untouched P w w' \<Longrightarrow> kept Q w' w'' \<Longrightarrow> kept (P \<union> Q) w w''"
  unfolding kept_def untouched_def by (metis UnCI)

lemma kept_same: "stable w' = stable w \<Longrightarrow> kept P w w'"
  by (simp add: kept_def)

lemma meta_frame_kept: "meta_frame name w w' \<Longrightarrow> kept {name, tmpName name} w w'"
  unfolding meta_frame_def kept_def by auto

lemma seg_durable_kept:
  assumes "seg_durable w s" and "untouched P w w'" and "kept P w w'" and "segPath s \<notin> P"
  shows "seg_durable w' s"
proof -
  have "map_of (dents w') (segPath s) = map_of (dents w) (segPath s)"
    "map_of (sdents w') (segPath s) = map_of (dents w) (segPath s)"
    using assms by (auto simp: untouched_def seg_durable_def)
  moreover have "stable w' i = take (segSize s) (data w' i)" if "map_of (dents w) (segPath s) = Some i" for i
    using assms that by (auto simp: untouched_def kept_def seg_durable_def)
  ultimately show ?thesis by (simp add: seg_durable_def)
qed

text \<open>The published records of a durable segment are there after any power loss.\<close>

lemma power_loss_holds:
  assumes "power_loss P w w'" and "seg_durable w s" and "seg_holds m w s ps"
  shows "seg_holds m w' s ps"
proof -
  obtain i where i: "map_of (dents w) (segPath s) = Some i" "take (segSize s) (data w i) = frames ps"
    using assms(3) by (auto simp: seg_holds_def)
  have s: "stable w i = frames ps" "map_of (sdents w) (segPath s) = Some i"
    using assms(2) i by (auto simp: seg_durable_def)
  then have "map_of (dents w') (segPath s) = Some i" using power_loss_name [OF assms(1)] i by blast
  moreover have "prefix (frames ps) (data w' i)"
    using assms(1) s(1) i(2) unfolding power_loss_def by (metis take_is_prefix)
  moreover have "segSize s = length (frames ps)" using assms(3) by (simp add: seg_holds_def)
  ultimately show ?thesis using assms(3) by (auto simp: seg_holds_def prefix_def)
qed

lemma power_loss_exact:
  assumes "power_loss P w w'" and "seg_durable w s" and "seg_holds m w s ps" and "seg_exact w s" and "segPath s \<notin> P"
  shows "seg_exact w' s"
proof -
  obtain i where i: "map_of (dents w) (segPath s) = Some i" "take (segSize s) (data w i) = frames ps"
    using assms(3) by (auto simp: seg_holds_def)
  then have s: "stable w i = data w i" "map_of (sdents w) (segPath s) = Some i" "length (data w i) = segSize s"
    using assms(2,4) by (auto simp: seg_durable_def seg_exact_def)
  then have "map_of (dents w') (segPath s) = Some i" using power_loss_name [OF assms(1)] i by blast
  moreover from this have "data w' i = data w i" using assms(1,5) s unfolding power_loss_def by blast
  ultimately show ?thesis using s(3) by (simp add: seg_exact_def)
qed

lemma chained_append:
  "ss \<noteq> [] \<Longrightarrow> chained (ss @ [t]) \<longleftrightarrow> chained ss \<and> prevEnd t = lastLSN (last ss)
     \<and> seg_end (last ss) \<le> unat (baseLSN t) \<and> unat (baseLSN (last ss)) < unat (baseLSN t)"
  by (induction ss rule: chained.induct) auto

lemma chained_drop: "chained ss \<Longrightarrow> chained (drop k ss)"
proof (induction ss arbitrary: k rule: chained.induct)
  case (1 s t ss)
  then show ?case by (cases k) auto
qed (auto simp: drop_Cons' )

lemma chained_butlast: "chained ss \<Longrightarrow> chained (butlast ss)"
  using chained_append [of "butlast ss" "last ss"] by (cases "ss = []"; cases "butlast ss = []") auto

lemma chained_prefix: "chained (xs @ ys) \<Longrightarrow> chained xs"
proof (induction ys rule: rev_induct)
  case (snoc y ys)
  then show ?case using chained_butlast [of "xs @ ys @ [y]"] by (simp add: butlast_append)
qed simp

text \<open>Only the numbers matter.\<close>

lemma chained_cong:
  "map (\<lambda>s. (baseLSN s, prevEnd s, segCount s)) ss = map (\<lambda>s. (baseLSN s, prevEnd s, segCount s)) ts \<Longrightarrow>
   chained ss = chained ts"
proof (induction ss arbitrary: ts rule: chained.induct)
  case (1 s t ss)
  then obtain s' t' ts' where ts: "ts = s' # t' # ts'" by (auto simp: Cons_eq_map_conv)
  with 1 have "chained (t # ss) = chained (t' # ts')" by simp
  with 1(2) ts show ?case by (simp add: lastLSN_def seg_end_def)
qed auto

text \<open>The chain orders the segments: the numbers of each lie below those of every later one.\<close>

lemma chained_sorted:
  "chained ss \<Longrightarrow> sorted_wrt (\<lambda>s t. seg_end s \<le> unat (baseLSN t) \<and> unat (baseLSN s) < unat (baseLSN t)) ss"
proof (induction ss rule: chained.induct)
  case (1 s t ss)
  have "unat (baseLSN t) \<le> seg_end t" by (simp add: seg_end_def)
  with 1 show ?case by (auto simp: dest: order_trans)
qed auto

lemma chained_paths:
  assumes "chained ss" and "list_all2 (seg_holds m w) ss pss"
  shows "distinct (map segPath ss)"
proof -
  have p: "segPath s = segmentName (baseLSN s) (prevEnd s)" if "s \<in> set ss" for s
    using assms(2) that by (auto simp: list_all2_conv_all_nth in_set_conv_nth seg_holds_def)
  have "sorted_wrt (\<lambda>s t. segPath s \<noteq> segPath t) ss"
    using chained_sorted [OF assms(1)] by (rule sorted_wrt_mono_rel [rotated]) (auto simp: p)
  then show ?thesis
    by (simp add: distinct_conv_nth sorted_wrt_iff_nth_less nat_neq_iff) metis
qed

lemma seg_path_not_meta [simp]:
  "segmentName b p \<noteq> reservedName" "segmentName b p \<noteq> checkpointName" "segmentName b p \<noteq> identityName"
  "segmentName b p \<noteq> tmpName q"
proof -
  have s: "last (segmentName b p) = CHR ''g''" by (simp add: segmentName_def segmentSuffix_def)
  show "segmentName b p \<noteq> reservedName" "segmentName b p \<noteq> checkpointName"
      "segmentName b p \<noteq> identityName"
    using s by (auto simp: reservedName_def checkpointName_def identityName_def)
  show "segmentName b p \<noteq> tmpName q"
    using s by (auto simp: tmpName_def)
qed

end
