(* ===== verification/AbstractLog.thy ===== *)
theory AbstractLog
  imports Prelude
begin

text \<open>
  What the log promises, without files, segments or words: the abstract specification that the
  detailed model of \<^verbatim>\<open>wal.go\<close> is shown to implement.

  The abstract log is a list of numbered records, a round being committed, the records staged behind
  it, and what has been decided about each round. Numbers are unbounded. A ghost list \<open>a_handed\<close>
  remembers every batch that was ever handed a round and numbers, so that the invariant can say what
  became of it.
\<close>

subsection \<open>State and steps\<close>

text \<open>A record of the log: its LSN, its payload, and the round it was committed in (\<open>None\<close> if it was
  already there when the log was opened).\<close>

type_synonym entry = "nat \<times> bytes \<times> nat option"

fun number :: "nat \<Rightarrow> nat option \<Rightarrow> bytes list \<Rightarrow> entry list" where
  "number n r [] = []"
| "number n r (p # ps) = (n, p, r) # number (Suc n) r ps"

record alog =
  a_recs :: "entry list"
  a_flight :: "(bytes list \<times> nat) option"
  a_staged :: "bytes list"
  a_next :: nat
  a_cur :: nat
  a_rounds :: "nat \<Rightarrow> error option option"
  a_nextRound :: nat
  a_dead :: bool
  a_low :: nat
  a_handed :: "(nat \<times> nat \<times> bytes list) list"

definition in_flight :: "alog \<Rightarrow> bytes list" where
  "in_flight a = (case a_flight a of None \<Rightarrow> [] | Some (qs, _) \<Rightarrow> qs)"

text \<open>The number after the last committed record, where the records in flight start.\<close>

definition a_base :: "alog \<Rightarrow> nat" where
  "a_base a = a_next a - length (a_staged a) - length (in_flight a)"

definition a_freshRound :: "alog \<Rightarrow> alog" where
  "a_freshRound a = a\<lparr>a_cur := a_nextRound a, a_rounds := (a_rounds a)(a_nextRound a := None),
     a_nextRound := Suc (a_nextRound a)\<rparr>"

inductive astep :: "alog \<Rightarrow> alog \<Rightarrow> bool" where
  a_stage: "\<not> a_dead a \<Longrightarrow> ps \<noteq> [] \<Longrightarrow>
    astep a (a\<lparr>a_staged := a_staged a @ ps, a_next := a_next a + length ps,
               a_handed := (a_cur a, a_next a, ps) # a_handed a\<rparr>)"
| a_take: "a_flight a = None \<Longrightarrow> a_staged a \<noteq> [] \<Longrightarrow>
    astep a ((a_freshRound a)\<lparr>a_flight := Some (a_staged a, a_cur a), a_staged := []\<rparr>)"
| a_commit: "a_flight a = Some (qs, r) \<Longrightarrow>
    astep a (a\<lparr>a_recs := a_recs a @ number (a_base a) (Some r) qs, a_flight := None,
               a_rounds := (a_rounds a)(r := Some None)\<rparr>)"
| a_fail: "a_flight a = Some (qs, r) \<Longrightarrow>
    astep a (let b = a_freshRound a in
      b\<lparr>a_flight := None, a_staged := [], a_next := a_base a, a_dead := a_dead a \<or> d,
        a_rounds := (a_rounds b)(r := Some (Some e), a_cur a := Some (Some e))\<rparr>)"
| a_trunc: "k \<le> length (a_recs a) \<Longrightarrow>
    astep a (a\<lparr>a_recs := drop k (a_recs a),
               a_low := (if k = 0 then a_low a else Suc (fst (a_recs a ! (k - 1))))\<rparr>)"

inductive_cases astepE: "astep a a'"

subsection \<open>Invariant\<close>

definition sits_at :: "bytes list \<Rightarrow> nat \<Rightarrow> bytes list \<Rightarrow> nat \<Rightarrow> bool" where
  "sits_at ps n qs b \<longleftrightarrow> (\<exists>xs ys. qs = xs @ ps @ ys \<and> n = b + length xs)"

text \<open>What became of a batch, or where it is.\<close>

definition fate :: "alog \<Rightarrow> nat \<times> nat \<times> bytes list \<Rightarrow> bool" where
  "fate a = (\<lambda>(r, n, ps). r < a_nextRound a \<and> (case a_rounds a r of
      None \<Rightarrow> (r = a_cur a \<and> sits_at ps n (a_staged a) (a_base a + length (in_flight a)))
            \<or> (\<exists>qs. a_flight a = Some (qs, r) \<and> sits_at ps n qs (a_base a))
    | Some None \<Rightarrow> \<forall>e \<in> set (number n (Some r) ps). fst e < a_low a \<or> e \<in> set (a_recs a)
    | Some (Some _) \<Rightarrow> True))"

definition ainv :: "alog \<Rightarrow> bool" where
  "ainv a \<longleftrightarrow> sorted_wrt (<) (map fst (a_recs a))
     \<and> (\<forall>e \<in> set (a_recs a). a_low a \<le> fst e \<and> fst e < a_base a)
     \<and> a_low a \<le> a_base a \<and> length (a_staged a) + length (in_flight a) \<le> a_next a
     \<and> a_cur a < a_nextRound a \<and> a_rounds a (a_cur a) = None
     \<and> (\<forall>qs r. a_flight a = Some (qs, r) \<longrightarrow> qs \<noteq> [] \<and> r < a_nextRound a \<and> r \<noteq> a_cur a \<and> a_rounds a r = None)
     \<and> (\<forall>n p r. (n, p, Some r) \<in> set (a_recs a) \<longrightarrow> r < a_nextRound a \<and> a_rounds a r = Some None)
     \<and> (\<forall>h \<in> set (a_handed a). fate a h)"

lemma number_append: "number n r (ps @ qs) = number n r ps @ number (n + length ps) r qs"
  by (induction ps arbitrary: n) simp_all

lemma number_bounds: "e \<in> set (number n r ps) \<Longrightarrow> n \<le> fst e \<and> fst e < n + length ps \<and> snd (snd e) = r"
  by (induction ps arbitrary: n) fastforce+

lemma number_sorted: "sorted_wrt (<) (map fst (number n r ps))"
  by (induction ps arbitrary: n) (auto dest: number_bounds)

lemma length_number [simp]: "length (number n r ps) = length ps"
  by (induction ps arbitrary: n) simp_all

lemma sits_at_number: "sits_at ps n qs b \<Longrightarrow> set (number n r ps) \<subseteq> set (number b r qs)"
  by (auto simp: sits_at_def number_append)

lemma sits_at_append: "sits_at ps n qs b \<Longrightarrow> sits_at ps n (qs @ xs) b"
  unfolding sits_at_def by (metis append.assoc)

lemma sits_at_end: "sits_at ps (b + length qs) (qs @ ps) b"
  unfolding sits_at_def by (metis append_Nil2)

lemma sorted_fst_drop:
  "sorted_wrt (<) (map fst xs) \<Longrightarrow> 0 < k \<Longrightarrow> k \<le> length xs \<Longrightarrow> e \<in> set (drop k xs) \<Longrightarrow> fst (xs ! (k - 1)) < fst e"
  for xs :: "(nat \<times> 'b) list"
  by (auto simp: in_set_conv_nth sorted_wrt_iff_nth_less)

lemma sorted_fst_take:
  "sorted_wrt (<) (map fst xs) \<Longrightarrow> e \<in> set xs \<Longrightarrow> e \<notin> set (drop k xs) \<Longrightarrow> k \<le> length xs \<Longrightarrow>
   0 < k \<and> fst e \<le> fst (xs ! (k - 1))" for xs :: "(nat \<times> 'b) list"
proof -
  assume s: "sorted_wrt (<) (map fst xs)" and e: "e \<in> set xs" "e \<notin> set (drop k xs)" and k: "k \<le> length xs"
  then have "e \<in> set (take k xs)" by (metis UnE append_take_drop_id set_append)
  then obtain i where i: "i < k" "xs ! i = e" using k by (auto simp: in_set_conv_nth)
  then have "i = k - 1 \<or> i < k - 1" by linarith
  with s i k show ?thesis by (auto simp: sorted_wrt_iff_nth_less less_imp_le)
qed

subsection \<open>The invariant is kept\<close>

lemma ainv_stage:
  assumes "ainv a"
  shows "ainv (a\<lparr>a_staged := a_staged a @ ps, a_next := a_next a + length ps,
               a_handed := (a_cur a, a_next a, ps) # a_handed a\<rparr>)" (is "ainv ?a")
proof -
  define c where "c = ?a"
  have sel: "a_recs c = a_recs a" "a_flight c = a_flight a" "a_staged c = a_staged a @ ps"
      "a_cur c = a_cur a" "a_rounds c = a_rounds a" "a_nextRound c = a_nextRound a"
      "a_low c = a_low a" "a_handed c = (a_cur a, a_next a, ps) # a_handed a"
      "a_next c = a_next a + length ps" "in_flight c = in_flight a"
    by (simp_all add: c_def in_flight_def)
  have le: "length (a_staged a) + length (in_flight a) \<le> a_next a" using assms by (simp add: ainv_def)
  then have b: "a_base c = a_base a" by (simp add: a_base_def sel)
  have "a_next a = a_base a + length (in_flight a) + length (a_staged a)"
    using le by (simp add: a_base_def)
  then have "sits_at ps (a_next a) (a_staged a @ ps) (a_base a + length (in_flight a))"
    by (metis sits_at_end)
  then have "fate c (a_cur a, a_next a, ps)"
    using assms by (simp add: fate_def ainv_def b sel)
  moreover have "fate c h" if "fate a h" for h
    using that by (auto simp: fate_def b sel sits_at_append split: option.splits)
  ultimately have "ainv c"
    using assms by (simp add: ainv_def b sel)
  then show ?thesis by (simp add: c_def)
qed

lemma ainv_take:
  assumes "ainv a" and "a_flight a = None" and "a_staged a \<noteq> []"
  shows "ainv ((a_freshRound a)\<lparr>a_flight := Some (a_staged a, a_cur a), a_staged := []\<rparr>)" (is "ainv ?a")
proof -
  define c where "c = ?a"
  have sel: "a_recs c = a_recs a" "a_flight c = Some (a_staged a, a_cur a)" "a_staged c = []"
      "a_cur c = a_nextRound a" "a_rounds c = (a_rounds a)(a_nextRound a := None)"
      "a_nextRound c = Suc (a_nextRound a)" "a_next c = a_next a"
      "a_low c = a_low a" "a_handed c = a_handed a" "in_flight c = a_staged a" "in_flight a = []"
    using assms(2) by (simp_all add: c_def in_flight_def a_freshRound_def)
  have b: "a_base c = a_base a" by (simp add: a_base_def sel)
  have "fate c h" if "fate a h" for h
    using that assms(2) by (auto simp: fate_def b sel split: option.splits)
  then have "ainv c"
    using assms by (auto simp: ainv_def b sel less_SucI dest!: spec)
  then show ?thesis by (simp add: c_def)
qed

lemma ainv_commit:
  assumes "ainv a" and fl: "a_flight a = Some (qs, r)"
  shows "ainv (a\<lparr>a_recs := a_recs a @ number (a_base a) (Some r) qs, a_flight := None,
               a_rounds := (a_rounds a)(r := Some None)\<rparr>)" (is "ainv ?a")
proof -
  define c where "c = ?a"
  have sel: "a_recs c = a_recs a @ number (a_base a) (Some r) qs" "a_flight c = None"
      "a_staged c = a_staged a" "a_cur c = a_cur a" "a_rounds c = (a_rounds a)(r := Some None)"
      "a_nextRound c = a_nextRound a" "a_next c = a_next a" "a_low c = a_low a"
      "a_handed c = a_handed a" "in_flight c = []" "in_flight a = qs"
    using fl by (simp_all add: c_def in_flight_def)
  have le: "length (a_staged a) + length qs \<le> a_next a" "a_low a \<le> a_base a"
    and low: "\<forall>e\<in>set (a_recs a). a_low a \<le> fst e \<and> fst e < a_base a"
    using assms sel by (auto simp: ainv_def)
  then have b: "a_base c = a_base a + length qs" by (simp add: a_base_def sel)
  have rr: "a_rounds a r = None" "r \<noteq> a_cur a" using assms by (auto simp: ainv_def)
  have "fate c h" if "fate a h" for h
  proof -
    obtain r' n ps where h: "h = (r', n, ps)" by (metis prod_cases3)
    show ?thesis
    proof (cases "r' = r")
      case True
      then have "sits_at ps n qs (a_base a)" using that rr fl by (simp add: fate_def h)
      from sits_at_number [OF this] that True show ?thesis by (auto simp: fate_def h b sel)
    next
      case False
      with that fl show ?thesis by (fastforce simp: fate_def h b sel split: option.splits)
    qed
  qed
  moreover have "sorted_wrt (<) (map fst (a_recs c))"
    using assms(1) low by (auto simp: sel ainv_def sorted_wrt_append number_sorted dest!: number_bounds)
  moreover have "a_low a \<le> fst e \<and> fst e < a_base a + length qs" if "e \<in> set (a_recs c)" for e
    using that low number_bounds [of e "a_base a" "Some r" qs] le by (auto simp: sel)
  moreover have "(n, p, Some r') \<in> set (number (a_base a) (Some r) qs) \<Longrightarrow> r' = r" for n p r'
    using number_bounds by fastforce
  ultimately have "ainv c"
    using assms le by (auto simp: ainv_def b sel)
  then show ?thesis by (simp add: c_def)
qed

lemma ainv_fail:
  assumes "ainv a" and fl: "a_flight a = Some (qs, r)"
  shows "ainv (let b = a_freshRound a in
      b\<lparr>a_flight := None, a_staged := [], a_next := a_base a, a_dead := a_dead a \<or> d,
        a_rounds := (a_rounds b)(r := Some (Some e), a_cur a := Some (Some e))\<rparr>)" (is "ainv ?a")
proof -
  define c where "c = ?a"
  have sel: "a_recs c = a_recs a" "a_flight c = None" "a_staged c = []" "a_cur c = a_nextRound a"
      "a_rounds c = (a_rounds a)(a_nextRound a := None, r := Some (Some e), a_cur a := Some (Some e))"
      "a_nextRound c = Suc (a_nextRound a)" "a_next c = a_base a" "a_low c = a_low a"
      "a_handed c = a_handed a" "in_flight c = []" "in_flight a = qs"
    using fl by (simp_all add: c_def in_flight_def a_freshRound_def Let_def)
  have b: "a_base c = a_base a" by (simp add: a_base_def [of c] sel)
  have "fate c h" if "fate a h" for h
    using that fl assms(1) by (auto simp: fate_def ainv_def b sel split: option.splits if_splits)
  moreover have "(n, p, Some (a_nextRound a)) \<notin> set (a_recs a)" for n p
    using assms(1) unfolding ainv_def by blast
  ultimately have "ainv c"
    using assms by (auto simp: ainv_def b sel less_SucI)
  then show ?thesis by (simp add: c_def)
qed

lemma ainv_trunc:
  assumes "ainv a" and k: "k \<le> length (a_recs a)"
  shows "ainv (a\<lparr>a_recs := drop k (a_recs a),
               a_low := (if k = 0 then a_low a else Suc (fst (a_recs a ! (k - 1))))\<rparr>)" (is "ainv ?a")
proof -
  define c where "c = ?a"
  have sel: "a_recs c = drop k (a_recs a)" "a_flight c = a_flight a" "a_staged c = a_staged a"
      "a_cur c = a_cur a" "a_rounds c = a_rounds a" "a_nextRound c = a_nextRound a"
      "a_next c = a_next a" "a_handed c = a_handed a" "in_flight c = in_flight a"
      and lc: "a_low c = (if k = 0 then a_low a else Suc (fst (a_recs a ! (k - 1))))"
    by (simp_all add: c_def in_flight_def)
  have s: "sorted_wrt (<) (map fst (a_recs a))" using assms by (simp add: ainv_def)
  have b: "a_base c = a_base a" by (simp add: a_base_def sel)
  have "a_low a \<le> fst (a_recs a ! (k - 1)) \<and> fst (a_recs a ! (k - 1)) < a_base a" if "0 < k"
    using that k assms(1) nth_mem [of "k - 1" "a_recs a"] by (auto simp: ainv_def simp del: nth_mem)
  then have low: "a_low a \<le> a_low c" "a_low c \<le> a_base a"
    using assms(1) by (auto simp: lc ainv_def)
  have keep: "fst e < a_low c \<or> e \<in> set (drop k (a_recs a))" if "e \<in> set (a_recs a)" for e
    using sorted_fst_take [OF s that _ k] by (auto simp: lc)
  have "fate c h" if "fate a h" for h
    using that low keep by (fastforce simp: fate_def b sel split: option.splits)
  moreover have "a_low c \<le> fst e" if "e \<in> set (drop k (a_recs a))" for e
    using that sorted_fst_drop [OF s _ k that] assms(1) in_set_dropD [OF that]
    by (auto simp: lc ainv_def Suc_le_eq)
  moreover have "sorted_wrt (<) (map fst (drop k (a_recs a)))"
    using s by (simp add: drop_map [symmetric] sorted_wrt_drop)
  ultimately have "ainv c"
    using assms(1) low(2) by (auto simp: ainv_def b sel dest: in_set_dropD)
  then show ?thesis by (simp add: c_def)
qed

interpretation alog: invariant_system astep ainv
proof
  fix a a' assume "ainv a" and "astep a a'"
  then show "ainv a'"
    by (cases rule: astepE) (auto intro: ainv_stage ainv_take ainv_commit ainv_fail ainv_trunc)
qed

end
