(* ===== verification/LogOutcomes.thy ===== *)
theory LogOutcomes
  imports Wal SegmentDisk AbstractLog
begin

text \<open>
  What each operation of the log does to its segments and to the disk, whatever fails on the way.

  \<open>segs_hold l w pss\<close> ties the log's segment list to the files: segment by segment, \<open>pss\<close> are the
  payloads on disk. \<open>contents\<close> numbers them. \<open>tail_clean\<close> says that the active segment's file ends
  exactly where its last durable record ends, which is what makes the next append land in the right
  place. The lemmas describe rotation, the write of a round, its rollback, and truncation in these
  terms; the refinement builds on them.
\<close>

subsection \<open>Segments and files\<close>

definition segs_hold :: "log \<Rightarrow> fs \<Rightarrow> bytes list list \<Rightarrow> bool" where
  "segs_hold l w pss \<longleftrightarrow> segs l \<noteq> [] \<and> chained (segs l) \<and> list_all2 (seg_holds (maxRecord l) w) (segs l) pss
     \<and> list_all (seg_exact w) (butlast (segs l))"

definition seg_entries :: "segment \<Rightarrow> bytes list \<Rightarrow> (nat \<times> bytes) list" where
  "seg_entries s ps = numbered (unat (baseLSN s)) ps"

definition contents :: "segment list \<Rightarrow> bytes list list \<Rightarrow> (nat \<times> bytes) list" where
  "contents ss pss = concat (map2 seg_entries ss pss)"

definition handle_ok :: "log \<Rightarrow> fs \<Rightarrow> bool" where
  "handle_ok l w \<longleftrightarrow> (\<exists>i. segFile (active l) = Some i \<and> map_of (dents w) (segPath (active l)) = Some i)"

definition tail_clean :: "log \<Rightarrow> fs \<Rightarrow> bool" where
  "tail_clean l w \<longleftrightarrow> (\<exists>i. segFile (active l) = Some i \<and> \<not> segShut (active l)
     \<and> map_of (dents w) (segPath (active l)) = Some i \<and> length (data w i) = segSize (active l))"

text \<open>
  What may follow the last published record of the active segment: the beginning of a sequence of
  records, left by a round that is being written or was cut short.
\<close>

definition tail_prefix :: "log \<Rightarrow> fs \<Rightarrow> bool" where
  "tail_prefix l w \<longleftrightarrow> (\<forall>i. map_of (dents w) (segPath (active l)) = Some i \<longrightarrow>
     (\<exists>qs u. drop (segSize (active l)) (data w i) @ u = frames qs \<and> list_all (\<lambda>p. length p \<le> maxRecord l) qs))"

lemma tail_prefixI:
  "map_of (dents w) (segPath (active l)) = Some i \<Longrightarrow> drop (segSize (active l)) (data w i) @ u = frames qs \<Longrightarrow>
   list_all (\<lambda>p. length p \<le> maxRecord l) qs \<Longrightarrow> tail_prefix l w"
  unfolding tail_prefix_def by auto

lemma tail_prefix_exact: "seg_exact w (active l) \<Longrightarrow> tail_prefix l w"
  unfolding tail_prefix_def seg_exact_def by (auto intro!: exI [of _ "[]"])

lemma tail_clean_handle: "tail_clean l w \<Longrightarrow> handle_ok l w"
  by (auto simp: tail_clean_def handle_ok_def)

lemma active_set_active [simp]: "active (set_active s l) = s"
  by (simp add: active_def set_active_def)

lemma segs_set_active [simp]: "segs (set_active s l) = butlast (segs l) @ [s]"
  by (simp add: set_active_def)

lemma set_active_same [simp]:
  "opts (set_active s l) = opts l" "nextLSN (set_active s l) = nextLSN l"
  by (simp_all add: set_active_def)

lemma segs_split: "segs_hold l w pss \<Longrightarrow> segs l = butlast (segs l) @ [active l] \<and> pss = butlast pss @ [last pss]"
  using list_all2_lengthD [of _ "segs l" pss] by (cases "pss = []") (auto simp: segs_hold_def active_def)

lemma segs_hold_parts:
  "segs_hold l w pss \<longleftrightarrow> segs l \<noteq> [] \<and> pss \<noteq> [] \<and> chained (segs l)
     \<and> list_all2 (seg_holds (maxRecord l) w) (butlast (segs l)) (butlast pss)
     \<and> seg_holds (maxRecord l) w (active l) (last pss) \<and> list_all (seg_exact w) (butlast (segs l))"
proof (cases "segs l = [] \<or> pss = []")
  case True
  then show ?thesis by (auto simp: segs_hold_def)
next
  case False
  then have "segs l = butlast (segs l) @ [active l]" "pss = butlast pss @ [last pss]"
    by (simp_all add: active_def)
  then have "list_all2 (seg_holds (maxRecord l) w) (segs l) pss \<longleftrightarrow>
      list_all2 (seg_holds (maxRecord l) w) (butlast (segs l) @ [active l]) (butlast pss @ [last pss])"
    by argo
  also have "\<dots> \<longleftrightarrow> list_all2 (seg_holds (maxRecord l) w) (butlast (segs l)) (butlast pss)
      \<and> seg_holds (maxRecord l) w (active l) (last pss)"
    by (rule list_all2_snoc)
  finally show ?thesis using False by (auto simp: segs_hold_def)
qed

lemma segs_hold_active: "segs_hold l w pss \<Longrightarrow> seg_holds (maxRecord l) w (active l) (last pss)"
  by (simp add: segs_hold_parts)

lemma seg_holds_all_untouched:
  assumes "list_all2 (seg_holds m w) ss pss" and "untouched P w w'"
    and "\<And>s. s \<in> set ss \<Longrightarrow> segPath s \<notin> P"
  shows "list_all2 (seg_holds m w') ss pss"
  using assms seg_holds_untouched [OF _ assms(2)] by (auto simp: list_all2_conv_all_nth)

lemma segs_hold_untouched:
  "segs_hold l w pss \<Longrightarrow> untouched P w w' \<Longrightarrow> (\<And>s. s \<in> set (segs l) \<Longrightarrow> segPath s \<notin> P) \<Longrightarrow> segs_hold l w' pss"
  using seg_holds_all_untouched [of "maxRecord l" w "segs l" pss P w'] seg_exact_untouched [of w _ P w']
  by (auto simp: segs_hold_def list_all_iff dest: in_set_butlastD)

lemma segs_path:
  "segs_hold l w pss \<Longrightarrow> s \<in> set (segs l) \<Longrightarrow> segPath s = segmentName (baseLSN s) (prevEnd s)"
  by (auto simp: segs_hold_def list_all2_conv_all_nth in_set_conv_nth seg_holds_def)

text \<open>All segments but the active one lie below it, under other names.\<close>

lemma butlast_below:
  assumes "segs_hold l w pss" and "s \<in> set (butlast (segs l))"
  shows "unat (baseLSN s) < unat (baseLSN (active l)) \<and> segPath s \<noteq> segPath (active l)"
proof -
  have sp: "segs l = butlast (segs l) @ [active l]" using segs_split assms(1) by blast
  have "chained (butlast (segs l) @ [active l])" using assms(1) sp by (simp add: segs_hold_def)
  then have "unat (baseLSN s) < unat (baseLSN (active l))"
    using assms(2) chained_sorted by (fastforce simp: sorted_wrt_append)
  moreover have "s \<in> set (segs l)" "active l \<in> set (segs l)"
    using assms sp by (auto dest: in_set_butlastD simp: segs_hold_def active_def)
  ultimately show ?thesis
    using segs_path [OF assms(1)] by auto
qed

text \<open>A name for numbers at or past the end of the log is the name of none of its segments.\<close>

lemma fresh_path:
  assumes "segs_hold l w pss" and "s \<in> set (segs l)" and "unat (baseLSN (active l)) < unat b"
  shows "segPath s \<noteq> segmentName b p"
proof -
  have "s \<in> set (butlast (segs l) @ [active l])"
    using assms(2) segs_split [OF assms(1)] by metis
  then have "unat (baseLSN s) \<le> unat (baseLSN (active l))"
    using butlast_below [OF assms(1), of s] by auto
  then show ?thesis
    using assms(3) segs_path [OF assms(1,2)] by auto
qed

text \<open>Replacing the active segment, after calls that touched only its file.\<close>

lemma segs_hold_set_active:
  assumes "segs_hold l w pss" and "untouched {segPath (active l)} w w'"
    and "seg_holds (maxRecord l) w' s ps" and "baseLSN s = baseLSN (active l)" and "prevEnd s = prevEnd (active l)"
  shows "segs_hold (set_active s l) w' (butlast pss @ [ps])"
proof -
  have "list_all2 (seg_holds (maxRecord l) w) (butlast (segs l)) (butlast pss)"
    using assms(1) by (simp add: segs_hold_parts)
  then have "list_all2 (seg_holds (maxRecord l) w') (butlast (segs l)) (butlast pss)"
    using seg_holds_all_untouched [OF _ assms(2)] butlast_below [OF assms(1)] by blast
  moreover have "chained (butlast (segs l) @ [active l])"
    using assms(1) segs_split [OF assms(1)] by (metis segs_hold_def)
  then have "chained (butlast (segs l) @ [s])"
    using assms(4,5)
      chained_append [of "butlast (segs l)" s] chained_append [of "butlast (segs l)" "active l"]
    by (cases "butlast (segs l) = []") auto
  moreover have "list_all (seg_exact w') (butlast (segs l))"
    using assms(1) seg_exact_untouched [OF _ assms(2)] butlast_below [OF assms(1)]
    by (auto simp: segs_hold_def list_all_iff)
  ultimately show ?thesis
    using assms(3) by (simp add: segs_hold_parts)
qed

lemma contents_append:
  "length ss = length pss \<Longrightarrow> contents (ss @ ts) (pss @ qss) = contents ss pss @ contents ts qss"
  by (simp add: contents_def)

lemma contents_single [simp]: "contents [s] [ps] = seg_entries s ps"
  by (simp add: contents_def)

lemma seg_entries_Nil [simp]: "seg_entries s [] = []"
  by (simp add: seg_entries_def)

lemma seg_entries_append:
  "seg_entries s (ps @ qs) = seg_entries s ps @ numbered (unat (baseLSN s) + length ps) qs"
  by (simp add: seg_entries_def numbered_append)

lemma number_strip: "map (\<lambda>e. (fst e, fst (snd e))) (number n r ps) = numbered n ps"
  by (induction ps arbitrary: n) simp_all

subsection \<open>Calls on the active segment's file\<close>

lemma on_handle_untouched:
  assumes "fs_ok w" and "handle_ok l w" and "\<And>i w. only_ino i w (snd (call i w))"
    and "on_handle (active l) call w = (r, w')"
  shows "untouched {segPath (active l)} w w'"
proof -
  obtain i where i: "segFile (active l) = Some i" "map_of (dents w) (segPath (active l)) = Some i"
    using assms(2) by (auto simp: handle_ok_def)
  have "untouched {segPath (active l)} w (snd (call i w))"
    using only_ino_untouched [OF assms(1) assms(3) i(2)] .
  then show ?thesis
    using assms(4) i untouched_refl [OF assms(1)] by (auto simp: on_handle_def split: if_splits)
qed

lemma on_handle_name:
  assumes "fs_ok w" and "handle_ok l w" and "\<And>i w. only_ino i w (snd (call i w))"
    and "on_handle (active l) call w = (r, w')"
  shows "dents w' = dents w \<and> sdents w' = sdents w"
proof -
  have "dents (snd (call i w)) = dents w \<and> sdents (snd (call i w)) = sdents w" for i
    using assms(3) [of i w] by (simp add: only_ino_def)
  then show ?thesis
    using assms(2,4) by (auto simp: on_handle_def handle_ok_def split: if_splits) (metis snd_conv)+
qed

text \<open>A sync touches no data, and makes it durable when it succeeds.\<close>

lemma on_handle_sync:
  assumes "on_handle s file_sync w = (r, w')"
  shows "data w' = data w \<and> dents w' = dents w \<and> sdents w' = sdents w \<and> nextIno w' = nextIno w
     \<and> (case r of Inl _ \<Rightarrow> stable w' = stable w
        | Inr _ \<Rightarrow> \<exists>i. segFile s = Some i \<and> stable w' = (stable w)(i := data w i))"
  using assms by (auto simp: on_handle_def file_sync_def split: option.splits if_splits fault.splits)

lemma on_handle_close:
  assumes "on_handle s file_close w = (r, w')"
  shows "data w' = data w \<and> dents w' = dents w \<and> sdents w' = sdents w \<and> nextIno w' = nextIno w
     \<and> stable w' = stable w"
  using assms by (auto simp: on_handle_def file_close_def split: option.splits if_splits fault.splits)

lemma handle_ok_same_names: "handle_ok l w \<Longrightarrow> dents w' = dents w \<Longrightarrow> handle_ok l w'"
  by (simp add: handle_ok_def)

lemma fs_ok_same_names:
  "fs_ok w \<Longrightarrow> dents w' = dents w \<Longrightarrow> sdents w' = sdents w \<Longrightarrow> nextIno w' = nextIno w \<Longrightarrow> fs_ok w'"
  by (simp add: fs_ok_def)

text \<open>Same names and data: everything but durability is as before.\<close>

lemma segs_hold_same: "segs_hold l w pss \<Longrightarrow> dents w' = dents w \<Longrightarrow> data w' = data w \<Longrightarrow> segs_hold l w' pss"
proof -
  assume "segs_hold l w pss" and "dents w' = dents w" and "data w' = data w"
  moreover from this have "seg_holds m w' = seg_holds m w" "seg_exact w' = seg_exact w" for m
    by (simp_all add: seg_holds_def seg_exact_def fun_eq_iff)
  ultimately show ?thesis by (simp add: segs_hold_def)
qed

lemma tail_clean_same: "tail_clean l w \<Longrightarrow> dents w' = dents w \<Longrightarrow> data w' = data w \<Longrightarrow> tail_clean l w'"
  by (simp add: tail_clean_def)

subsection \<open>Durability of the whole log\<close>

definition log_durable :: "log \<Rightarrow> fs \<Rightarrow> bool" where
  "log_durable l w \<longleftrightarrow> list_all (seg_durable w) (segs l)"

lemma log_durable_kept:
  "log_durable l w \<Longrightarrow> untouched P w w' \<Longrightarrow> kept P w w' \<Longrightarrow> (\<And>s. s \<in> set (segs l) \<Longrightarrow> segPath s \<notin> P) \<Longrightarrow>
   log_durable l w'"
  using seg_durable_kept by (auto simp: log_durable_def list_all_iff)

lemma tail_clean_exact: "tail_clean l w \<Longrightarrow> seg_exact w (active l)"
  by (auto simp: tail_clean_def seg_exact_def)

lemma log_durable_untouched:
  assumes "log_durable l w" and "segs_hold l w pss" and "tail_clean l w" and "untouched P w w'"
    and "\<And>s. s \<in> set (segs l) \<Longrightarrow> segPath s \<notin> P"
  shows "log_durable l w'"
proof -
  have "seg_exact w s" if "s \<in> set (segs l)" for s
  proof -
    have "s \<in> set (butlast (segs l) @ [active l])" using that segs_split [OF assms(2)] by metis
    then show ?thesis using assms(2) tail_clean_exact [OF assms(3)] by (auto simp: segs_hold_def list_all_iff)
  qed
  then show ?thesis
    using assms seg_durable_untouched [OF _ _ assms(4)] by (auto simp: log_durable_def list_all_iff)
qed

subsection \<open>Rotation\<close>

text \<open>
  The rotation either leaves the list of segments as it is, possibly with the handle of the active
  one closed, or seals the active segment and makes a new, empty one the active segment. Either way
  no record moves.
\<close>

lemma on_handle_sync_untouched:
  "fs_ok w \<Longrightarrow> handle_ok l w \<Longrightarrow> on_handle (active l) file_sync w = (r, w') \<Longrightarrow> untouched P w w'"
  using file_sync_untouched [of w "segPath (active l)" _ P]
  by (auto simp: on_handle_def handle_ok_def untouched_refl split: option.splits if_splits)

lemma on_handle_close_untouched:
  "fs_ok w \<Longrightarrow> on_handle s file_close w = (r, w') \<Longrightarrow> untouched P w w'"
  using file_close_untouched [of w P]
  by (auto simp: on_handle_def untouched_refl split: option.splits if_splits) (metis snd_conv)

text \<open>The state of a handle is no part of what a segment holds.\<close>

lemma seg_holds_handle [simp]:
  "seg_holds m w (s\<lparr>segFile := x\<rparr>) ps = seg_holds m w s ps"
  "seg_holds m w (s\<lparr>segShut := y\<rparr>) ps = seg_holds m w s ps"
  "seg_exact w (s\<lparr>segFile := x\<rparr>) = seg_exact w s" "seg_exact w (s\<lparr>segShut := y\<rparr>) = seg_exact w s"
  "seg_durable w (s\<lparr>segFile := x\<rparr>) = seg_durable w s"
  "seg_durable w (s\<lparr>segShut := y\<rparr>) = seg_durable w s"
  "seg_end (s\<lparr>segFile := x\<rparr>) = seg_end s" "seg_end (s\<lparr>segShut := y\<rparr>) = seg_end s"
  "lastLSN (s\<lparr>segFile := x\<rparr>) = lastLSN s" "lastLSN (s\<lparr>segShut := y\<rparr>) = lastLSN s"
  "seg_entries (s\<lparr>segFile := x\<rparr>) ps = seg_entries s ps" "seg_entries (s\<lparr>segShut := y\<rparr>) ps = seg_entries s ps"
  by (simp_all add: seg_holds_def seg_exact_def seg_durable_def seg_end_def lastLSN_def seg_entries_def)

lemma tail_clean_untouched:
  assumes "tail_clean l w" and "untouched P w w'" and "segPath (active l) \<notin> P"
  shows "tail_clean l w'"
  using assms untouched_name [OF assms(2,3)] untouched_data [OF assms(2,3)] by (auto simp: tail_clean_def)

lemma tail_prefix_untouched:
  assumes "tail_prefix l w" and "untouched P w w'" and "segPath (active l) \<notin> P"
  shows "tail_prefix l w'"
  using assms untouched_name [OF assms(2,3)] untouched_data [OF assms(2,3)] unfolding tail_prefix_def by metis

lemma butlast_durable:
  assumes "segs_hold l w pss" and "untouched {segPath (active l)} w w'" and "log_durable l w"
  shows "list_all (seg_durable w') (butlast (segs l))"
  using assms(1,3) seg_durable_untouched [OF _ _ assms(2)] butlast_below [OF assms(1)]
  by (auto simp: log_durable_def segs_hold_def list_all_iff dest: in_set_butlastD)

lemma set_active_id: "segs l \<noteq> [] \<Longrightarrow> set_active (active l) l = l"
  by (simp add: set_active_def active_def)

text \<open>What a rotation leaves behind in every case: only the new name was touched.\<close>

lemma rotateSegment_untouched:
  assumes r: "rotateSegment first l w = (err, l', w')" and ok: "fs_ok w" and ho: "handle_ok l w"
    and np: "segPath (active l) \<noteq> segmentName first (first - 1)"
  shows "untouched {segmentName first (first - 1)} w w'"
proof -
  let ?P = "{segmentName first (first - 1)}"
  obtain r1 w1 where c: "createSegment first (first - 1) w = (r1, w1)" by fastforce
  obtain r2 w2 where s: "on_handle (active l) file_sync w1 = (r2, w2)" by fastforce
  obtain r3 w3 where cl: "on_handle (active l) file_close w2 = (r3, w3)" by fastforce
  note out = createSegment_outcome [OF ok c]
  then have u1: "untouched ?P w w1" by blast
  have "handle_ok l w1" using ho untouched_name [OF u1, of "segPath (active l)"] np by (simp add: handle_ok_def)
  then have u2: "untouched ?P w w2"
    using untouched_trans_same [OF u1 on_handle_sync_untouched [OF untouched_ok [OF u1] _ s]] by blast
  have u3: "untouched ?P w w3"
    using untouched_trans_same [OF u2 on_handle_close_untouched [OF untouched_ok [OF u2] cl]] .
  have d: "untouched ?P w (snd (discard nx x))" if "untouched ?P w x" "r1 = Inr nx" for nx x
    using untouched_trans_same [OF that(1)] discard_untouched [OF untouched_ok [OF that(1)], of nx]
      out that(2) by (auto simp: newSegment_def)
  from r show ?thesis
    using u1 u3 d [OF u2] d [OF u3]
    by (auto simp: rotateSegment_def c s cl split: sum.splits)
qed

lemma rotateSegment_fail:
  assumes r: "rotateSegment first l w = (Some e, l', w')"
  shows "l' = l \<or> l' = set_active ((active l)\<lparr>segShut := True\<rparr>) l"
  using r by (auto simp: rotateSegment_def split: prod.splits sum.splits)

lemma rotateSegment_ok:
  assumes r: "rotateSegment first l w = (None, l', w')" and ok: "fs_ok w"
    and path: "segPath (active l) \<noteq> segmentName first (first - 1)"
  shows "\<exists>i. l' = l\<lparr>segs := butlast (segs l) @ [(active l)\<lparr>segFile := None\<rparr>, newSegment first (first - 1) i]\<rparr>
     \<and> map_of (dents w') (segmentName first (first - 1)) = Some i \<and> data w' i = []
     \<and> stable w' i = [] \<and> sdents w' = dents w'"
proof -
  let ?p = "segmentName first (first - 1)"
  obtain nx w1 where c: "createSegment first (first - 1) w = (Inr nx, w1)"
    using r by (auto simp: rotateSegment_def split: prod.splits sum.splits)
  obtain u2 w2 where s: "on_handle (active l) file_sync w1 = (Inr u2, w2)"
    using r c by (auto simp: rotateSegment_def split: prod.splits sum.splits)
  obtain u3 where cl: "on_handle (active l) file_close w2 = (Inr u3, w')"
    and l': "l' = l\<lparr>segs := butlast (segs l) @ [(active l)\<lparr>segFile := None\<rparr>, nx]\<rparr>"
    using r c s by (auto simp: rotateSegment_def split: prod.splits sum.splits)
  obtain i where i: "nx = newSegment first (first - 1) i" "map_of (dents w1) ?p = Some i"
      "data w1 i = []" "stable w1 i = []" "sdents w1 = dents w1"
    using createSegment_outcome [OF ok c] by auto
  show ?thesis
    using i l' on_handle_sync [OF s] on_handle_close [OF cl] by (intro exI [of _ i]) auto
qed

text \<open>
  The conditions every part of a commit round keeps: the files hold certain records, the handle
  belongs to the active segment's file, and the numbering continues at \<open>n\<close>.
\<close>

definition disk_ok :: "log \<Rightarrow> fs \<Rightarrow> (nat \<times> bytes) list \<Rightarrow> nat \<Rightarrow> bool" where
  "disk_ok l w cs n \<longleftrightarrow> fs_ok w \<and> handle_ok l w \<and> tail_prefix l w \<and> seg_end (active l) = n
     \<and> (\<exists>pss. segs_hold l w pss \<and> contents (segs l) pss = cs)"

text \<open>What a round may change of the log: its list of segments, and in that not where it starts.\<close>

definition only_segs :: "log \<Rightarrow> log \<Rightarrow> bool" where
  "only_segs l l' \<longleftrightarrow> l' = l\<lparr>segs := segs l'\<rparr> \<and> baseLSN (hd (segs l')) = baseLSN (hd (segs l))
     \<and> prevEnd (hd (segs l')) = prevEnd (hd (segs l))"

lemma only_segs_refl [simp]: "only_segs l l"
  by (simp add: only_segs_def)

lemma only_segs_trans: "only_segs l l' \<Longrightarrow> only_segs l' l'' \<Longrightarrow> only_segs l l''"
  unfolding only_segs_def by (metis (no_types, lifting) log.surjective log.update_convs(3))

lemma only_segs_fields:
  assumes "only_segs l l'"
  shows "opts l' = opts l" "nextLSN l' = nextLSN l" "firstLSN l' = firstLSN l" "reserved l' = reserved l"
    "pending l' = pending l" "pendingMin l' = pendingMin l" "pendingMax l' = pendingMax l"
    "durable l' = durable l" "closed l' = closed l" "cur l' = cur l" "inflight l' = inflight l"
    "rounds l' = rounds l" "nextRound l' = nextRound l" "failErr l' = failErr l" "broken l' = broken l"
    "closeErr l' = closeErr l" "logID l' = logID l" "baseLSN (hd (segs l')) = baseLSN (hd (segs l))"
    "prevEnd (hd (segs l')) = prevEnd (hd (segs l))"
proof -
  obtain ss where ss: "l' = l\<lparr>segs := ss\<rparr>" using assms by (auto simp: only_segs_def)
  show "opts l' = opts l" "nextLSN l' = nextLSN l" "firstLSN l' = firstLSN l" "reserved l' = reserved l"
    "pending l' = pending l" "pendingMin l' = pendingMin l" "pendingMax l' = pendingMax l"
    "durable l' = durable l" "closed l' = closed l" "cur l' = cur l" "inflight l' = inflight l"
    "rounds l' = rounds l" "nextRound l' = nextRound l" "failErr l' = failErr l" "broken l' = broken l"
    "closeErr l' = closeErr l" "logID l' = logID l"
    by (simp_all add: ss)
  show "baseLSN (hd (segs l')) = baseLSN (hd (segs l))" "prevEnd (hd (segs l')) = prevEnd (hd (segs l))"
    using assms by (simp_all add: only_segs_def)
qed

lemma only_segs_set_active:
  assumes "segs l \<noteq> []" and "baseLSN s = baseLSN (active l)" and "prevEnd s = prevEnd (active l)"
  shows "only_segs l (set_active s l)"
proof -
  have "hd (butlast (segs l) @ [s]) = (if butlast (segs l) = [] then s else hd (butlast (segs l)))"
    by simp
  moreover have "hd (segs l) = (if butlast (segs l) = [] then active l else hd (butlast (segs l)))"
    using assms(1) by (metis active_def append_butlast_last_id hd_append list.sel(1))
  ultimately show ?thesis
    using assms by (auto simp: only_segs_def set_active_def)
qed

lemma log_durable_parts:
  "segs l \<noteq> [] \<Longrightarrow> log_durable l w \<longleftrightarrow> list_all (seg_durable w) (butlast (segs l)) \<and> seg_durable w (active l)"
proof -
  assume "segs l \<noteq> []"
  then have "segs l = butlast (segs l) @ [active l]" by (simp add: active_def)
  then have "log_durable l w \<longleftrightarrow> list_all (seg_durable w) (butlast (segs l) @ [active l])"
    unfolding log_durable_def by metis
  then show ?thesis by simp
qed

lemma contents_split:
  assumes "segs_hold l w pss"
  shows "contents (segs l) pss = contents (butlast (segs l)) (butlast pss) @ seg_entries (active l) (last pss)"
proof -
  have "length (butlast (segs l)) = length (butlast pss)"
    using assms list_all2_lengthD [of _ "segs l" pss] by (auto simp: segs_hold_def)
  then have "contents (butlast (segs l) @ [active l]) (butlast pss @ [last pss]) =
      contents (butlast (segs l)) (butlast pss) @ seg_entries (active l) (last pss)"
    by (simp add: contents_append)
  then show ?thesis using segs_split [OF assms] by metis
qed

lemma rotateSegment_keeps_fail:
  assumes r: "rotateSegment first l w = (Some e, l', w')" and d: "disk_ok l w cs n"
    and tc: "tail_clean l w" and first: "unat (baseLSN (active l)) < unat first"
  shows "disk_ok l' w' cs n \<and> only_segs l l' \<and> (log_durable l w \<longrightarrow> log_durable l' w')"
proof -
  obtain pss where h: "segs_hold l w pss" and cs: "contents (segs l) pss = cs" and ok: "fs_ok w"
    and ho: "handle_ok l w" and n: "seg_end (active l) = n"
    using d by (auto simp: disk_ok_def)
  have np: "\<And>s. s \<in> set (segs l) \<Longrightarrow> segPath s \<notin> {segmentName first (first - 1)}"
    using fresh_path [OF h _ first] by blast
  have ne: "segs l \<noteq> []" using h by (simp add: segs_hold_def)
  then have act: "active l \<in> set (segs l)" by (simp add: active_def)
  have u: "untouched {segmentName first (first - 1)} w w'"
    using rotateSegment_untouched [OF r ok ho] np [OF act] by blast
  have h': "segs_hold l w' pss" using segs_hold_untouched [OF h u np] .
  have ho': "handle_ok l w'" using ho untouched_name [OF u np [OF act]] by (simp add: handle_ok_def)
  have du: "log_durable l w \<longrightarrow> log_durable l w'" using log_durable_untouched [OF _ h tc u np] by blast
  have ex: "seg_exact w' (active l)"
    using tail_clean_exact [OF tail_clean_untouched [OF tc u np [OF act]]] .
  let ?s = "(active l)\<lparr>segShut := True\<rparr>"
  have "segs_hold (set_active ?s l) w' (butlast pss @ [last pss])"
    using segs_hold_set_active [OF h' untouched_refl [OF untouched_ok [OF u]], of ?s "last pss"]
      segs_hold_active [OF h'] by simp
  then have shut: "segs_hold (set_active ?s l) w' pss" using segs_split [OF h] by simp
  have "contents (segs (set_active ?s l)) pss = cs"
    using contents_split [OF shut] contents_split [OF h'] cs by simp
  moreover have "handle_ok (set_active ?s l) w'" using ho' by (simp add: handle_ok_def)
  moreover have "log_durable l w' \<longrightarrow> log_durable (set_active ?s l) w'"
    using ne by (auto simp: log_durable_parts)
  ultimately show ?thesis
    using rotateSegment_fail [OF r] h' ho' shut cs n du untouched_ok [OF u]
      only_segs_set_active [OF ne, of ?s] ex tail_prefix_exact [of w' l] tail_prefix_exact [of w' "set_active ?s l"]
    by (auto simp: disk_ok_def)
qed

lemma rotateSegment_keeps_ok:
  assumes r: "rotateSegment first l w = (None, l', w')" and d: "disk_ok l w cs n"
    and tc: "tail_clean l w" and first: "unat (baseLSN (active l)) < unat first" "n = unat first"
  shows "disk_ok l' w' cs n \<and> only_segs l l' \<and> tail_clean l' w' \<and> segSize (active l') = 0
     \<and> (log_durable l w \<longrightarrow> log_durable l' w')"
proof -
  obtain pss where h: "segs_hold l w pss" and cs: "contents (segs l) pss = cs" and ok: "fs_ok w"
    and ho: "handle_ok l w" and n: "seg_end (active l) = n"
    using d by (auto simp: disk_ok_def)
  have np: "\<And>s. s \<in> set (segs l) \<Longrightarrow> segPath s \<notin> {segmentName first (first - 1)}"
    using fresh_path [OF h _ first(1)] by blast
  have ne: "segs l \<noteq> []" using h by (simp add: segs_hold_def)
  then have act: "active l \<in> set (segs l)" by (simp add: active_def)
  have u: "untouched {segmentName first (first - 1)} w w'"
    using rotateSegment_untouched [OF r ok ho] np [OF act] by blast
  obtain i where l': "l' = l\<lparr>segs := butlast (segs l) @ [(active l)\<lparr>segFile := None\<rparr>, newSegment first (first - 1) i]\<rparr>"
    and i: "map_of (dents w') (segmentName first (first - 1)) = Some i" "data w' i = []" "stable w' i = []"
    and sd: "sdents w' = dents w'"
    using rotateSegment_ok [OF r ok] np [OF act] by auto
  let ?a = "(active l)\<lparr>segFile := None\<rparr>" and ?n = "newSegment first (first - 1) i"
  have h': "segs_hold l w' pss" using segs_hold_untouched [OF h u np] .
  have "segs_hold (set_active ?a l) w' (butlast pss @ [last pss])"
    using segs_hold_set_active [OF h' untouched_refl [OF untouched_ok [OF u]], of ?a "last pss"]
      segs_hold_active [OF h'] by simp
  then have sealed: "segs_hold (set_active ?a l) w' pss" using segs_split [OF h] by simp
  have sl: "segs l' = segs (set_active ?a l) @ [?n]" and al: "active l' = ?n" by (simp_all add: l' active_def)
  have "lastLSN (active l) = first - 1"
    using seg_holds_lastLSN [OF segs_hold_active [OF h]] n first by (simp add: word_eq_unat unat_minus_one_u64)
  then have "chained (segs l')"
    using sealed first n unfolding sl
    by (subst chained_append) (auto simp: segs_hold_def newSegment_def)
  moreover have "seg_holds (maxRecord l) w' ?n []"
    using i first by (auto simp: seg_holds_def newSegment_def)
  moreover have "list_all2 (seg_holds (maxRecord l) w') (segs l') (pss @ [[]])"
    using sealed calculation(2) unfolding sl segs_hold_def
    by (simp only: list_all2_snoc set_active_same simp_thms)
  moreover have "list_all (seg_exact w') (segs (set_active ?a l))"
    using h' tail_clean_exact [OF tail_clean_untouched [OF tc u np [OF act]]] by (simp add: segs_hold_def)
  ultimately have holds: "segs_hold l' w' (pss @ [[]])"
    using l' unfolding segs_hold_def sl by (simp add: butlast_append)
  have len: "length (segs (set_active ?a l)) = length pss"
    using sealed list_all2_lengthD unfolding segs_hold_def by blast
  have "contents (segs l') (pss @ [[]]) = contents (segs (set_active ?a l)) pss"
    unfolding sl by (subst contents_append [OF len]) simp
  also have "\<dots> = cs"
    using contents_split [OF sealed] contents_split [OF h'] cs by simp
  finally have "contents (segs l') (pss @ [[]]) = cs" .
  moreover have "log_durable l w \<longrightarrow> log_durable l' w'"
  proof
    assume "log_durable l w"
    then have "log_durable l w'" using log_durable_untouched [OF _ h tc u np] by blast
    then have "log_durable (set_active ?a l) w'" using ne by (simp add: log_durable_parts)
    moreover have "seg_durable w' ?n" using sd i by (simp add: seg_durable_def newSegment_def)
    ultimately show "log_durable l' w'" unfolding log_durable_def sl by simp
  qed
  moreover have "only_segs l l'"
    using only_segs_set_active [OF ne, of ?a] unfolding only_segs_def sl
    by (cases "butlast (segs l)") (simp_all add: l')
  ultimately show ?thesis
    using holds untouched_ok [OF u] i first n
    by (auto simp: disk_ok_def handle_ok_def tail_clean_def al newSegment_def seg_end_def
        intro!: tail_prefix_exact simp: seg_exact_def)
qed

subsection \<open>Writing a round\<close>

text \<open>Appending to the active segment's file, in whole or in part, leaves the published records where
  they are.\<close>

lemma disk_ok_appended:
  assumes d: "disk_ok l w cs n" and w': "only_ino i w w'" "segFile (active l) = Some i"
    and tc: "tail_clean l w" and t: "data w' i = data w i @ t" and st: "stable w' i = stable w i"
    and buf: "t @ u = frames qs" "list_all (\<lambda>p. length p \<le> maxRecord l) qs"
  shows "disk_ok l w' cs n \<and> (log_durable l w \<longrightarrow> log_durable l w')"
proof -
  obtain pss where h: "segs_hold l w pss" and cs: "contents (segs l) pss = cs" and ok: "fs_ok w"
    and ho: "handle_ok l w" and n: "seg_end (active l) = n"
    using d by (auto simp: disk_ok_def)
  have i: "map_of (dents w) (segPath (active l)) = Some i" "length (data w i) = segSize (active l)"
    using tc w'(2) by (auto simp: tail_clean_def)
  have dn: "dents w' = dents w" "sdents w' = sdents w" using w'(1) by (auto simp: only_ino_def)
  have u: "untouched {segPath (active l)} w w'" using only_ino_untouched [OF ok w'(1) i(1)] .
  have sh: "seg_holds (maxRecord l) w' (active l) (last pss)"
    using segs_hold_active [OF h] i dn t by (auto simp: seg_holds_def)
  have "segs_hold (set_active (active l) l) w' (butlast pss @ [last pss])"
    using segs_hold_set_active [OF h u sh] by simp
  then have "segs_hold l w' pss"
    using segs_split [OF h] set_active_id h by (simp add: segs_hold_def)
  moreover have "log_durable l w'" if du: "log_durable l w"
  proof -
    have ne: "segs l \<noteq> []" using h by (simp add: segs_hold_def)
    moreover have "seg_durable w' (active l)"
      using du i t st dn by (auto simp: log_durable_parts ne seg_durable_def)
    ultimately show ?thesis using butlast_durable [OF h u du] by (simp add: log_durable_parts)
  qed
  moreover have "tail_prefix l w'"
    using i dn t buf by (intro tail_prefixI [of _ _ i]) auto
  ultimately show ?thesis
    using cs n ho dn only_ino_fs_ok [OF w'(1)] ok by (auto simp: disk_ok_def handle_ok_def)
qed

text \<open>The write of a round to a clean tail: on success its records are published, on failure nothing is.\<close>

lemma write_then_sync:
  assumes tc: "tail_clean l w" and a: "appendRound buf n l w = (err, l', w')"
  obtains i t where "segFile (active l) = Some i" "only_ino i w w'" "data w' i = data w i @ t"
    "\<exists>k. t = take k buf" "err \<noteq> None \<Longrightarrow> stable w' i = stable w i"
    "err = None \<Longrightarrow> t = buf \<and> (SyncMode (opts l) \<noteq> SyncNever \<longrightarrow> stable w' i = data w' i)
       \<and> l' = set_active ((active l)\<lparr>segSize := segSize (active l) + length buf,
                                      segCount := segCount (active l) + n\<rparr>) l"
    "err \<noteq> None \<Longrightarrow> l' = l"
proof -
  obtain i where i: "segFile (active l) = Some i" "\<not> segShut (active l)" using tc by (auto simp: tail_clean_def)
  obtain r2 w2 where wr: "file_write i buf w = (r2, w2)" by fastforce
  obtain r3 w3 where sy: "file_sync i w2 = (r3, w3)" by fastforce
  have o2: "only_ino i w w2" using file_write_only [of i w buf] wr by simp
  have o3: "only_ino i w w3" using only_ino_trans [OF o2] file_sync_only [of i w2] sy by simp
  obtain t where t: "data w2 i = data w i @ t" "stable w2 = stable w" "\<forall>u. r2 = Inr u \<longrightarrow> t = buf"
      "\<exists>k. t = take k buf"
    using wr by (auto simp: file_write_def split: option.splits fault.splits) (metis take_all_iff le_refl, blast)
  have s: "data w3 = data w2" "\<forall>e. r3 = Inl e \<longrightarrow> stable w3 = stable w2"
      "\<forall>u. r3 = Inr u \<longrightarrow> stable w3 i = data w2 i"
    using sy by (auto simp: file_sync_def split: option.splits fault.splits)
  show thesis
  proof (cases "\<exists>u. r2 = Inr u \<and> SyncMode (opts l) \<noteq> SyncNever")
    case True
    then have "w' = w3"
      using a by (auto simp: appendRound_def on_handle_def i wr sy split: sum.splits)
    then show thesis
      using that [of i t] True i o3 t s a
      by (auto simp: appendRound_def on_handle_def wr sy split: sum.splits)
  next
    case False
    then have "w' = w2"
      using a by (auto simp: appendRound_def on_handle_def i wr sy split: sum.splits)
    then show thesis
      using that [of i t] False i o2 t a
      by (auto simp: appendRound_def on_handle_def wr sy split: sum.splits)
  qed
qed

lemma appendRound_fail:
  assumes a: "appendRound (frames qs) n l w = (Some e, l', w')" and d: "disk_ok l w cs k" and tc: "tail_clean l w"
    and qs: "list_all (\<lambda>p. length p \<le> maxRecord l) qs"
  shows "l' = l \<and> disk_ok l w' cs k \<and> (log_durable l w \<longrightarrow> log_durable l w')"
proof -
  obtain i t where i: "segFile (active l) = Some i" "only_ino i w w'" "data w' i = data w i @ t"
      "\<exists>k. t = take k (frames qs)" "stable w' i = stable w i" "l' = l"
    using write_then_sync [OF tc a] by (metis option.simps(3))
  then obtain u where "t @ u = frames qs" by (metis append_take_drop_id)
  from disk_ok_appended [OF d i(2,1) tc i(3,5) this qs] i(6) show ?thesis by simp
qed

lemma appendRound_ok:
  assumes a: "appendRound (frames qs) (of_nat (length qs)) l w = (None, l', w')"
    and d: "disk_ok l w cs k" and tc: "tail_clean l w"
    and qs: "list_all (\<lambda>p. length p \<le> maxRecord l) qs" "k + length qs < 2 ^ 64"
  shows "disk_ok l' w' (cs @ numbered k qs) (k + length qs) \<and> tail_clean l' w' \<and> only_segs l l'
     \<and> unat (baseLSN (active l')) \<le> k
     \<and> (log_durable l w \<and> SyncMode (opts l) \<noteq> SyncNever \<longrightarrow> log_durable l' w')"
proof -
  obtain pss where h: "segs_hold l w pss" and cs: "contents (segs l) pss = cs" and ok: "fs_ok w"
    and k: "seg_end (active l) = k"
    using d by (auto simp: disk_ok_def)
  let ?s = "(active l)\<lparr>segSize := segSize (active l) + length (frames qs),
      segCount := segCount (active l) + of_nat (length qs)\<rparr>"
  obtain i where i: "segFile (active l) = Some i" and o: "only_ino i w w'"
    and dt: "data w' i = data w i @ frames qs"
    and st: "SyncMode (opts l) \<noteq> SyncNever \<longrightarrow> stable w' i = data w' i" and l': "l' = set_active ?s l"
    using write_then_sync [OF tc a] by (metis (no_types, lifting))
  have m: "map_of (dents w) (segPath (active l)) = Some i" "length (data w i) = segSize (active l)"
      "\<not> segShut (active l)"
    using tc i by (auto simp: tail_clean_def)
  have dn: "dents w' = dents w" "sdents w' = sdents w" using o by (auto simp: only_ino_def)
  have u: "untouched {segPath (active l)} w w'" using only_ino_untouched [OF ok o m(1)] .
  note sh = segs_hold_active [OF h]
  have e: "k = unat (baseLSN (active l)) + length (last pss)" using seg_holds_end [OF sh] k by simp
  have sh': "seg_holds (maxRecord l) w' ?s (last pss @ qs)"
    using sh m dn dt qs e by (auto simp: seg_holds_def)
  have h': "segs_hold l' w' (butlast pss @ [last pss @ qs])"
    using segs_hold_set_active [OF h u sh'] by (simp add: l')
  have ne: "segs l \<noteq> []" using h by (simp add: segs_hold_def)
  have "contents (segs l') (butlast pss @ [last pss @ qs]) = cs @ numbered k qs"
    using contents_split [OF h'] contents_split [OF h] cs e
    by (simp add: l' seg_entries_append) (simp add: seg_entries_def)
  moreover have "log_durable l' w'" if du: "log_durable l w" "SyncMode (opts l) \<noteq> SyncNever"
  proof -
    have "seg_durable w' ?s"
      using du m st dn dt by (auto simp: log_durable_parts ne seg_durable_def)
    then show ?thesis using butlast_durable [OF h u du(1)] by (simp add: log_durable_parts l')
  qed
  moreover have "seg_end (active l') = k + length qs"
    using seg_holds_end [OF sh'] e by (simp add: l')
  ultimately show ?thesis
    using h' ok only_ino_fs_ok [OF o] only_segs_set_active [OF ne, of ?s] i m dn dt e
    by (auto simp: disk_ok_def handle_ok_def tail_clean_def l' intro!: tail_prefix_exact simp: seg_exact_def)
qed

lemma size_pos_count:
  assumes "seg_holds m w s ps" and "segSize s > 0" shows "unat (baseLSN s) < seg_end s"
  using assms seg_holds_end [OF assms(1)] by (cases ps) (auto simp: seg_holds_def)

text \<open>The whole of \<^verbatim>\<open>writeBatch\<close>.\<close>

lemma writeBatch_same_segment:
  "\<not> (segSize (active l) > 0 \<and> int (segSize (active l)) + int (length buf) > MaxSegmentBytes (opts l)) \<Longrightarrow>
   writeBatch buf first n l w = appendRound buf n l w"
  unfolding writeBatch_def Let_def by (simp only: if_False prod.case option.case)

lemma writeBatch_ok:
  assumes w: "writeBatch (frames qs) first (of_nat (length qs)) l w = (None, l', w')"
    and d: "disk_ok l w cs k" and tc: "tail_clean l w" and first: "unat first = k"
    and qs: "list_all (\<lambda>p. length p \<le> maxRecord l) qs" "k + length qs < 2 ^ 64"
  shows "disk_ok l' w' (cs @ numbered k qs) (k + length qs) \<and> tail_clean l' w' \<and> only_segs l l'
     \<and> unat (baseLSN (active l')) \<le> k
     \<and> (log_durable l w \<and> SyncMode (opts l) \<noteq> SyncNever \<longrightarrow> log_durable l' w')"
proof (cases "segSize (active l) > 0
    \<and> int (segSize (active l)) + int (length (frames qs)) > MaxSegmentBytes (opts l)")
  case False
  from w [unfolded writeBatch_same_segment [OF False]] show ?thesis by (rule appendRound_ok [OF _ d tc qs])
next
  case True
  obtain pss where h: "segs_hold l w pss" using d by (auto simp: disk_ok_def)
  have lt: "unat (baseLSN (active l)) < unat first"
    using size_pos_count [OF segs_hold_active [OF h]] True first d by (simp add: disk_ok_def)
  obtain l1 w1 where r: "rotateSegment first l w = (None, l1, w1)"
    and a: "appendRound (frames qs) (of_nat (length qs)) l1 w1 = (None, l', w')"
    using w True by (auto simp: writeBatch_def split: prod.splits option.splits)
  have k: "disk_ok l1 w1 cs k" "only_segs l l1" "tail_clean l1 w1" "log_durable l w \<longrightarrow> log_durable l1 w1"
    using rotateSegment_keeps_ok [OF r d tc lt] first by auto
  have o: "opts l1 = opts l" using k(2) unfolding only_segs_def by (metis log.select_convs(1) log.surjective log.update_convs(3))
  from appendRound_ok [OF a k(1,3)] qs k(2,4) show ?thesis
    using only_segs_trans by (auto simp: o)
qed

lemma writeBatch_fail:
  assumes w: "writeBatch (frames qs) first n l w = (Some e, l', w')"
    and d: "disk_ok l w cs k" and tc: "tail_clean l w" and first: "unat first = k"
    and qs: "list_all (\<lambda>p. length p \<le> maxRecord l) qs"
  shows "disk_ok l' w' cs k \<and> only_segs l l' \<and> (log_durable l w \<longrightarrow> log_durable l' w')"
proof (cases "segSize (active l) > 0
    \<and> int (segSize (active l)) + int (length (frames qs)) > MaxSegmentBytes (opts l)")
  case False
  from appendRound_fail [OF w [unfolded writeBatch_same_segment [OF False]] d tc qs] show ?thesis by auto
next
  case True
  obtain pss where h: "segs_hold l w pss" using d by (auto simp: disk_ok_def)
  have lt: "unat (baseLSN (active l)) < unat first"
    using size_pos_count [OF segs_hold_active [OF h]] True first d by (simp add: disk_ok_def)
  obtain err l1 w1 where r: "rotateSegment first l w = (err, l1, w1)" by (metis prod_cases3)
  show ?thesis
  proof (cases err)
    case None
    then have a: "appendRound (frames qs) n l1 w1 = (Some e, l', w')"
      using w True r by (auto simp: writeBatch_def)
    have k: "disk_ok l1 w1 cs k" "only_segs l l1" "tail_clean l1 w1" "log_durable l w \<longrightarrow> log_durable l1 w1"
      using rotateSegment_keeps_ok [OF _ d tc lt] r None first by auto
    from appendRound_fail [OF a k(1,3)] k qs only_segs_fields(1) [OF k(2)] show ?thesis by auto
  next
    case (Some e')
    then have "l' = l1" "w' = w1" using w True r by (auto simp: writeBatch_def)
    then show ?thesis using rotateSegment_keeps_fail [OF _ d tc lt] r Some by simp
  qed
qed

subsection \<open>Rollback\<close>

text \<open>Rolling back loses no record, and a rollback that reports success leaves a clean tail.\<close>

lemma rollback_keeps:
  assumes r: "rollback l w = (err, w')" and d: "disk_ok l w cs k"
  shows "disk_ok l w' cs k \<and> (err = None \<longrightarrow> tail_clean l w') \<and> (log_durable l w \<longrightarrow> log_durable l w')"
proof -
  obtain pss where h: "segs_hold l w pss" and cs: "contents (segs l) pss = cs" and ok: "fs_ok w"
    and k: "seg_end (active l) = k" and ho: "handle_ok l w"
    using d by (auto simp: disk_ok_def)
  obtain i where i: "segFile (active l) = Some i" "map_of (dents w) (segPath (active l)) = Some i"
    using ho by (auto simp: handle_ok_def)
  note sh = segs_hold_active [OF h]
  have long: "segSize (active l) \<le> length (data w i)"
    using sh i by (auto simp: seg_holds_def) (metis length_take min.cobounded1 nat_le_linear min.absorb_iff2)
  have o: "only_ino i w w'" and dt: "data w' i = data w i \<or> data w' i = take (segSize (active l)) (data w i)"
    and st: "stable w' i = stable w i \<or> stable w' i = take (segSize (active l)) (data w i)"
    and cl: "err = None \<longrightarrow> \<not> segShut (active l) \<and> data w' i = take (segSize (active l)) (data w i)"
    using r i long
    by (auto simp: rollback_def on_handle_def file_truncate_def file_sync_def only_ino_def
        split: if_splits option.splits fault.splits)
  have dn: "dents w' = dents w" "sdents w' = sdents w" using o by (auto simp: only_ino_def)
  have u: "untouched {segPath (active l)} w w'" using only_ino_untouched [OF ok o i(2)] .
  have tk: "take (segSize (active l)) (data w' i) = take (segSize (active l)) (data w i)" using dt by auto
  then have sh': "seg_holds (maxRecord l) w' (active l) (last pss)"
    using sh i dn by (auto simp: seg_holds_def)
  have "segs_hold (set_active (active l) l) w' (butlast pss @ [last pss])"
    using segs_hold_set_active [OF h u sh'] by simp
  then have h': "segs_hold l w' pss"
    using segs_split [OF h] set_active_id h by (simp add: segs_hold_def)
  have ne: "segs l \<noteq> []" using h by (simp add: segs_hold_def)
  have "log_durable l w'" if du: "log_durable l w"
  proof -
    have "seg_durable w' (active l)"
      using du i st dn tk by (auto simp: log_durable_parts ne seg_durable_def)
    then show ?thesis using butlast_durable [OF h u du] by (simp add: log_durable_parts ne)
  qed
  moreover have "err = None \<longrightarrow> tail_clean l w'"
    using cl i dn long by (auto simp: tail_clean_def)
  moreover have "tail_prefix l w'"
  proof (cases "data w' i = data w i")
    case True
    then show ?thesis using d i dn by (simp add: disk_ok_def tail_prefix_def)
  next
    case False
    then have "seg_exact w' (active l)" using dt i dn long by (simp add: seg_exact_def)
    then show ?thesis by (rule tail_prefix_exact)
  qed
  ultimately show ?thesis
    using h' cs k ho dn only_ino_fs_ok [OF o] ok by (auto simp: disk_ok_def handle_ok_def)
qed

subsection \<open>Truncation\<close>

lemma removeDoomed_outcome:
  "fs_ok w \<Longrightarrow> removeDoomed ss r w = (err, r', w') \<Longrightarrow>
   r \<le> r' \<and> r' - r \<le> length ss \<and> untouched (segPath ` set (take (r' - r) ss)) w w' \<and> stable w' = stable w"
proof (induction ss r w rule: removeDoomed.induct)
  case (1 r w)
  then show ?case by (simp add: untouched_refl)
next
  case (2 s ss r w)
  obtain x w1 where x: "remove_file (segPath s) w = (x, w1)" by fastforce
  have u: "untouched {segPath s} w w1" using remove_file_untouched [OF "2.prems"(1), of "segPath s"] x by simp
  have ok: "fs_ok w1" using untouched_ok [OF u] .
  show ?case
  proof (cases "\<exists>e. x = Inl e \<and> e \<noteq> Errno ENOENT")
    case True
    then have "untouched {} w w1"
      using remove_file_cases [OF x] "2.prems"(1) ok by (auto simp: untouched_def)
    with True 2 x show ?thesis using remove_file_cases [OF x] by auto
  next
    case False
    then have rec: "removeDoomed ss (Suc r) w1 = (err, r', w')"
      using "2.prems"(2) x by (auto split: sum.splits if_splits)
    have "Suc r \<le> r' \<and> r' - Suc r \<le> length ss \<and> untouched (segPath ` set (take (r' - Suc r) ss)) w1 w'
        \<and> stable w' = stable w1"
      using "2.IH" x ok rec False by (cases x) auto
    moreover from this have "r' - r = Suc (r' - Suc r)" by linarith
    ultimately show ?thesis
      using untouched_trans [OF u] remove_file_cases [OF x] by auto
  qed
qed

lemma dropCount_less: "ss \<noteq> [] \<Longrightarrow> dropCount lim ss < length ss"
  by (induction lim ss rule: dropCount.induct) auto

lemma dropCount_below: "s \<in> set (take (dropCount lim ss) ss) \<Longrightarrow> lastLSN s < lim"
  by (induction lim ss rule: dropCount.induct) (auto split: if_splits)

lemma contents_take_drop:
  assumes "length ss = length pss"
  shows "contents ss pss = contents (take k ss) (take k pss) @ contents (drop k ss) (drop k pss)"
  using contents_append [of "take k ss" "take k pss" "drop k ss" "drop k pss"] assms by simp

lemma seg_entries_below:
  assumes "seg_holds m w s ps" and "e \<in> set (seg_entries s ps)"
  shows "fst e < seg_end s"
  using assms seg_holds_end [OF assms(1)] by (cases e) (auto simp: seg_entries_def in_numbered)

lemma segs_hold_drop:
  assumes h: "segs_hold l w pss" and k: "k < length (segs l)" and l': "segs l' = drop k (segs l)" "opts l' = opts l"
    and u: "untouched (segPath ` set (take k (segs l))) w w'" "kept (segPath ` set (take k (segs l))) w w'"
  shows "segs_hold l' w' (drop k pss) \<and> active l' = active l \<and> segPath (active l) \<notin> segPath ` set (take k (segs l))
     \<and> (log_durable l w \<longrightarrow> log_durable l' w')"
proof -
  have np: "segPath s \<notin> segPath ` set (take k (segs l))" if "s \<in> set (drop k (segs l))" for s
  proof -
    have "distinct (map segPath (take k (segs l)) @ map segPath (drop k (segs l)))"
      using h chained_paths by (metis append_take_drop_id map_append segs_hold_def)
    then show ?thesis using that by auto
  qed
  have act: "active l' = active l" "active l \<in> set (drop k (segs l))"
    using k l' by (auto simp: active_def) (metis last_drop last_in_set not_less drop_eq_Nil)
  have "list_all2 (seg_holds (maxRecord l) w) (drop k (segs l)) (drop k pss)"
    using h by (simp add: segs_hold_def list_all2_dropI)
  then have "list_all2 (seg_holds (maxRecord l) w') (drop k (segs l)) (drop k pss)"
    using seg_holds_all_untouched [OF _ u(1) np] by blast
  moreover have "list_all (seg_exact w') (butlast (drop k (segs l)))"
    unfolding list_all_iff
  proof
    fix s assume s: "s \<in> set (butlast (drop k (segs l)))"
    then have "s \<in> set (butlast (segs l))" by (metis butlast_drop in_set_dropD)
    then have "seg_exact w s" using h by (simp add: segs_hold_def list_all_iff)
    then show "seg_exact w' s" using seg_exact_untouched [OF _ u(1) np [OF in_set_butlastD [OF s]]] by blast
  qed
  ultimately have "segs_hold l' w' (drop k pss)"
    using h k l' by (simp add: segs_hold_def chained_drop)
  moreover have "log_durable l w \<longrightarrow> log_durable l' w'"
    using seg_durable_kept [OF _ u np]
    by (auto simp: log_durable_def l' list_all_iff dest: in_set_dropD)
  ultimately show ?thesis using act np by blast
qed

text \<open>
  Truncation drops whole segments from the front, all of whose records lie below the limit, and keeps
  every other record and the active segment.
\<close>

text \<open>Truncation removes some of the segments it may remove, from the front.\<close>

lemma truncateLog_shape:
  assumes t: "truncateLog lim l w = (err, l', w')" and h: "segs_hold l w pss" and ok: "fs_ok w"
  shows "\<exists>k b. k \<le> dropCount lim (segs l) \<and> l' = l\<lparr>segs := drop k (segs l), firstLSN := b\<rparr>
     \<and> (b = firstLSN l \<and> k = 0 \<or> b = baseLSN (hd (drop k (segs l))))
     \<and> untouched (segPath ` set (take k (segs l))) w w' \<and> kept (segPath ` set (take k (segs l))) w w'"
proof (cases "take (dropCount lim (segs l)) (segs l) = []")
  case True
  then show ?thesis
    using t untouched_refl [OF ok] by (intro exI [of _ 0] exI [of _ "firstLSN l"]) (auto simp: truncateLog_def kept_same)
next
  case False
  let ?dc = "dropCount lim (segs l)"
  obtain rerr k w1 where r: "removeDoomed (take ?dc (segs l)) 0 w = (rerr, k, w1)" by (metis prod_cases3)
  obtain sr w2 where s: "syncDir w1 = (sr, w2)" by fastforce
  have "segs l \<noteq> []" using h by (simp add: segs_hold_def)
  then have dc: "?dc < length (segs l)" by (rule dropCount_less)
  have k: "k \<le> ?dc" and u1: "untouched (segPath ` set (take k (segs l))) w w1" and st: "stable w1 = stable w"
    using removeDoomed_outcome [OF ok r] by (auto simp: min_absorb1)
  have "k < length (segs l)" using k dc by simp
  then have w': "w' = w1 \<or> w' = w2" and l': "l' = l\<lparr>segs := drop k (segs l), firstLSN := baseLSN (hd (drop k (segs l)))\<rparr>"
    using t False r s by (cases "drop k (segs l)"; auto simp: truncateLog_def Let_def split: option.splits sum.splits)+
  have "untouched (segPath ` set (take k (segs l))) w w2"
    using untouched_trans_same [OF u1] syncDir_untouched [OF untouched_ok [OF u1]] s by (metis snd_conv)
  moreover have "kept (segPath ` set (take k (segs l))) w w'"
    using w' st syncDir_cases [OF s] by (auto intro: kept_same)
  ultimately show ?thesis using k w' l' u1 by blast
qed

lemma truncateLog_outcome:
  assumes t: "truncateLog lim l w = (err, l', w')" and d: "disk_ok l w cs n"
  shows "\<exists>k. k \<le> length cs \<and> disk_ok l' w' (drop k cs) n \<and> (\<forall>e \<in> set (take k cs). fst e < unat lim)
     \<and> (\<forall>e \<in> set (take k cs). fst e < unat (baseLSN (active l)))
     \<and> (\<forall>e \<in> set (take k cs). fst e < unat (baseLSN (hd (segs l'))))
     \<and> unat (baseLSN (hd (segs l))) \<le> unat (baseLSN (hd (segs l')))
     \<and> (\<exists>ss b. l' = l\<lparr>segs := ss, firstLSN := b\<rparr> \<and> (b = firstLSN l \<and> ss = segs l \<or> b = baseLSN (hd ss)))
     \<and> active l' = active l
     \<and> (tail_clean l w \<longrightarrow> tail_clean l' w') \<and> (log_durable l w \<longrightarrow> log_durable l' w')"
proof -
  obtain pss where h: "segs_hold l w pss" and cs: "contents (segs l) pss = cs" and ok: "fs_ok w"
    and n: "seg_end (active l) = n" and ho: "handle_ok l w"
    using d by (auto simp: disk_ok_def)
  let ?dc = "dropCount lim (segs l)"
  obtain k b where k: "k \<le> ?dc" and l': "l' = l\<lparr>segs := drop k (segs l), firstLSN := b\<rparr>"
    and b: "b = firstLSN l \<and> k = 0 \<or> b = baseLSN (hd (drop k (segs l)))"
    and u: "untouched (segPath ` set (take k (segs l))) w w'" and kp: "kept (segPath ` set (take k (segs l))) w w'"
    using truncateLog_shape [OF t h ok] by blast
  have ne: "segs l \<noteq> []" using h by (simp add: segs_hold_def)
  have dc: "?dc < length (segs l)" using dropCount_less [OF ne] .
  have kl: "k < length (segs l)" using k dc by simp
  note hd = segs_hold_drop [OF h kl _ _ u kp, of l']
  have hd: "segs_hold l' w' (drop k pss)" "active l' = active l"
    "segPath (active l) \<notin> segPath ` set (take k (segs l))" "log_durable l w \<longrightarrow> log_durable l' w'"
    using hd by (auto simp: l')
  have len: "length (segs l) = length pss" using h list_all2_lengthD unfolding segs_hold_def by blast
  define m where "m = length (contents (take k (segs l)) (take k pss))"
  have split: "take m cs = contents (take k (segs l)) (take k pss)" "drop m cs = contents (segs l') (drop k pss)"
    "m \<le> length cs"
    using contents_take_drop [OF len, of k] cs by (auto simp: m_def l')
  have hds: "hd (segs l') = segs l ! k" "hd (segs l) = segs l ! 0"
    using kl ne by (simp_all add: l' hd_drop_conv_nth hd_conv_nth)
  have order: "seg_end (segs l ! i) \<le> unat (baseLSN (segs l ! k)) \<and> unat (baseLSN (segs l ! i)) < unat (baseLSN (segs l ! k))"
    if "i < k" for i
    using chained_sorted [of "segs l"] h that kl by (auto simp: segs_hold_def sorted_wrt_iff_nth_less)
  have "fst e < unat lim \<and> fst e < unat (baseLSN (active l)) \<and> fst e < unat (baseLSN (hd (segs l')))" if e: "e \<in> set (take m cs)" for e
  proof -
    obtain i where i: "i < k" "e \<in> set (seg_entries (segs l ! i) (pss ! i))"
      using e len unfolding split(1) contents_def by (auto simp: set_zip)
    have sh: "seg_holds (maxRecord l) w (segs l ! i) (pss ! i)"
      using h i kl by (simp add: segs_hold_def list_all2_conv_all_nth)
    have "segs l ! i \<in> set (take ?dc (segs l))"
      using i k kl by (auto simp: in_set_conv_nth intro!: exI [of _ i])
    then have "unat (lastLSN (segs l ! i)) < unat lim" using dropCount_below by (simp add: word_less_unat)
    moreover have "seg_end (segs l ! i) \<le> unat (baseLSN (active l))"
      using chained_sorted [of "segs l"] h i kl k dc
      by (auto simp: segs_hold_def active_def last_conv_nth sorted_wrt_iff_nth_less)
    ultimately show ?thesis
      using seg_entries_below [OF sh i(2)] seg_holds_lastLSN [OF sh] order [OF i(1)] by (auto simp: hds)
  qed
  moreover have "handle_ok l' w'"
    using ho untouched_name [OF u hd(3)] hd(2) by (simp add: handle_ok_def)
  moreover have "tail_clean l w \<longrightarrow> tail_clean l' w'"
    using tail_clean_untouched [OF _ u hd(3)] hd(2) by (auto simp: tail_clean_def)
  moreover have "tail_prefix l' w'"
    using d tail_prefix_untouched [OF _ u hd(3)] hd(2) by (auto simp: disk_ok_def tail_prefix_def l')
  moreover have "unat (baseLSN (hd (segs l))) \<le> unat (baseLSN (hd (segs l')))"
    using order [of 0] hds by (cases "k = 0") auto
  moreover have "\<exists>ss b. l' = l\<lparr>segs := ss, firstLSN := b\<rparr> \<and> (b = firstLSN l \<and> ss = segs l \<or> b = baseLSN (hd ss))"
    using l' b by (intro exI [of _ "drop k (segs l)"] exI [of _ b]) auto
  ultimately show ?thesis
    using hd split n untouched_ok [OF u] unfolding disk_ok_def by (intro exI [of _ m]) auto
qed

text \<open>The records of the log are in the order of their numbers.\<close>

lemma contents_sorted:
  assumes "list_all2 (seg_holds m w) ss pss" and "chained ss"
  shows "sorted_wrt (<) (map fst (contents ss pss)) \<and> (ss \<noteq> [] \<longrightarrow> (\<forall>e \<in> set (contents ss pss). fst e < seg_end (last ss)))
    \<and> (ss \<noteq> [] \<longrightarrow> (\<forall>e \<in> set (contents ss pss). unat (baseLSN (hd ss)) \<le> fst e))"
  using assms
proof (induction ss arbitrary: pss rule: rev_induct)
  case (snoc s ss)
  then obtain qss ps where pss: "pss = qss @ [ps]" and h: "list_all2 (seg_holds m w) ss qss" "seg_holds m w s ps"
    by (auto simp: list_all2_append1 list_all2_Cons1)
  have c: "contents (ss @ [s]) pss = contents ss qss @ seg_entries s ps"
    using h(1) pss by (simp add: contents_append list_all2_lengthD)
  have ch: "chained ss" using chained_prefix [OF snoc.prems(2)] .
  note ih = snoc.IH [OF h(1) ch]
  have e: "unat (baseLSN s) \<le> fst e \<and> fst e < seg_end s" if "e \<in> set (seg_entries s ps)" for e
    using that seg_holds_end [OF h(2)] in_numbered [of "fst e" "snd e" "unat (baseLSN s)" ps]
    by (simp add: seg_entries_def)
  have "sorted_wrt (<) (map fst (numbered k xs))" for k and xs :: "bytes list"
    by (auto simp: sorted_wrt_iff_nth_less nth_numbered)
  then have srt: "sorted_wrt (<) (map fst (seg_entries s ps))" by (simp add: seg_entries_def)
  show ?case
  proof (cases "ss = []")
    case True
    then show ?thesis using c e srt h(1) by (auto simp: contents_def)
  next
    case False
    then have link: "seg_end (last ss) \<le> unat (baseLSN s)" using snoc.prems(2) by (simp add: chained_append)
    have le: "unat (baseLSN (hd ss)) \<le> seg_end (last ss)"
    proof (cases "contents ss qss")
      case Nil
      have "last ss \<in> set ss" using False by simp
      have "sorted_wrt (\<lambda>s t. unat (baseLSN s) < unat (baseLSN t)) ss"
        using chained_sorted [OF ch] by (auto elim!: sorted_wrt_mono_rel [rotated])
      then have "unat (baseLSN (hd ss)) \<le> unat (baseLSN (last ss))"
        using False by (cases ss) (auto simp: less_imp_le)
      then show ?thesis by (simp add: seg_end_def)
    next
      case (Cons x xs)
      then show ?thesis using ih False by (metis le_less_trans less_imp_le list.set_intros(1) nat_le_linear not_less)
    qed
    have lt: "fst x < fst y" if "x \<in> set (contents ss qss)" "y \<in> set (seg_entries s ps)" for x y
      using ih False that e [OF that(2)] link by fastforce
    have "seg_end (last ss) \<le> seg_end s" using link by (simp add: seg_end_def)
    then show ?thesis
      using c ih srt e False lt link le by (fastforce simp: sorted_wrt_append)
  qed
qed (simp add: contents_def)

end
