(* ===== verification/LogRefinement.thy ===== *)
theory LogRefinement
  imports LogOutcomes
begin

text \<open>
  The log as a state machine, and the proof that it implements the abstract log.

  A state is the \<^verbatim>\<open>Log\<close>, where its committer goroutine is in a commit round, and the disk. The steps
  are the critical sections of the Go code: staging, truncation and checkpointing can come between
  the parts of a round. Every step may meet any pattern of I/O errors. The simulation relation
  \<open>lrel\<close> says which records the files hold, where the pending buffer and the buffer being written
  sit in the numbering, and that the table of rounds agrees.

  The one assumption beside the code is \<open>room\<close>: LSNs are 64 bits wide, and a batch is staged only
  while they do not run out. At a billion records a second that takes centuries.
\<close>

subsection \<open>The state machine\<close>

datatype phase = Idle | Writing job | Settling job "error option" "error option"

type_synonym lstate = "log \<times> phase \<times> fs"

definition room :: "log \<Rightarrow> nat \<Rightarrow> bool" where
  "room l n \<longleftrightarrow> unat (nextLSN l) + n + 2 ^ 20 < 2 ^ 64"

inductive lstep :: "lstate \<Rightarrow> lstate \<Rightarrow> bool" where
  l_append: "appendBatchAsync ps l w = (res, l', w') \<Longrightarrow> room l (length ps) \<Longrightarrow> lstep (l, ph, w) (l', ph, w')"
| l_take: "commitTake l = Some (j, l') \<Longrightarrow> lstep (l, Idle, w) (l', Writing j, w)"
| l_write: "commitWrite j l w = ((err, rbErr), l', w') \<Longrightarrow> lstep (l, Writing j, w) (l', Settling j err rbErr, w')"
| l_settle: "commitSettle j err rbErr l = (res, l') \<Longrightarrow> lstep (l, Settling j err rbErr, w) (l', Idle, w)"
| l_truncate: "truncateLog lim l w = (res, l', w') \<Longrightarrow> lstep (l, ph, w) (l', ph, w')"
| l_checkpoint: "writeCheckpoint v w = (res, w') \<Longrightarrow> lstep (l, ph, w) (l, ph, w')"
| l_signal: "lstep (l, ph, w) (l\<lparr>signalled := b\<rparr>, ph, w)"
| l_shut: "lstep (l, ph, w) (l\<lparr>closed := True\<rparr>, ph, w)"

inductive_cases lstepE: "lstep s s'"

subsection \<open>The relation to the abstract log\<close>

definition strip :: "entry list \<Rightarrow> (nat \<times> bytes) list" where
  "strip = map (\<lambda>e. (fst e, fst (snd e)))"

definition job_ok :: "nat \<Rightarrow> job \<Rightarrow> alog \<Rightarrow> bool" where
  "job_ok m j a \<longleftrightarrow> (\<exists>qs. a_flight a = Some (qs, jround j) \<and> jbuf j = frames qs
     \<and> list_all (\<lambda>p. length p \<le> m) qs \<and> unat (jfirst j) = a_base a
     \<and> jlast j = jfirst j + of_nat (length qs) - 1)"

fun phase_ok :: "nat \<Rightarrow> log \<Rightarrow> phase \<Rightarrow> alog \<Rightarrow> bool" where
  "phase_ok m l Idle a \<longleftrightarrow> a_flight a = None \<and> inflight l = None"
| "phase_ok m l (Writing j) a \<longleftrightarrow> job_ok m j a \<and> inflight l = Some (jround j)"
| "phase_ok m l (Settling j err rbErr) a \<longleftrightarrow> job_ok m j a \<and> inflight l = Some (jround j)
     \<and> (err = None \<longrightarrow> rbErr = None)"

text \<open>Records whose bytes and count are already published while their round is not yet settled.\<close>

fun published :: "phase \<Rightarrow> alog \<Rightarrow> bytes list" where
  "published (Settling _ None _) a = in_flight a"
| "published _ a = []"

lemma published_cong: "in_flight a = in_flight b \<Longrightarrow> published ph a = published ph b"
  by (cases "(ph, a)" rule: published.cases) simp_all

fun clean_phase :: "phase \<Rightarrow> bool" where
  "clean_phase (Settling _ _ (Some _)) = False"
| "clean_phase _ = True"

definition staged_ok :: "log \<Rightarrow> alog \<Rightarrow> bool" where
  "staged_ok l a \<longleftrightarrow> pending l = frames (a_staged a) \<and> list_all (\<lambda>p. length p \<le> maxRecord l) (a_staged a)
     \<and> a_next a = unat (nextLSN l)
     \<and> (a_staged a \<noteq> [] \<longrightarrow> unat (pendingMin l) = a_base a + length (in_flight a) \<and> pendingMax l = nextLSN l - 1)"

definition rounds_ok :: "log \<Rightarrow> alog \<Rightarrow> bool" where
  "rounds_ok l a \<longleftrightarrow> cur l = a_cur a \<and> rounds l = a_rounds a \<and> nextRound l = a_nextRound a"

fun lrel :: "lstate \<Rightarrow> alog \<Rightarrow> bool" where
  "lrel (l, ph, w) a \<longleftrightarrow> limit_ok (maxRecord l) \<and> 0 \<le> MaxRecordBytes (opts l)
     \<and> disk_ok l w (strip (a_recs a) @ numbered (a_base a) (published ph a)) (a_base a + length (published ph a))
     \<and> phase_ok (maxRecord l) l ph a \<and> staged_ok l a \<and> rounds_ok l a
     \<and> broken l = a_dead a \<and> (broken l \<longrightarrow> failErr l \<noteq> None \<and> ph = Idle \<and> a_staged a = [])
     \<and> (\<not> broken l \<and> clean_phase ph \<longrightarrow> tail_clean l w)
     \<and> (a_recs a \<noteq> [] \<longrightarrow> unat (durable l) = fst (last (a_recs a)))
     \<and> firstLSN l = baseLSN (hd (segs l)) \<and> a_low a \<le> unat (baseLSN (hd (segs l))) \<and> unat (baseLSN (active l)) \<le> a_base a"

declare lrel.simps [simp del]
lemmas lrel_def = lrel.simps

subsection \<open>Frame lemmas\<close>

text \<open>Writing one of the metadata files leaves every segment alone.\<close>

lemma meta_write_keeps:
  assumes d: "disk_ok l w cs n" and mf: "meta_frame name w w'" and nm: "\<And>b p. segmentName b p \<noteq> name"
  shows "disk_ok l w' cs n \<and> (tail_clean l w \<longrightarrow> tail_clean l w') \<and> (log_durable l w \<longrightarrow> log_durable l w')"
proof -
  let ?P = "{name, tmpName name}"
  have u: "untouched ?P w w'" and k: "kept ?P w w'"
    using meta_frame_untouched [OF mf] meta_frame_kept [OF mf] .
  obtain pss where h: "segs_hold l w pss" "contents (segs l) pss = cs" "seg_end (active l) = n" "handle_ok l w"
    "tail_prefix l w"
    using d by (auto simp: disk_ok_def)
  have np: "\<And>s. s \<in> set (segs l) \<Longrightarrow> segPath s \<notin> ?P" using segs_path [OF h(1)] nm by simp
  have act: "segPath (active l) \<notin> ?P" using np h(1) by (simp add: segs_hold_def active_def)
  show ?thesis
    using segs_hold_untouched [OF h(1) u np] h untouched_ok [OF u] tail_prefix_untouched [OF _ u act]
      untouched_name [OF u act] tail_clean_untouched [OF _ u act] log_durable_kept [OF _ u k np]
    by (auto simp: disk_ok_def handle_ok_def)
qed

text \<open>Fields that the description of the disk does not mention.\<close>

lemma disk_ok_cong:
  "segs l' = segs l \<Longrightarrow> opts l' = opts l \<Longrightarrow> disk_ok l' w cs n = disk_ok l w cs n"
  "segs l' = segs l \<Longrightarrow> opts l' = opts l \<Longrightarrow> tail_clean l' w = tail_clean l w"
  "segs l' = segs l \<Longrightarrow> opts l' = opts l \<Longrightarrow> log_durable l' w = log_durable l w"
  by (simp_all add: disk_ok_def handle_ok_def segs_hold_def active_def tail_clean_def log_durable_def tail_prefix_def)

subsection \<open>Staging\<close>

text \<open>What a batch that was accepted has done to the log.\<close>

definition staged_log :: "bytes list \<Rightarrow> u64 \<Rightarrow> bool \<Rightarrow> log \<Rightarrow> log" where
  "staged_log ps rs sg l = l\<lparr>reserved := rs,
     pendingMin := (if pending l = [] then nextLSN l else pendingMin l),
     pending := pending l @ frames ps, nextLSN := nextLSN l + of_nat (length ps),
     pendingMax := nextLSN l + of_nat (length ps) - 1, signalled := sg\<rparr>"

lemma staged_log_fields [simp]:
  "segs (staged_log ps rs sg l) = segs l" "opts (staged_log ps rs sg l) = opts l"
  "nextLSN (staged_log ps rs sg l) = nextLSN l + of_nat (length ps)"
  "pending (staged_log ps rs sg l) = pending l @ frames ps" "reserved (staged_log ps rs sg l) = rs"
  "cur (staged_log ps rs sg l) = cur l" "rounds (staged_log ps rs sg l) = rounds l"
  "nextRound (staged_log ps rs sg l) = nextRound l" "broken (staged_log ps rs sg l) = broken l"
  "closed (staged_log ps rs sg l) = closed l" "failErr (staged_log ps rs sg l) = failErr l"
  "inflight (staged_log ps rs sg l) = inflight l" "durable (staged_log ps rs sg l) = durable l"
  "firstLSN (staged_log ps rs sg l) = firstLSN l"
  "pendingMax (staged_log ps rs sg l) = nextLSN l + of_nat (length ps) - 1"
  "pendingMin (staged_log ps rs sg l) = (if pending l = [] then nextLSN l else pendingMin l)"
  by (simp_all add: staged_log_def)

text \<open>The reservation part of \<open>stage\<close>: how the claim and the disk stand when a batch was accepted.\<close>

definition reserve_step :: "u64 \<Rightarrow> log \<Rightarrow> fs \<Rightarrow> u64 \<Rightarrow> fs \<Rightarrow> bool" where
  "reserve_step lst l w rs w' \<longleftrightarrow> (lst \<le> reserved l \<and> rs = reserved l \<and> w' = w)
     \<or> (reserved l < lst \<and> rs = max lst (nextLSN l + reserveBlock - 1) \<and> writeReserved rs w = (Inr (), w'))"

lemma stage_ok:
  assumes "stage (\<lambda>dst. foldl appendRecord dst ps) (of_nat (length ps)) l w = (Inr (first, r, force), l', w')"
  shows "\<not> closed l \<and> \<not> broken l \<and> first = nextLSN l \<and> r = cur l
    \<and> (\<exists>rs. l' = staged_log ps rs (signalled l) l \<and> reserve_step (nextLSN l + of_nat (length ps) - 1) l w rs w')"
  using assms
  by (auto simp: stage_def Let_def staged_log_def reserve_step_def foldl_appendRecord frames_concat
      split: if_splits sum.splits prod.splits)

lemma stage_error:
  assumes "stage enc n l w = (Inl e, l', w')"
  shows "l' = l \<and> (w' = w \<or> (\<exists>v r. writeReserved v w = (r, w') \<and> v > reserved l))"
  using assms
  by (auto simp: stage_def Let_def split: if_splits sum.splits prod.splits) (metis less_max_iff_disj)

lemma appendBatchAsync_error:
  assumes "appendBatchAsync ps l w = (Inl e, l', w')"
  shows "l' = l \<and> (w' = w \<or> (\<exists>v r. writeReserved v w = (r, w') \<and> v > reserved l))"
  using assms stage_error
  by (auto simp: appendBatchAsync_def split: if_splits sum.splits prod.splits)

lemma appendBatchAsync_ok:
  assumes "appendBatchAsync ps l w = (Inr c, l', w')" and "ps \<noteq> []"
  shows "\<not> closed l \<and> \<not> broken l \<and> list_all (\<lambda>p. length p \<le> maxRecord l) ps
    \<and> c = \<lparr>First = nextLSN l, Last = nextLSN l + of_nat (length ps) - 1, Round = Some (cur l)\<rparr>
    \<and> (\<exists>rs sg. l' = staged_log ps rs sg l \<and> reserve_step (nextLSN l + of_nat (length ps) - 1) l w rs w')"
proof -
  have small: "\<not> list_ex (\<lambda>p. int (length p) > MaxRecordBytes (opts l)) ps"
    using assms by (auto simp: appendBatchAsync_def)
  then have "list_all (\<lambda>p. length p \<le> maxRecord l) ps"
    by (auto simp: list_all_iff list_ex_iff)
  moreover obtain first r force l1 where
    st: "stage (\<lambda>dst. foldl appendRecord dst ps) (of_nat (length ps)) l w = (Inr (first, r, force), l1, w')"
    and c: "c = \<lparr>First = first, Last = first + of_nat (length ps) - 1, Round = Some r\<rparr>"
    and l': "l' = (if force then signalCommit l1 else l1)"
    using assms small by (auto simp: appendBatchAsync_def split: sum.splits prod.splits)
  have "signalCommit (staged_log ps rs b l) = staged_log ps rs True l" for rs b
    by (simp add: signalCommit_def staged_log_def)
  then have "\<exists>rs sg. l' = staged_log ps rs sg l \<and> reserve_step (nextLSN l + of_nat (length ps) - 1) l w rs w'"
    using stage_ok [OF st] l' by metis
  ultimately show ?thesis
    using stage_ok [OF st] c by simp
qed

lemma reserve_step_frame:
  assumes "reserve_step lst l w rs w'" and "fs_ok w"
  shows "w' = w \<or> meta_frame reservedName w w'"
  using assms rsv.write_frame by (auto simp: reserve_step_def)

lemma append_frame:
  assumes "appendBatchAsync ps l w = (res, l', w')" and ok: "fs_ok w"
  shows "(w' = w \<or> meta_frame reservedName w w') \<and> segs l' = segs l \<and> opts l' = opts l \<and> firstLSN l' = firstLSN l"
proof (cases "\<exists>c. res = Inr c \<and> ps \<noteq> []")
  case True
  then show ?thesis
    using appendBatchAsync_ok [of ps l w _ l' w'] assms(1) reserve_step_frame [OF _ ok] by (fastforce simp: staged_log_def)
next
  case False
  then show ?thesis
    using appendBatchAsync_error [of ps l w _ l' w'] assms(1) rsv.write_frame [OF ok]
    by (cases res) (auto simp: appendBatchAsync_def)
qed

lemma sim_append_error:
  assumes "lrel (l, ph, w) a" and "l' = l" and "w' = w \<or> (\<exists>v r. writeReserved v w = (r, w'))"
  shows "lrel (l', ph, w') a"
  using assms rsv.write_frame [of w] meta_write_keeps [of l w _ _ reservedName w']
  by (fastforce simp: lrel_def disk_ok_def)

lemma sim_append:
  assumes rel: "lrel (l, ph, w) a" and inv: "ainv a" and room: "room l (length ps)" and ps: "ps \<noteq> []"
    and ap: "appendBatchAsync ps l w = (Inr c, l', w')"
  shows "lrel (l', ph, w') (a\<lparr>a_staged := a_staged a @ ps, a_next := a_next a + length ps,
               a_handed := (a_cur a, a_next a, ps) # a_handed a\<rparr>)" (is "lrel _ ?a")
proof -
  obtain rs sg where l': "l' = staged_log ps rs sg l"
    and rs: "reserve_step (nextLSN l + of_nat (length ps) - 1) l w rs w'"
    and nb: "\<not> broken l" and small: "list_all (\<lambda>p. length p \<le> maxRecord l) ps"
    using appendBatchAsync_ok [OF ap ps] by blast
  have d: "disk_ok l w (strip (a_recs a) @ numbered (a_base a) (published ph a)) (a_base a + length (published ph a))"
    and st: "staged_ok l a" using rel by (simp_all add: lrel_def)
  have ok: "fs_ok w" using d by (simp add: disk_ok_def)
  have d': "disk_ok l w' (strip (a_recs a) @ numbered (a_base a) (published ph a)) (a_base a + length (published ph a))"
    "tail_clean l w \<longrightarrow> tail_clean l w'"
    using reserve_step_frame [OF rs ok] meta_write_keeps [OF d, of reservedName w'] d by auto
  have le: "length (a_staged a) + length (in_flight a) \<le> a_next a" using inv by (simp add: ainv_def)
  have fl: "in_flight ?a = in_flight a" by (simp add: in_flight_def)
  have b: "a_base ?a = a_base a" unfolding a_base_def fl using le by simp
  have pub: "published ph ?a = published ph a" by (rule published_cong [OF fl])
  have nx: "unat (nextLSN l + of_nat (length ps)) = unat (nextLSN l) + length ps"
    using room by (simp add: room_def unat_plus_no_wrap unat_of_nat_u64)
  have "staged_ok l' ?a"
    using st small nx le fl b
    by (auto simp: staged_ok_def l' frames_concat) (auto simp: a_base_def)
  moreover have "phase_ok (maxRecord l) l' ph ?a"
    using rel b by (cases ph) (auto simp: lrel_def l' job_ok_def)
  ultimately show ?thesis
    using rel d' b pub nb
    by (simp add: lrel_def l' rounds_ok_def active_def disk_ok_cong [of "staged_log ps rs sg l" l])
qed

subsection \<open>Commit rounds\<close>

lemma sim_take:
  assumes rel: "lrel (l, Idle, w) a" and inv: "ainv a" and t: "commitTake l = Some (j, l')"
  shows "astep a ((a_freshRound a)\<lparr>a_flight := Some (a_staged a, a_cur a), a_staged := []\<rparr>)
       \<and> lrel (l', Writing j, w) ((a_freshRound a)\<lparr>a_flight := Some (a_staged a, a_cur a), a_staged := []\<rparr>)"
proof -
  define c where "c = (a_freshRound a)\<lparr>a_flight := Some (a_staged a, a_cur a), a_staged := []\<rparr>"
  have nb: "\<not> broken l" "pending l \<noteq> []"
    and j: "j = \<lparr>jbuf = pending l, jfirst = pendingMin l, jlast = pendingMax l, jround = cur l\<rparr>"
    and l': "l' = (newRound l)\<lparr>inflight := Some (cur l), pending := [], pendingMin := 0, pendingMax := 0\<rparr>"
    using t by (auto simp: commitTake_def Let_def split: if_splits)
  have st: "staged_ok l a" and fl: "a_flight a = None" "in_flight a = []"
    using rel by (simp_all add: lrel_def in_flight_def)
  then have ne: "a_staged a \<noteq> []" using nb by (auto simp: staged_ok_def)
  have le: "length (a_staged a) \<le> a_next a" using inv fl by (simp add: ainv_def)
  have sel: "a_recs c = a_recs a" "a_flight c = Some (a_staged a, a_cur a)" "a_staged c = []"
      "a_next c = a_next a" "a_dead c = a_dead a" "a_low c = a_low a" "in_flight c = a_staged a" "a_base c = a_base a"
    by (simp_all add: c_def a_freshRound_def in_flight_def a_base_def fl)
  have first: "unat (pendingMin l) = a_base a" "pendingMax l = nextLSN l - 1"
      "a_next a = a_base a + length (a_staged a)" "a_next a = unat (nextLSN l)"
    using st ne fl le by (auto simp: staged_ok_def a_base_def)
  have "length (a_staged a) < 2 ^ 64" "a_base a + length (a_staged a) < 2 ^ 64"
    using first below_unat_u64 [of _ "nextLSN l"] by simp_all
  then have "unat (pendingMin l + of_nat (length (a_staged a))) = unat (nextLSN l)"
    using first by (subst unat_plus_no_wrap) (simp_all add: unat_of_nat_u64)
  then have nx: "nextLSN l = pendingMin l + of_nat (length (a_staged a))" by (simp add: word_eq_unat)
  have "job_ok (maxRecord l) j c"
    unfolding job_ok_def sel using st first nx j rel by (auto simp: staged_ok_def lrel_def rounds_ok_def)
  moreover have "staged_ok l' c" using first by (simp add: staged_ok_def sel l' newRound_def)
  moreover have "rounds_ok l' c"
    using rel by (simp add: rounds_ok_def lrel_def l' newRound_def c_def a_freshRound_def)
  moreover have "segs l' = segs l" "opts l' = opts l" by (simp_all add: l' newRound_def)
  ultimately have "lrel (l', Writing j, w) c"
    using rel nb j disk_ok_cong [of l' l]
    by (simp add: lrel_def sel active_def) (simp add: l' newRound_def)
  then show ?thesis
    using a_take [OF fl(1) ne] by (simp add: c_def)
qed

lemma sim_write:
  assumes rel: "lrel (l, Writing j, w) a" and inv: "ainv a"
    and t: "commitWrite j l w = ((err, rbErr), l', w')"
  shows "lrel (l', Settling j err rbErr, w') a"
proof -
  obtain qs where qs: "a_flight a = Some (qs, jround j)" "jbuf j = frames qs"
      "list_all (\<lambda>p. length p \<le> maxRecord l) qs" "unat (jfirst j) = a_base a"
      "jlast j = jfirst j + of_nat (length qs) - 1"
    using rel by (auto simp: lrel_def job_ok_def)
  have n: "jlast j - jfirst j + 1 = of_nat (length qs)" using qs(5) by simp
  have fl: "in_flight a = qs" using qs(1) by (simp add: in_flight_def)
  have d: "disk_ok l w (strip (a_recs a)) (a_base a)" and tc: "tail_clean l w"
    and nx: "a_next a = unat (nextLSN l)" and nb: "\<not> broken l"
    using rel by (auto simp: lrel_def staged_ok_def)
  have "a_base a + length qs \<le> a_next a" using inv fl by (simp add: ainv_def a_base_def)
  then have bound: "a_base a + length qs < 2 ^ 64" using nx below_unat_u64 by metis
  obtain e1 l1 w1 where wb: "writeBatch (jbuf j) (jfirst j) (jlast j - jfirst j + 1) l w = (e1, l1, w1)"
    by (metis prod_cases3)
  show ?thesis
  proof (cases e1)
    case None
    then have "err = None" "rbErr = None" "l' = l1" "w' = w1" using t wb by (auto simp: commitWrite_def)
    moreover note ok = writeBatch_ok [OF wb [unfolded None n qs(2)] d tc qs(4,3) bound]
    ultimately show ?thesis
      using rel ok only_segs_fields [of l l'] nb
      by (auto simp: lrel_def fl staged_ok_def rounds_ok_def)
  next
    case (Some e)
    obtain rb w2 where r: "rollback l1 w1 = (rb, w2)" by fastforce
    have eq: "err = Some e" "rbErr = rb" "l' = l1" "w' = w2"
      using t wb r Some by (auto simp: commitWrite_def)
    note fail = writeBatch_fail [OF wb [unfolded Some qs(2)] d tc qs(4,3)]
    then have d1: "disk_ok l1 w1 (strip (a_recs a)) (a_base a)" and os: "only_segs l l1" by auto
    note rbk = rollback_keeps [OF r d1]
    have "unat (baseLSN (active l1)) \<le> a_base a" using d1 by (simp add: disk_ok_def seg_end_def)
    then show ?thesis
      using rel rbk only_segs_fields [OF os] nb
      by (cases rb) (auto simp: lrel_def staged_ok_def rounds_ok_def eq)
  qed
qed

text \<open>The last number of a round, as a number.\<close>

lemma unat_jlast:
  assumes "unat f = b" and "qs \<noteq> []" and "b + length qs < 2 ^ 64"
  shows "unat (f + of_nat (length qs) - 1 :: u64) = b + length qs - 1"
proof -
  have "unat (f + of_nat (length qs)) = b + length qs"
    using assms by (subst unat_plus_no_wrap) (simp_all add: unat_of_nat_u64)
  moreover have "f + of_nat (length qs) \<noteq> 0"
    using calculation assms(2) by (metis add_is_0 length_0_conv unat_0)
  ultimately show ?thesis by (simp add: unat_minus_one_u64)
qed

lemma number_eq_Nil [simp]: "number n r ps = [] \<longleftrightarrow> ps = []"
  by (cases ps) simp_all

lemma last_number: "ps \<noteq> [] \<Longrightarrow> fst (last (number n r ps)) = n + length ps - 1"
proof (induction ps arbitrary: n)
  case (Cons p ps)
  then show ?case by (cases "ps = []") simp_all
qed simp

lemma sim_settle_ok:
  assumes rel: "lrel (l, Settling j None rbErr, w) a" and inv: "ainv a"
    and t: "commitSettle j None rbErr l = (res, l')"
  shows "\<exists>a'. astep a a' \<and> lrel (l', Idle, w) a'"
proof -
  obtain qs where qs: "a_flight a = Some (qs, jround j)" "unat (jfirst j) = a_base a"
      "jlast j = jfirst j + of_nat (length qs) - 1"
    using rel by (auto simp: lrel_def job_ok_def)
  define c where "c = a\<lparr>a_recs := a_recs a @ number (a_base a) (Some (jround j)) qs, a_flight := None,
               a_rounds := (a_rounds a)(jround j := Some None)\<rparr>"
  have l': "l' = resolve (jround j) None (l\<lparr>durable := jlast j, inflight := None\<rparr>)"
    using t by (simp add: commitSettle_def)
  have fl: "in_flight a = qs" using qs(1) by (simp add: in_flight_def)
  have le: "length (a_staged a) + length qs \<le> a_next a" "qs \<noteq> []" using inv fl qs(1) by (auto simp: ainv_def)
  have sel: "a_recs c = a_recs a @ number (a_base a) (Some (jround j)) qs" "a_flight c = None"
      "a_staged c = a_staged a" "a_next c = a_next a" "a_dead c = a_dead a" "a_low c = a_low a" "in_flight c = []"
      "a_base c = a_base a + length qs"
    using le qs(1) by (simp_all add: c_def in_flight_def a_base_def)
  have "a_base a + length qs < 2 ^ 64"
    using le fl rel below_unat_u64 [of "a_base a + length qs" "nextLSN l"]
    by (simp add: lrel_def staged_ok_def a_base_def)
  then have "unat (jlast j) = a_base a + length qs - 1" using unat_jlast [OF qs(2) le(2)] qs(3) by simp
  moreover have f: "segs l' = segs l" "opts l' = opts l" "inflight l' = None" "pending l' = pending l"
      "nextLSN l' = nextLSN l" "pendingMin l' = pendingMin l" "pendingMax l' = pendingMax l" "broken l' = broken l"
      "failErr l' = failErr l" "durable l' = jlast j" "firstLSN l' = firstLSN l"
    by (simp_all add: l' resolve_def)
  moreover have "rounds_ok l' c" using rel by (simp add: lrel_def rounds_ok_def l' resolve_def c_def)
  moreover have "staged_ok l' c" using rel fl by (simp add: lrel_def staged_ok_def sel f)
  ultimately have "lrel (l', Idle, w) c"
    using rel le fl disk_ok_cong [OF f(1,2)]
    by (auto simp: lrel_def sel strip_def number_strip last_number active_def)
  moreover have "astep a c" unfolding c_def by (rule a_commit [OF qs(1)])
  ultimately show ?thesis by blast
qed

lemma sim_settle_fail:
  assumes rel: "lrel (l, Settling j (Some e) rbErr, w) a" and inv: "ainv a"
    and t: "commitSettle j (Some e) rbErr l = (res, l')"
  shows "\<exists>a'. astep a a' \<and> lrel (l', Idle, w) a'"
proof -
  obtain qs where qs: "a_flight a = Some (qs, jround j)" "unat (jfirst j) = a_base a"
    using rel by (auto simp: lrel_def job_ok_def)
  define fe where "fe = (case rbErr of None \<Rightarrow> e
                    | Some re \<Rightarrow> Wrap ''wal: log is broken'' [ErrBroken, Wrap ''join'' [e, re]])"
  define c where "c = (let b = a_freshRound a in
      b\<lparr>a_flight := None, a_staged := [], a_next := a_base a, a_dead := a_dead a \<or> rbErr \<noteq> None,
        a_rounds := (a_rounds b)(jround j := Some (Some fe), a_cur a := Some (Some fe))\<rparr>)"
  have l': "l' = resolve (cur l) (Some fe) (resolve (jround j) (Some fe) ((newRound l)\<lparr>failErr := Some fe,
      pending := [], pendingMin := 0, pendingMax := 0, nextLSN := jfirst j,
      broken := broken l \<or> rbErr \<noteq> None, inflight := None\<rparr>))"
    using t by (auto simp: commitSettle_def Let_def fe_def)
  have sel: "a_recs c = a_recs a" "a_flight c = None" "a_staged c = []" "a_next c = a_base a"
      "a_dead c = (a_dead a \<or> rbErr \<noteq> None)" "a_low c = a_low a" "in_flight c = []" "a_base c = a_base a"
      "a_cur c = a_nextRound a" "a_nextRound c = Suc (a_nextRound a)"
      "a_rounds c = (a_rounds a)(a_nextRound a := None, jround j := Some (Some fe), a_cur a := Some (Some fe))"
    by (simp_all add: c_def a_freshRound_def in_flight_def a_base_def Let_def)
  have f: "segs l' = segs l" "opts l' = opts l" "inflight l' = None" "pending l' = []" "nextLSN l' = jfirst j"
      "broken l' = (broken l \<or> rbErr \<noteq> None)" "failErr l' = Some fe" "durable l' = durable l"
      "firstLSN l' = firstLSN l"
    by (simp_all add: l' resolve_def newRound_def)
  have "rounds_ok l' c" using rel by (simp add: lrel_def rounds_ok_def l' resolve_def newRound_def sel)
  moreover have "staged_ok l' c" using qs(2) by (simp add: staged_ok_def sel f)
  ultimately have "lrel (l', Idle, w) c"
    using rel disk_ok_cong [OF f(1,2)] by (cases rbErr) (auto simp: lrel_def sel f active_def)
  moreover have "astep a c" unfolding c_def by (rule a_fail [OF qs(1)])
  ultimately show ?thesis by blast
qed

subsection \<open>Truncation\<close>

lemma strip_simps [simp]:
  "strip (xs @ ys) = strip xs @ strip ys" "length (strip xs) = length xs" "strip (drop k xs) = drop k (strip xs)"
  "strip xs = [] \<longleftrightarrow> xs = []"
  by (simp_all add: strip_def drop_map)

lemma sim_truncate:
  assumes rel: "lrel (l, ph, w) a" and inv: "ainv a" and t: "truncateLog lim l w = (res, l', w')"
  shows "\<exists>a' k. astep a a' \<and> lrel (l', ph, w') a' \<and> a_recs a' = drop k (a_recs a)
    \<and> (\<forall>e \<in> set (take k (a_recs a)). fst e < unat lim) \<and> active l' = active l"
proof -
  define pub where "pub = published ph a"
  let ?cs = "strip (a_recs a) @ numbered (a_base a) pub"
  have d: "disk_ok l w ?cs (a_base a + length pub)" and b: "unat (baseLSN (active l)) \<le> a_base a"
    using rel by (simp_all add: lrel_def pub_def)
  obtain k ss fl where k: "k \<le> length ?cs" "disk_ok l' w' (drop k ?cs) (a_base a + length pub)"
      "\<forall>e \<in> set (take k ?cs). fst e < unat (baseLSN (active l))"
      "\<forall>e \<in> set (take k ?cs). fst e < unat (baseLSN (hd (segs l')))"
      "unat (baseLSN (hd (segs l))) \<le> unat (baseLSN (hd (segs l')))"
      "\<forall>e \<in> set (take k ?cs). fst e < unat lim"
    and l': "l' = l\<lparr>segs := ss, firstLSN := fl\<rparr>" "fl = firstLSN l \<and> ss = segs l \<or> fl = baseLSN (hd ss)"
    and act: "active l' = active l" and tc: "tail_clean l w \<longrightarrow> tail_clean l' w'"
    using truncateLog_outcome [OF t d] by blast
  have kr: "k \<le> length (a_recs a)"
  proof (rule ccontr)
    assume "\<not> k \<le> length (a_recs a)"
    then have "pub \<noteq> []" "(a_base a, hd pub) \<in> set (take k ?cs)"
      using k(1) by (cases pub; auto simp: take_Cons')+
    then show False using k(3) b by fastforce
  qed
  define c where "c = a\<lparr>a_recs := drop k (a_recs a),
               a_low := (if k = 0 then a_low a else Suc (fst (a_recs a ! (k - 1))))\<rparr>"
  have "fst (a_recs a ! (k - 1)) < unat (baseLSN (hd (segs l')))" if "0 < k"
  proof -
    have "strip (a_recs a) ! (k - 1) \<in> set (take k ?cs)"
      using that kr by (auto simp: in_set_conv_nth intro!: exI [of _ "k - 1"])
    then show ?thesis using k(4) that kr by (fastforce simp: strip_def)
  qed
  then have low: "a_low c \<le> unat (baseLSN (hd (segs l')))"
    using k(5) rel by (auto simp: c_def lrel_def)
  have sel: "in_flight c = in_flight a" "a_base c = a_base a" "a_flight c = a_flight a"
      "a_staged c = a_staged a" "a_next c = a_next a" "a_cur c = a_cur a" "a_rounds c = a_rounds a"
      "a_nextRound c = a_nextRound a" "a_dead c = a_dead a"
    by (simp_all add: c_def in_flight_def a_base_def)
  have f: "opts l' = opts l" "inflight l' = inflight l" "pending l' = pending l" "nextLSN l' = nextLSN l"
      "pendingMin l' = pendingMin l" "pendingMax l' = pendingMax l" "cur l' = cur l" "rounds l' = rounds l"
      "nextRound l' = nextRound l" "broken l' = broken l" "failErr l' = failErr l" "durable l' = durable l"
    by (simp_all add: l'(1))
  have "published ph c = pub" unfolding pub_def by (rule published_cong [OF sel(1)])
  moreover have "disk_ok l' w' (strip (a_recs c) @ numbered (a_base a) pub) (a_base a + length pub)"
    using k(2) kr by (simp add: c_def)
  moreover have "a_recs c \<noteq> [] \<longrightarrow> fst (last (a_recs c)) = fst (last (a_recs a))" "a_recs c \<noteq> [] \<longrightarrow> a_recs a \<noteq> []"
    by (auto simp: c_def last_drop)
  moreover have "phase_ok (maxRecord l) l' ph c"
    using rel by (cases ph) (auto simp: lrel_def job_ok_def sel f)
  moreover have "staged_ok l' c" "rounds_ok l' c"
    using rel by (simp_all add: lrel_def staged_ok_def rounds_ok_def sel f)
  moreover have "firstLSN l' = baseLSN (hd (segs l'))" using l' rel by (auto simp: lrel_def)
  ultimately have "lrel (l', ph, w') c"
    using rel act tc low by (simp add: lrel_def sel f)
  moreover have "astep a c" unfolding c_def by (rule a_trunc [OF kr])
  moreover have "fst e < unat lim" if "e \<in> set (take k (a_recs a))" for e
    using k(6) kr that by (auto simp: strip_def take_map)
  moreover have "a_recs c = drop k (a_recs a)" by (simp add: c_def)
  ultimately show ?thesis using act by blast
qed

subsection \<open>The simulation\<close>

lemma sim_checkpoint:
  assumes "lrel (l, ph, w) a" and "writeCheckpoint v w = (res, w')"
  shows "lrel (l, ph, w') a"
  using assms cp.write_frame [of w v res w'] meta_write_keeps [of l w _ _ checkpointName w']
  by (auto simp: lrel_def disk_ok_def)

lemma sim_flags:
  assumes "lrel (l, ph, w) a"
  shows "lrel (l\<lparr>signalled := b\<rparr>, ph, w) a" and "lrel (l\<lparr>closed := True\<rparr>, ph, w) a"
proof -
  have "phase_ok m (l\<lparr>signalled := b\<rparr>) ph a = phase_ok m l ph a" "phase_ok m (l\<lparr>closed := True\<rparr>) ph a = phase_ok m l ph a" for m
    by (cases ph; simp)+
  then show "lrel (l\<lparr>signalled := b\<rparr>, ph, w) a" and "lrel (l\<lparr>closed := True\<rparr>, ph, w) a"
    using assms disk_ok_cong [of "l\<lparr>signalled := b\<rparr>" l] disk_ok_cong [of "l\<lparr>closed := True\<rparr>" l]
    by (auto simp: lrel_def staged_ok_def rounds_ok_def active_def)
qed

lemma sim_append_any:
  assumes rel: "lrel (l, ph, w) a" and inv: "ainv a" and room: "room l (length ps)"
    and ap: "appendBatchAsync ps l w = (res, l', w')"
  shows "\<exists>a'. astep\<^sup>*\<^sup>* a a' \<and> lrel (l', ph, w') a'"
proof (cases res)
  case (Inl e)
  with appendBatchAsync_error [of ps l w e l' w'] ap have "lrel (l', ph, w') a"
    by (intro sim_append_error [OF rel]) auto
  then show ?thesis by blast
next
  case (Inr c)
  show ?thesis
  proof (cases "ps = []")
    case True
    with ap have "l' = l" "w' = w" by (auto simp: appendBatchAsync_def)
    with rel show ?thesis by blast
  next
    case False
    from sim_append [OF rel inv room False ap [unfolded Inr]] show ?thesis
      using a_stage [of a ps] appendBatchAsync_ok [OF ap [unfolded Inr] False] rel False
      by (metis lrel_def r_into_rtranclp)
  qed
qed

interpretation lsim: forward_simulation astep ainv lstep lrel
proof
  fix s a s'
  assume "lrel s a" and "ainv a" and "lstep s s'"
  from this(3,1,2) show "\<exists>a'. astep\<^sup>*\<^sup>* a a' \<and> lrel s' a'"
  proof (induction rule: lstep.induct)
    case (l_settle j err rbErr l res l' w)
    then show ?case
      by (cases err) (metis r_into_rtranclp sim_settle_ok, metis r_into_rtranclp sim_settle_fail)
  qed (metis sim_append_any, metis r_into_rtranclp sim_take, metis rtranclp.rtrancl_refl sim_write,
      metis r_into_rtranclp sim_truncate, metis rtranclp.rtrancl_refl sim_checkpoint,
      metis rtranclp.rtrancl_refl sim_flags(1), metis rtranclp.rtrancl_refl sim_flags(2))
qed

end
