(* ===== verification/LogCrash.thy ===== *)
theory LogCrash
  imports LogRefinement
begin

text \<open>
  What the log guarantees across crashes, as invariants of its state machine.

  \<open>claimed r w\<close> says that the file \<^verbatim>\<open>RESERVED\<close> claims at least the LSN \<open>r\<close>, both as a process that is
  started after a kill reads it and as it is after a power loss. It is kept by every step, with \<open>r\<close>
  the log's own mark, so that no LSN is ever in use that a later process could hand out again.
  \<open>log_durable\<close> says that the files of the segments are, on the device, exactly the published records;
  it is kept by every step unless the log runs with \<^verbatim>\<open>SyncNever\<close>.
\<close>

subsection \<open>The claim on LSNs\<close>

definition claimed :: "u64 \<Rightarrow> fs \<Rightarrow> bool" where
  "claimed r w \<longleftrightarrow> r = 0 \<or>
     (\<exists>i v. map_of (dents w) reservedName = Some i \<and> data w i = numberLine v \<and> stable w i = numberLine v \<and> r \<le> v)
     \<and> (\<exists>i v. map_of (sdents w) reservedName = Some i \<and> stable w i = numberLine v \<and> r \<le> v)"

lemma is_meta_reserved [simp]: "is_meta reservedName"
  by (simp add: is_meta_def reservedName_def)

lemma claimed_untouched:
  assumes "claimed r w" and "untouched P w w'" and "reservedName \<notin> P"
  shows "claimed r w'"
proof (cases "r = 0")
  case True
  then show ?thesis by (simp add: claimed_def)
next
  case False
  then obtain i v j u where i: "map_of (dents w) reservedName = Some i" "data w i = numberLine v"
      "stable w i = numberLine v" "r \<le> v"
    and j: "map_of (sdents w) reservedName = Some j" "stable w j = numberLine u" "r \<le> u"
    using assms(1) by (auto simp: claimed_def)
  have i': "map_of (dents w') reservedName = Some i" "data w' i = numberLine v" "stable w' i = numberLine v"
    using assms(2,3) i unfolding untouched_def by auto
  have "map_of (sdents w') reservedName = Some i \<or>
      map_of (sdents w') reservedName = Some j \<and> (stable w' j = numberLine u \<or> i = j)"
    using assms(2,3) i j is_meta_reserved unfolding untouched_def by (metis option.inject)
  then have "\<exists>k x. map_of (sdents w') reservedName = Some k \<and> stable w' k = numberLine x \<and> r \<le> x"
    using i i' j by blast
  then show ?thesis using i i' unfolding claimed_def by blast
qed

lemma claimed_mono:
  assumes "claimed r w" and "r' \<le> r"
  shows "claimed r' w"
proof (cases "r = 0")
  case True
  then show ?thesis using assms by (simp add: claimed_def)
next
  case False
  then show ?thesis
    using assms unfolding claimed_def by (intro disjI2) (meson order_trans)
qed

lemma readReserved_numberLine:
  "faults w = [] \<Longrightarrow> file_at w reservedName = Some (numberLine v) \<Longrightarrow> fst (readReserved w) = Inr v"
  by (simp add: readReserved_def readNumber_calm)

lemma claimed_crash:
  assumes "claimed r w" and "r \<noteq> 0"
  shows "(\<exists>v. fst (readReserved (after_kill w)) = Inr v \<and> r \<le> v)
       \<and> (\<exists>v. fst (readReserved (after_power_loss w)) = Inr v \<and> r \<le> v)"
proof -
  obtain i v j u where "map_of (dents w) reservedName = Some i" "data w i = numberLine v" "r \<le> v"
    and "map_of (sdents w) reservedName = Some j" "stable w j = numberLine u" "r \<le> u"
    using assms by (auto simp: claimed_def)
  moreover from this have "file_at w reservedName = Some (numberLine v)" "stable_at w reservedName = Some (numberLine u)"
    by (simp_all add: file_at_def stable_at_def lookup_name_def)
  ultimately show ?thesis
    using readReserved_numberLine [of "after_kill w" v] readReserved_numberLine [of "after_power_loss w" u] by auto
qed

text \<open>Raising the mark keeps the claim, whichever call fails; once it has succeeded, it holds.\<close>

lemma claimed_write:
  assumes ok: "fs_ok w" and wr: "writeReserved v w = (res, w')" and c: "claimed r w" and le: "r \<le> v"
  shows "claimed r w' \<and> (res = Inr () \<longrightarrow> claimed v w')"
proof -
  note out = replaceFile_outcome [OF ok _ wr [unfolded writeReserved_def], simplified]
  have keep: "map_of (dents w) reservedName = Some i \<or> map_of (sdents w) reservedName = Some i \<Longrightarrow>
      data w' i = data w i \<and> stable w' i = stable w i" for i
    using meta_frame_data [of reservedName w w' reservedName i] out by simp
  have sw: "swapped reservedName (numberLine v) w w' \<Longrightarrow>
      \<exists>i. map_of (dents w') reservedName = Some i \<and> data w' i = numberLine v \<and> stable w' i = numberLine v"
    by (simp add: swapped_def)
  have "claimed r w'"
  proof (cases "r = 0")
    case False
    have "\<exists>i x. map_of (dents w') reservedName = Some i \<and> data w' i = numberLine x \<and> stable w' i = numberLine x \<and> r \<le> x"
      using out c False keep sw le unfolding claimed_def by metis
    moreover have "\<exists>i x. map_of (sdents w') reservedName = Some i \<and> stable w' i = numberLine x \<and> r \<le> x"
      using out c False keep sw le unfolding claimed_def by metis
    ultimately show ?thesis unfolding claimed_def by blast
  qed (simp add: claimed_def)
  moreover have "claimed v w'" if "res = Inr ()"
    using out sw that unfolding claimed_def by (auto simp: swapped_def)
  ultimately show ?thesis by blast
qed

subsection \<open>What a commit round touches\<close>

definition segNames :: "string set" where
  "segNames = {n. \<exists>b p. n = segmentName b p}"

lemma not_segNames [simp]: "reservedName \<notin> segNames" "checkpointName \<notin> segNames" "tmpName q \<notin> segNames"
  by (simp_all add: segNames_def seg_path_not_meta [THEN not_sym])

lemma segName_in [simp]: "segmentName b p \<in> segNames"
  by (auto simp: segNames_def)

lemma untouched_segNames: "untouched P w w' \<Longrightarrow> P \<subseteq> segNames \<Longrightarrow> untouched segNames w w'"
  by (rule untouched_mono)

lemma active_path_in: "disk_ok l w cs n \<Longrightarrow> segPath (active l) \<in> segNames"
  by (auto simp: disk_ok_def segs_hold_parts seg_holds_def)

lemma on_handle_segNames:
  assumes "disk_ok l w cs n" and "\<And>i w. only_ino i w (snd (call i w))" and "on_handle (active l) call w = (r, w')"
  shows "untouched segNames w w'"
  using on_handle_untouched [OF _ _ assms(2,3)] assms(1) active_path_in [OF assms(1)]
  by (intro untouched_segNames) (auto simp: disk_ok_def)

lemma appendRound_segNames:
  assumes "appendRound buf n l w = (err, l', w')" and "disk_ok l w cs k" and "tail_clean l w"
  shows "untouched segNames w w'"
proof -
  obtain i where i: "segFile (active l) = Some i" "only_ino i w w'"
    by (rule write_then_sync [OF assms(3,1)]) blast
  then have "map_of (dents w) (segPath (active l)) = Some i" using assms(3) by (auto simp: tail_clean_def)
  with i(2) show ?thesis
    using only_ino_untouched [of w i w'] assms(2) active_path_in [OF assms(2)]
    by (intro untouched_segNames) (auto simp: disk_ok_def)
qed

lemma writeBatch_segNames:
  assumes wb: "writeBatch buf first n l w = (err, l', w')" and d: "disk_ok l w cs k" and tc: "tail_clean l w"
    and first: "unat first = k"
  shows "untouched segNames w w'"
proof (cases "segSize (active l) > 0
    \<and> int (segSize (active l)) + int (length buf) > MaxSegmentBytes (opts l)")
  case False
  from wb [unfolded writeBatch_same_segment [OF False]] show ?thesis by (rule appendRound_segNames [OF _ d tc])
next
  case True
  obtain pss where h: "segs_hold l w pss" using d by (auto simp: disk_ok_def)
  have lt: "unat (baseLSN (active l)) < unat first"
    using size_pos_count [OF segs_hold_active [OF h]] True first d by (simp add: disk_ok_def)
  obtain e1 l1 w1 where r: "rotateSegment first l w = (e1, l1, w1)" by (metis prod_cases3)
  have "active l \<in> set (segs l)" using h by (simp add: segs_hold_def active_def)
  then have u: "untouched segNames w w1"
    using rotateSegment_untouched [OF r] fresh_path [OF h _ lt] d
    by (intro untouched_segNames [of "{segmentName first (first - 1)}"]) (auto simp: disk_ok_def)
  show ?thesis
  proof (cases e1)
    case (Some e)
    then show ?thesis using wb r True u by (auto simp: writeBatch_def)
  next
    case None
    then have a: "appendRound buf n l1 w1 = (err, l', w')" using wb r True by (auto simp: writeBatch_def)
    have "disk_ok l1 w1 cs k" "tail_clean l1 w1" using rotateSegment_keeps_ok [OF _ d tc lt] r None first by auto
    from appendRound_segNames [OF a this] show ?thesis by (rule untouched_trans_same [OF u])
  qed
qed

lemma rollback_segNames:
  assumes "rollback l w = (err, w')" and "disk_ok l w cs k"
  shows "untouched segNames w w'"
proof -
  obtain r1 w1 where t: "on_handle (active l) (\<lambda>i. file_truncate i (segSize (active l))) w = (r1, w1)" by fastforce
  obtain r2 w2 where s: "on_handle (active l) file_sync w1 = (r2, w2)" by fastforce
  have ok: "fs_ok w" "handle_ok l w" using assms(2) by (auto simp: disk_ok_def)
  have u1: "untouched segNames w w1" using on_handle_segNames [OF assms(2) _ t] file_truncate_only by blast
  have "handle_ok l w1" using on_handle_name [OF ok _ t] file_truncate_only ok(2) handle_ok_same_names by blast
  then have u2: "untouched segNames w w2"
    using untouched_trans_same [OF u1 on_handle_sync_untouched [OF untouched_ok [OF u1] _ s]] by blast
  show ?thesis
    using assms(1) u1 u2 untouched_refl [OF ok(1)]
    by (auto simp: rollback_def t s split: if_splits sum.splits)
qed

lemma commitWrite_segNames:
  assumes cw: "commitWrite j l w = (errs, l', w')" and rel: "lrel (l, Writing j, w) a"
  shows "untouched segNames w w'"
proof -
  have d: "disk_ok l w (strip (a_recs a)) (a_base a)" and tc: "tail_clean l w" and f: "unat (jfirst j) = a_base a"
    using rel by (auto simp: lrel_def job_ok_def)
  obtain qs where qs: "jbuf j = frames qs" "list_all (\<lambda>p. length p \<le> maxRecord l) qs"
    using rel by (auto simp: lrel_def job_ok_def)
  obtain e1 l1 w1 where wb: "writeBatch (jbuf j) (jfirst j) (jlast j - jfirst j + 1) l w = (e1, l1, w1)"
    by (metis prod_cases3)
  note u = writeBatch_segNames [OF wb d tc f]
  show ?thesis
  proof (cases e1)
    case None
    then show ?thesis using cw wb u by (auto simp: commitWrite_def)
  next
    case (Some e)
    then obtain rb where rb: "rollback l1 w1 = (rb, w')" using cw wb by (auto simp: commitWrite_def split: prod.splits)
    have "disk_ok l1 w1 (strip (a_recs a)) (a_base a)"
      using writeBatch_fail [OF wb [unfolded Some qs(1)] d tc f qs(2)] by simp
    from rollback_segNames [OF rb this] show ?thesis by (rule untouched_trans_same [OF u])
  qed
qed

lemma truncateLog_segNames:
  assumes t: "truncateLog lim l w = (err, l', w')" and d: "disk_ok l w cs n"
  shows "untouched segNames w w'"
proof -
  obtain pss where h: "segs_hold l w pss" and ok: "fs_ok w" using d by (auto simp: disk_ok_def)
  obtain k where "untouched (segPath ` set (take k (segs l))) w w'" using truncateLog_shape [OF t h ok] by blast
  moreover have "segPath ` set (take k (segs l)) \<subseteq> segNames" using segs_path [OF h] by (auto dest!: in_set_takeD)
  ultimately show ?thesis using untouched_segNames by auto
qed

subsection \<open>The invariants of the state machine\<close>

definition refined :: "lstate \<Rightarrow> bool" where
  "refined s \<longleftrightarrow> (\<exists>a. lrel s a \<and> ainv a)"

interpretation refined: invariant_system lstep refined
proof
  fix s s' assume "refined s" and "lstep s s'"
  then show "refined s'"
    unfolding refined_def using lsim.simulates alog.steps_inv by metis
qed

fun claim_inv :: "u64 \<Rightarrow> lstate \<Rightarrow> bool" where
  "claim_inv r (l, ph, w) \<longleftrightarrow> refined (l, ph, w) \<and> r \<le> reserved l \<and> claimed (reserved l) w"

lemma refined_disk: "refined (l, ph, w) \<Longrightarrow> \<exists>cs n. disk_ok l w cs n"
  by (auto simp: refined_def lrel_def)

lemma refined_fs_ok: "refined (l, ph, w) \<Longrightarrow> fs_ok w"
  using refined_disk disk_ok_def by blast

lemma append_claim:
  assumes ok: "fs_ok w" and ap: "appendBatchAsync ps l w = (res, l', w')" and c: "claimed (reserved l) w"
  shows "reserved l \<le> reserved l' \<and> claimed (reserved l') w'
     \<and> (\<forall>h. res = Inr h \<and> ps \<noteq> [] \<longrightarrow> Last h \<le> reserved l')"
proof (cases res)
  case (Inl e)
  then show ?thesis
    using appendBatchAsync_error [of ps l w e l' w'] ap claimed_write [OF ok _ c] c by auto
next
  case (Inr h)
  show ?thesis
  proof (cases "ps = []")
    case True
    then show ?thesis using ap c by (auto simp: appendBatchAsync_def)
  next
    case False
    obtain rs sg where l': "l' = staged_log ps rs sg l"
      and rs: "reserve_step (nextLSN l + of_nat (length ps) - 1) l w rs w'"
      and h: "Last h = nextLSN l + of_nat (length ps) - 1"
      using appendBatchAsync_ok [OF ap [unfolded Inr] False] by auto
    then show ?thesis
      using claimed_write [OF ok, of rs "Inr ()" w' "reserved l"] c Inr
      by (auto simp: reserve_step_def le_max_iff_disj less_imp_le)
  qed
qed

lemma reserved_same:
  "commitTake l = Some (j, l') \<Longrightarrow> reserved l' = reserved l"
  "commitSettle j err rbErr l = (res, l') \<Longrightarrow> reserved l' = reserved l"
  by (auto simp: commitTake_def commitSettle_def newRound_def resolve_def Let_def split: if_splits option.splits)

lemma commitWrite_only_segs:
  assumes "commitWrite j l w = ((err, rbErr), l', w')"
  shows "\<exists>ss. l' = l\<lparr>segs := ss\<rparr>"
proof -
  obtain e1 l1 w1 where wb: "writeBatch (jbuf j) (jfirst j) (jlast j - jfirst j + 1) l w = (e1, l1, w1)"
    by (metis prod_cases3)
  then have "l' = l1" using assms(1) by (auto simp: commitWrite_def split: option.splits prod.splits)
  moreover have "\<exists>ss. l2 = l\<lparr>segs := ss\<rparr>" if "rotateSegment x l w = (e, l2, w2)" for x e l2 w2
    using that by (auto simp: rotateSegment_def set_active_def split: prod.splits sum.splits)
      (metis log.surjective log.update_convs(3))+
  moreover have "\<exists>ss. l3 = l2\<lparr>segs := ss\<rparr>" if "appendRound b m l2 w2 = (e, l3, w3)" for b m l2 w2 e l3 w3
    using that by (auto simp: appendRound_def set_active_def split: prod.splits sum.splits)
      (metis log.surjective log.update_convs(3))+
  ultimately show ?thesis
    using wb by (fastforce simp: writeBatch_def Let_def split: if_splits prod.splits option.splits)
qed

lemma truncateLog_fields:
  "truncateLog lim l w = (err, l', w') \<Longrightarrow> reserved l' = reserved l \<and> opts l' = opts l"
  by (auto simp: truncateLog_def Let_def split: if_splits prod.splits option.splits sum.splits list.splits)

interpretation claim: invariant_system lstep "claim_inv r" for r
proof
  fix s s' assume inv: "claim_inv r s" and st: "lstep s s'"
  have "refined s" using inv by (cases s) simp
  then have ref': "refined s'" using refined.step_inv [OF _ st] by simp
  from st inv ref' show "claim_inv r s'"
  proof (induction rule: lstep.induct)
    case (l_append ps l w res l' w' ph)
    then show ?case
      using append_claim [OF _ l_append(1)] refined_fs_ok [of l ph w] by (auto intro: order_trans)
  next
    case (l_write j l w err rbErr l' w')
    then obtain a where "lrel (l, Writing j, w) a" by (auto simp: refined_def)
    from commitWrite_segNames [OF l_write(1) this] commitWrite_only_segs [OF l_write(1)] l_write show ?case
      using claimed_untouched [of _ w segNames w'] by auto
  next
    case (l_truncate lim l w res l' w' ph)
    then obtain cs n where "disk_ok l w cs n" using refined_disk by fastforce
    from truncateLog_segNames [OF l_truncate(1) this] truncateLog_fields [OF l_truncate(1)] l_truncate show ?case
      using claimed_untouched [of _ w segNames w'] by auto
  next
    case (l_checkpoint v w res w' l ph)
    then have "meta_frame checkpointName w w'" using cp.write_frame refined_fs_ok by fastforce
    from meta_frame_untouched [OF this] l_checkpoint show ?case
      using claimed_untouched [of "reserved l" w "{checkpointName, tmpName checkpointName}" w']
      by (auto simp: reservedName_def checkpointName_def tmpName_def)
  qed (auto simp: reserved_same)
qed

subsection \<open>Durability\<close>

fun durable_inv :: "lstate \<Rightarrow> bool" where
  "durable_inv (l, ph, w) \<longleftrightarrow> refined (l, ph, w) \<and> SyncMode (opts l) \<noteq> SyncNever \<and> log_durable l w"

lemma commitWrite_durable:
  assumes cw: "commitWrite j l w = ((err, rbErr), l', w')" and rel: "lrel (l, Writing j, w) a" and inv: "ainv a"
    and du: "log_durable l w" "SyncMode (opts l) \<noteq> SyncNever"
  shows "log_durable l' w'"
proof -
  obtain qs where qs: "a_flight a = Some (qs, jround j)" "jbuf j = frames qs"
      "list_all (\<lambda>p. length p \<le> maxRecord l) qs" "unat (jfirst j) = a_base a"
      "jlast j = jfirst j + of_nat (length qs) - 1"
    using rel by (auto simp: lrel_def job_ok_def)
  have n: "jlast j - jfirst j + 1 = of_nat (length qs)" using qs(5) by simp
  have d: "disk_ok l w (strip (a_recs a)) (a_base a)" and tc: "tail_clean l w"
    using rel by (auto simp: lrel_def)
  have "a_base a + length qs \<le> a_next a" using inv qs(1) by (simp add: ainv_def a_base_def in_flight_def)
  then have bound: "a_base a + length qs < 2 ^ 64"
    using rel below_unat_u64 by (simp add: lrel_def staged_ok_def)
  obtain e1 l1 w1 where wb: "writeBatch (jbuf j) (jfirst j) (jlast j - jfirst j + 1) l w = (e1, l1, w1)"
    by (metis prod_cases3)
  show ?thesis
  proof (cases e1)
    case None
    then have "l' = l1" "w' = w1" using cw wb by (auto simp: commitWrite_def)
    then show ?thesis using writeBatch_ok [OF wb [unfolded None n qs(2)] d tc qs(4,3) bound] du by blast
  next
    case (Some e)
    then obtain rb where r: "rollback l1 w1 = (rb, w')" "l' = l1"
      using cw wb by (auto simp: commitWrite_def split: prod.splits)
    have f: "disk_ok l1 w1 (strip (a_recs a)) (a_base a)" "log_durable l1 w1"
      using writeBatch_fail [OF wb [unfolded Some qs(2)] d tc qs(4,3)] du by auto
    from rollback_keeps [OF r(1) f(1)] f(2) r(2) show ?thesis by blast
  qed
qed

interpretation dur: invariant_system lstep durable_inv
proof
  fix s s' assume inv: "durable_inv s" and st: "lstep s s'"
  have "refined s" using inv by (cases s) simp
  then have ref': "refined s'" using refined.step_inv [OF _ st] by simp
  from st inv ref' show "durable_inv s'"
  proof (induction rule: lstep.induct)
    case (l_append ps l w res l' w' ph)
    then obtain cs n where d: "disk_ok l w cs n" using refined_disk by fastforce
    have ok: "fs_ok w" using d by (simp add: disk_ok_def)
    have "(w' = w \<or> meta_frame reservedName w w') \<and> segs l' = segs l \<and> opts l' = opts l"
      using append_frame [OF l_append(1) ok] by blast
    then show ?case
      using l_append meta_write_keeps [OF d, of reservedName w'] by (auto simp: log_durable_def)
  next
    case (l_take l j l' w)
    then show ?case by (auto simp: commitTake_def newRound_def log_durable_def Let_def split: if_splits)
  next
    case (l_write j l w err rbErr l' w')
    then obtain a where "lrel (l, Writing j, w) a" "ainv a" by (auto simp: refined_def)
    from commitWrite_durable [OF l_write(1) this] commitWrite_only_segs [OF l_write(1)] l_write show ?case by auto
  next
    case (l_settle j err rbErr l res l' w)
    then show ?case
      by (auto simp: commitSettle_def newRound_def resolve_def log_durable_def Let_def split: option.splits)
  next
    case (l_truncate lim l w res l' w' ph)
    then obtain cs n where "disk_ok l w cs n" using refined_disk by fastforce
    from truncateLog_outcome [OF l_truncate(1) this] truncateLog_fields [OF l_truncate(1)] l_truncate show ?case
      by auto
  next
    case (l_checkpoint v w res w' l ph)
    then obtain cs n where d: "disk_ok l w cs n" using refined_disk by fastforce
    have "meta_frame checkpointName w w'" using cp.write_frame [OF _ l_checkpoint(1)] d by (simp add: disk_ok_def)
    from meta_write_keeps [OF d this] l_checkpoint show ?case by auto
  qed (auto simp: log_durable_def)
qed

text \<open>After a power loss every segment starts with its published records, and the sealed ones hold nothing else.\<close>

lemma power_loss_segs:
  assumes pl: "power_loss {segPath (active l)} w w'" and h: "segs_hold l w pss" and du: "log_durable l w"
  shows "segs_hold l w' pss"
proof -
  have ne: "segs l \<noteq> []" and ch: "chained (segs l)" and all: "list_all2 (seg_holds (maxRecord l) w) (segs l) pss"
      and ex: "list_all (seg_exact w) (butlast (segs l))"
    using h by (simp_all add: segs_hold_def)
  have sd: "seg_durable w s" if "s \<in> set (segs l)" for s using du that by (simp add: log_durable_def list_all_iff)
  have hold: "seg_holds (maxRecord l) w' (segs l ! k) (pss ! k)" if "k < length (segs l)" for k
    using power_loss_holds [OF pl sd] all that by (simp add: list_all2_conv_all_nth)
  have "seg_exact w' s" if s: "s \<in> set (butlast (segs l))" for s
  proof -
    have "distinct (map segPath (butlast (segs l) @ [active l]))"
      using chained_paths [OF ch all] segs_split [OF h] by metis
    moreover have "segPath s \<in> segPath ` set (butlast (segs l))" using s by (rule imageI)
    ultimately have "segPath s \<notin> {segPath (active l)}" by auto
    moreover obtain ps where "seg_holds (maxRecord l) w s ps"
      using all in_set_butlastD [OF s] by (auto simp: list_all2_conv_all_nth in_set_conv_nth)
    ultimately show ?thesis
      using power_loss_exact [OF pl sd [OF in_set_butlastD [OF s]]] ex s by (simp add: list_all_iff)
  qed
  then show ?thesis
    using ne ch hold list_all2_lengthD [OF all] by (simp add: segs_hold_def list_all2_conv_all_nth list_all_iff)
qed

end
