(* ===== verification/LogProperties.thy ===== *)
theory LogProperties
  imports LogCrash
begin

text \<open>
  The properties of the log that its callers rely on, stated over runs of its state machine, and a
  concrete run that the witnesses use.
\<close>

subsection \<open>A log just opened in an empty directory\<close>

definition fresh_fs :: fs where
  "fresh_fs = \<lparr>dents = [(segmentName 1 0, 0)], sdents = [(segmentName 1 0, 0)], subdirs = [], data = (\<lambda>_. []),
     stable = (\<lambda>_. []), nextIno = 1, faults = []\<rparr>"

definition fresh_log :: "options \<Rightarrow> log" where
  "fresh_log op = \<lparr>opts = op, lockFile = 0, segs = [newSegment 1 0 0], nextLSN = 1, firstLSN = 1, reserved = 0,
     logID = ''ID'', pending = [], pendingMin = 0, pendingMax = 0, durable = 0, closed = False, cur = 0,
     inflight = None, rounds = (\<lambda>_. None), nextRound = 1, failErr = None, broken = False, closeErr = None,
     signalled = False\<rparr>"

definition fresh_alog :: alog where
  "fresh_alog = \<lparr>a_recs = [], a_flight = None, a_staged = [], a_next = 1, a_cur = 0, a_rounds = (\<lambda>_. None),
     a_nextRound = 1, a_dead = False, a_low = 0, a_handed = []\<rparr>"

definition small_opts :: options where
  "small_opts = \<lparr>SyncMode = SyncAlways, SyncInterval = 5 * millisecond, MaxSegmentBytes = 64,
     MaxRecordBytes = 32, CommitBytes = 48, SalvageSet = False\<rparr>"

lemma fresh_ainv: "ainv fresh_alog"
  by (simp add: ainv_def fresh_alog_def a_base_def in_flight_def)

lemma fresh_fs_ok: "fs_ok (fresh_fs\<lparr>faults := fl\<rparr>)"
  by (simp add: fs_ok_def fresh_fs_def)

lemma fresh_rel:
  assumes "0 \<le> MaxRecordBytes op" and "limit_ok (nat (MaxRecordBytes op))"
  shows "lrel (fresh_log op, Idle, fresh_fs\<lparr>faults := fl\<rparr>) fresh_alog"
proof -
  let ?l = "fresh_log op" and ?w = "fresh_fs\<lparr>faults := fl\<rparr>"
  have h: "segs_hold ?l ?w [[]]"
    by (simp add: segs_hold_def seg_holds_def fresh_log_def fresh_fs_def newSegment_def)
  moreover have "tail_clean ?l ?w"
    by (simp add: tail_clean_def active_def fresh_log_def fresh_fs_def newSegment_def)
  moreover have "contents (segs ?l) [[]] = []" by (simp add: fresh_log_def)
  moreover have "seg_end (active ?l) = 1" by (simp add: seg_end_def active_def fresh_log_def newSegment_def)
  ultimately have "disk_ok ?l ?w [] 1"
    using tail_clean_handle tail_prefix_exact tail_clean_exact fresh_fs_ok unfolding disk_ok_def by blast
  then show ?thesis
    using assms \<open>tail_clean ?l ?w\<close>
    by (simp add: lrel_def strip_def fresh_alog_def a_base_def in_flight_def staged_ok_def rounds_ok_def)
      (simp add: fresh_log_def active_def newSegment_def)
qed

lemma small_opts_ok: "0 \<le> MaxRecordBytes small_opts" "limit_ok (nat (MaxRecordBytes small_opts))"
  by (simp_all add: small_opts_def limit_ok_def headerSize_def)

text \<open>One record is staged, taken, written and settled; the states on the way.\<close>

definition staged_fs :: fs where
  "staged_fs = \<lparr>dents = [(segmentName 1 0, 0), (reservedName, 1)], sdents = [(segmentName 1 0, 0), (reservedName, 1)],
     subdirs = [], data = (\<lambda>_. [])(1 := numberLine reserveBlock), stable = (\<lambda>_. [])(1 := numberLine reserveBlock),
     nextIno = 2, faults = []\<rparr>"

abbreviation staged1 :: log where
  "staged1 \<equiv> staged_log [[7]] reserveBlock True (fresh_log small_opts)"

lemma run_staged:
  "appendBatchAsync [[7]] (fresh_log small_opts) fresh_fs =
     (Inr \<lparr>First = 1, Last = 1, Round = Some 0\<rparr>, staged1, staged_fs)"
  by (simp add: appendBatchAsync_def stage_def fresh_log_def small_opts_def staged_fs_def
     writeReserved_def replaceFile_def io_bind_def io_on_error_def call_defs fresh_fs_def syncDir_def Let_def
     staged_log_def signalCommit_def frame_def reserveBlock_def max_def seg_path_not_meta [THEN not_sym])

definition job1 :: job where
  "job1 = \<lparr>jbuf = frames [[7]], jfirst = 1, jlast = 1, jround = 0\<rparr>"

definition taken1 :: log where
  "taken1 = (newRound staged1)\<lparr>inflight := Some 0, pending := [], pendingMin := 0, pendingMax := 0\<rparr>"

lemma run_taken: "commitTake staged1 = Some (job1, taken1)"
  by (simp add: commitTake_def job1_def taken1_def) (simp add: fresh_log_def recordSize_def headerSize_def)

definition written_fs :: fs where
  "written_fs = staged_fs\<lparr>data := (data staged_fs)(0 := frames [[7]]), stable := (stable staged_fs)(0 := frames [[7]])\<rparr>"

definition written1 :: log where
  "written1 = set_active ((newSegment 1 0 0)\<lparr>segSize := length (frames [[7]]), segCount := 1\<rparr>) taken1"

lemma run_written: "commitWrite job1 taken1 staged_fs = ((None, None), written1, written_fs)"
  by (simp add: commitWrite_def writeBatch_def appendRound_def job1_def taken1_def newRound_def staged_log_def
      fresh_log_def active_def on_handle_def newSegment_def small_opts_def file_write_def file_sync_def staged_fs_def
      written_fs_def written1_def set_active_def)

definition settled1 :: log where
  "settled1 = resolve 0 None (written1\<lparr>durable := 1, inflight := None\<rparr>)"

lemma run_settled: "commitSettle job1 None None written1 = (None, settled1)"
  by (simp add: commitSettle_def job1_def settled1_def)

lemma room1: "room (fresh_log small_opts) (length [[7 :: byte]])"
  by (simp add: room_def fresh_log_def)

lemma run_steps: "lstep\<^sup>*\<^sup>* (staged1, Idle, staged_fs) (settled1, Idle, written_fs)"
  using l_take [OF run_taken] l_write [OF run_written] l_settle [OF run_settled]
  by (meson converse_rtranclp_into_rtranclp rtranclp.rtrancl_refl)

lemma settled_round: "rounds settled1 0 = Some None"
  by (simp add: settled1_def resolve_def)

lemma fresh_fs_calm: "fresh_fs\<lparr>faults := []\<rparr> = fresh_fs"
  by (simp add: fresh_fs_def)

lemmas start_rel = fresh_rel [OF small_opts_ok, of "[]", unfolded fresh_fs_calm]

subsection \<open>Facts about batches\<close>

text \<open>The ghost history of batches only grows.\<close>

lemma handed_step: "astep a a' \<Longrightarrow> set (a_handed a) \<subseteq> set (a_handed a')"
  by (induction rule: astep.induct) (auto simp: a_freshRound_def Let_def)

lemma handed_steps: "astep\<^sup>*\<^sup>* a a' \<Longrightarrow> set (a_handed a) \<subseteq> set (a_handed a')"
  by (induction rule: rtranclp_induct) (auto dest: handed_step)

text \<open>A batch accepted in a run: in every later state the abstract log remembers it.\<close>

lemma batch_remembered:
  assumes "refined (l1, ph1, w1)" and ap: "appendBatchAsync ps l1 w1 = (Inr c, l2, w2)" "ps \<noteq> []"
    and room: "room l1 (length ps)" and run: "lstep\<^sup>*\<^sup>* (l2, ph1, w2) s"
  shows "\<exists>a. lrel s a \<and> ainv a \<and> (the (Round c), unat (First c), ps) \<in> set (a_handed a)"
proof -
  obtain a1 where a1: "lrel (l1, ph1, w1) a1" "ainv a1" using assms(1) by (auto simp: refined_def)
  let ?a2 = "a1\<lparr>a_staged := a_staged a1 @ ps, a_next := a_next a1 + length ps,
               a_handed := (a_cur a1, a_next a1, ps) # a_handed a1\<rparr>"
  have "lrel (l2, ph1, w2) ?a2" using sim_append [OF a1 room ap(2,1)] .
  moreover have "ainv ?a2" using ainv_stage [OF a1(2)] .
  ultimately obtain a3 where a3: "astep\<^sup>*\<^sup>* ?a2 a3" "lrel s a3" "ainv a3"
    using lsim.simulates_steps [OF run] by blast
  have "c = \<lparr>First = nextLSN l1, Last = nextLSN l1 + of_nat (length ps) - 1, Round = Some (cur l1)\<rparr>"
    using appendBatchAsync_ok [OF ap] by blast
  then have "(the (Round c), unat (First c), ps) \<in> set (a_handed ?a2)"
    using a1(1) by (simp add: lrel_def staged_ok_def rounds_ok_def)
  then show ?thesis using handed_steps [OF a3(1)] a3(2,3) by blast
qed

text \<open>The record with a given LSN is in the file of the segment its number falls into.\<close>

lemma contents_in_segment:
  assumes "segs_hold l w pss" and "(n, p) \<in> set (contents (segs l) pss)"
  shows "\<exists>s \<in> set (segs l). \<exists>ps. seg_holds (maxRecord l) w s ps \<and> unat (baseLSN s) \<le> n
    \<and> n - unat (baseLSN s) < length ps \<and> ps ! (n - unat (baseLSN s)) = p"
proof -
  obtain i where "i < length (segs l)" "i < length pss" "(n, p) \<in> set (seg_entries (segs l ! i) (pss ! i))"
    using assms(2) by (auto simp: contents_def set_zip)
  then show ?thesis
    using assms(1)
    by (intro bexI [of _ "segs l ! i"] exI [of _ "pss ! i"])
      (auto simp: segs_hold_def list_all2_conv_all_nth seg_entries_def in_numbered)
qed

lemma in_number: "(n, p, r) \<in> set (number k r ps) \<longleftrightarrow> k \<le> n \<and> n < k + length ps \<and> ps ! (n - k) = p"
proof -
  have "(n, p, r) \<in> set (number k r ps) \<longleftrightarrow> (n, p) \<in> set (numbered k ps)"
    unfolding number_strip [of k r ps, symmetric] using number_bounds [of _ k r ps] by (force simp: image_iff)
  then show ?thesis by (simp add: in_numbered)
qed

lemma acknowledged_in_contents:
  assumes rel: "lrel (l, ph, w) a" and inv: "ainv a" and h: "(r, k, ps) \<in> set (a_handed a)"
    and ack: "rounds l r = Some None" and i: "i < length ps" and kept: "unat (firstLSN l) \<le> k + i"
  shows "\<exists>pss. segs_hold l w pss \<and> (k + i, ps ! i) \<in> set (contents (segs l) pss)"
proof -
  have "a_rounds a r = Some None" using ack rel by (simp add: lrel_def rounds_ok_def)
  moreover have "fate a (r, k, ps)" using inv h by (auto simp: ainv_def)
  moreover have "(k + i, ps ! i, Some r) \<in> set (number k (Some r) ps)" using i by (simp add: in_number)
  ultimately have "k + i < a_low a \<or> (k + i, ps ! i, Some r) \<in> set (a_recs a)" by (fastforce simp: fate_def)
  moreover have "a_low a \<le> k + i" using rel kept by (simp add: lrel_def)
  ultimately have "(k + i, ps ! i) \<in> set (strip (a_recs a))" by (force simp: strip_def)
  moreover obtain pss where "segs_hold l w pss"
      "contents (segs l) pss = strip (a_recs a) @ numbered (a_base a) (published ph a)"
    using rel by (auto simp: lrel_def disk_ok_def)
  ultimately show ?thesis by auto
qed

subsection \<open>Properties\<close>

text \<open>C4. The log implements its abstract specification: every run of stage, commit, rollback, truncate and
  checkpoint steps, with any pattern of I/O errors, is matched by a run of the abstract log, in which
  records are numbered consecutively, committed in order, and never change.\<close>

theorem log_refines_abstract:
  assumes "lrel s a" and "ainv a" and "lstep\<^sup>*\<^sup>* s s'"
  shows "\<exists>a'. astep\<^sup>*\<^sup>* a a' \<and> lrel s' a' \<and> ainv a'"
  using lsim.simulates_steps [OF assms(3,1,2)] .

theorem log_refines_abstract_witness:
  "\<exists>a'. astep\<^sup>*\<^sup>* fresh_alog a' \<and> lrel (settled1, Idle, written_fs) a' \<and> ainv a'"
proof -
  have "lstep\<^sup>*\<^sup>* (fresh_log small_opts, Idle, fresh_fs) (settled1, Idle, written_fs)"
    using l_append [OF run_staged room1] run_steps by (meson converse_rtranclp_into_rtranclp)
  from log_refines_abstract [OF start_rel fresh_ainv this] show ?thesis .
qed

text \<open>An acknowledged record is on the disk under its number. If the round a batch was staged into is
  decided without an error, then in every later state each record of the batch that was not truncated
  away is found, at the LSN the caller was given, in the file of one of the log's segments.\<close>

theorem acknowledged_is_stored:
  assumes "refined (l1, ph1, w1)" and "appendBatchAsync ps l1 w1 = (Inr c, l2, w2)" and "ps \<noteq> []"
    and "room l1 (length ps)" and "lstep\<^sup>*\<^sup>* (l2, ph1, w2) (l3, ph3, w3)"
    and "rounds l3 (the (Round c)) = Some None"
    and "i < length ps" and "unat (firstLSN l3) \<le> unat (First c) + i"
  shows "\<exists>s \<in> set (segs l3). \<exists>qs b. file_at w3 (segPath s) = Some b \<and> take (segSize s) b = frames qs
    \<and> unat (baseLSN s) \<le> unat (First c) + i
    \<and> unat (First c) + i - unat (baseLSN s) < length qs
    \<and> qs ! (unat (First c) + i - unat (baseLSN s)) = ps ! i"
proof -
  obtain a where a: "lrel (l3, ph3, w3) a" "ainv a" "(the (Round c), unat (First c), ps) \<in> set (a_handed a)"
    using batch_remembered [OF assms(1-5)] by blast
  obtain pss where "segs_hold l3 w3 pss" "(unat (First c) + i, ps ! i) \<in> set (contents (segs l3) pss)"
    using acknowledged_in_contents [OF a assms(6-8)] by blast
  from contents_in_segment [OF this] show ?thesis
    by (auto simp: seg_holds_def file_at_def lookup_name_def)
qed

theorem acknowledged_is_stored_witness:
  "\<exists>s \<in> set (segs settled1). \<exists>qs b. file_at written_fs (segPath s) = Some b \<and> take (segSize s) b = frames qs
    \<and> unat (baseLSN s) \<le> 1 \<and> 1 - unat (baseLSN s) < length qs \<and> qs ! (1 - unat (baseLSN s)) = [7]"
proof -
  have "refined (fresh_log small_opts, Idle, fresh_fs)" using start_rel fresh_ainv unfolding refined_def by blast
  note t = acknowledged_is_stored [OF this run_staged _ room1 run_steps, of 0]
  have "firstLSN settled1 = 1"
    by (simp add: settled1_def resolve_def written1_def set_active_def taken1_def newRound_def)
      (simp add: fresh_log_def)
  then show ?thesis using t settled_round by simp
qed

text \<open>C3. An acknowledged record survives a power loss, unless the log runs with \<^verbatim>\<open>SyncNever\<close>: whatever of the
  unsynced bytes and names the power loss keeps or loses, the file of the record's segment is there and
  starts with whole records, of the length the log has published for the segment, that have it at its
  number. This holds in every later state in which the record has not been truncated away.\<close>

theorem acknowledged_survives_power_loss:
  assumes "durable_inv (l1, ph1, w1)" and "appendBatchAsync ps l1 w1 = (Inr c, l2, w2)" and "ps \<noteq> []"
    and "room l1 (length ps)" and "lstep\<^sup>*\<^sup>* (l2, ph1, w2) (l3, ph3, w3)"
    and "rounds l3 (the (Round c)) = Some None"
    and "i < length ps" and "unat (firstLSN l3) \<le> unat (First c) + i" and "power_loss P w3 w4"
  shows "\<exists>s \<in> set (segs l3). \<exists>qs rest. file_at w4 (segPath s) = Some (frames qs @ rest) \<and> length (frames qs) = segSize s
    \<and> unat (baseLSN s) \<le> unat (First c) + i
    \<and> unat (First c) + i - unat (baseLSN s) < length qs
    \<and> qs ! (unat (First c) + i - unat (baseLSN s)) = ps ! i"
proof -
  have ref: "refined (l1, ph1, w1)" using assms(1) by simp
  obtain a where a: "lrel (l3, ph3, w3) a" "ainv a" "(the (Round c), unat (First c), ps) \<in> set (a_handed a)"
    using batch_remembered [OF ref assms(2-5)] by blast
  obtain pss where "segs_hold l3 w3 pss" "(unat (First c) + i, ps ! i) \<in> set (contents (segs l3) pss)"
    using acknowledged_in_contents [OF a assms(6-8)] by blast
  from contents_in_segment [OF this] obtain s qs where s: "s \<in> set (segs l3)" "seg_holds (maxRecord l3) w3 s qs"
      "unat (baseLSN s) \<le> unat (First c) + i" "unat (First c) + i - unat (baseLSN s) < length qs"
      "qs ! (unat (First c) + i - unat (baseLSN s)) = ps ! i"
    by blast
  have "lstep\<^sup>*\<^sup>* (l1, ph1, w1) (l3, ph3, w3)"
    using l_append [OF assms(2,4)] assms(5) by (meson converse_rtranclp_into_rtranclp)
  then have "durable_inv (l3, ph3, w3)" using dur.steps_inv assms(1) by blast
  then have "seg_durable w3 s" using s(1) by (simp add: log_durable_def list_all_iff)
  from power_loss_holds [OF assms(9) this s(2)]
  obtain j where j: "map_of (dents w4) (segPath s) = Some j" "take (segSize s) (data w4 j) = frames qs" "segSize s = length (frames qs)"
    by (auto simp: seg_holds_def)
  have "file_at w4 (segPath s) = Some (frames qs @ drop (segSize s) (data w4 j))"
    using j append_take_drop_id [of "segSize s" "data w4 j"] by (simp add: file_at_def lookup_name_def)
  with j(3) s show ?thesis by metis
qed


lemma start_durable: "durable_inv (fresh_log small_opts, Idle, fresh_fs)"
proof -
  have "log_durable (fresh_log small_opts) fresh_fs"
    by (simp add: log_durable_def seg_durable_def fresh_log_def fresh_fs_def newSegment_def)
  moreover have "SyncMode (opts (fresh_log small_opts)) \<noteq> SyncNever" by (simp add: fresh_log_def small_opts_def)
  ultimately show ?thesis using start_rel fresh_ainv by (auto simp: refined_def)
qed

theorem acknowledged_survives_power_loss_witness:
  "\<exists>s \<in> set (segs settled1). \<exists>qs rest. file_at (after_power_loss written_fs) (segPath s) = Some (frames qs @ rest)
    \<and> length (frames qs) = segSize s
    \<and> unat (baseLSN s) \<le> 1 \<and> 1 - unat (baseLSN s) < length qs \<and> qs ! (1 - unat (baseLSN s)) = [7]"
proof -
  have "durable_inv (settled1, Idle, written_fs)"
    using dur.steps_inv [OF run_steps] dur.step_inv [OF start_durable l_append [OF run_staged room1]] by blast
  then have "fs_ok written_fs" using refined_fs_ok by auto
  note t = acknowledged_survives_power_loss [OF start_durable run_staged _ room1 run_steps _ _ _ power_loss_synced [OF this, of UNIV], of 0]
  have "firstLSN settled1 = 1"
    by (simp add: settled1_def resolve_def written1_def set_active_def taken1_def newRound_def)
      (simp add: fresh_log_def)
  then show ?thesis using t settled_round by simp
qed

text \<open>C8. No LSN is used before it is claimed. At any moment after a batch was accepted, whatever I/O errors
  there were, a new process that reads \<^verbatim>\<open>RESERVED\<close> after a kill or after a power loss finds a mark at or
  above the last LSN of the batch.\<close>

theorem lsn_claimed_before_use:
  assumes "refined (l1, ph1, w1)" and "claimed (reserved l1) w1"
    and "appendBatchAsync ps l1 w1 = (Inr c, l2, w2)" and "ps \<noteq> []"
    and "room l1 (length ps)" and "lstep\<^sup>*\<^sup>* (l2, ph1, w2) (l3, ph3, w3)"
  shows "(\<exists>v. fst (readReserved (after_kill w3)) = Inr v \<and> Last c \<le> v)
       \<and> (\<exists>v. fst (readReserved (after_power_loss w3)) = Inr v \<and> Last c \<le> v)"
proof -
  have ref: "refined (l2, ph1, w2)" using refined.step_inv [OF assms(1) l_append [OF assms(3,5)]] .
  have "claimed (reserved l2) w2 \<and> Last c \<le> reserved l2"
    using append_claim [OF refined_fs_ok [OF assms(1)] assms(3,2)] assms(4) by blast
  then have "claim_inv (Last c) (l2, ph1, w2)" using ref by simp
  then have "claim_inv (Last c) (l3, ph3, w3)" using claim.steps_inv [OF assms(6)] by blast
  then have cl: "claimed (Last c) w3" using claimed_mono by auto
  have "unat (Last c) = unat (nextLSN l1) + length ps - 1"
    using appendBatchAsync_ok [OF assms(3,4)] unat_jlast [OF refl assms(4), of "nextLSN l1"] assms(5)
    by (auto simp: room_def)
  moreover have "0 < unat (nextLSN l1)"
  proof -
    obtain a where a: "lrel (l1, ph1, w1) a" "ainv a" using assms(1) by (auto simp: refined_def)
    obtain pss where h: "segs_hold l1 w1 pss" "seg_end (active l1) = a_base a + length (published ph1 a)"
      using a(1) by (auto simp: lrel_def disk_ok_def)
    have "0 < unat (baseLSN (active l1))" using segs_hold_active [OF h(1)] by (simp add: seg_holds_def)
    then have "0 < a_base a" using a(1) by (simp add: lrel_def)
    then show ?thesis using a by (simp add: lrel_def staged_ok_def a_base_def)
  qed
  ultimately have "Last c \<noteq> 0" using assms(4) by (cases ps) (auto simp: word_eq_unat)
  then show ?thesis using claimed_crash [OF cl] by blast
qed

theorem lsn_claimed_before_use_witness:
  "(\<exists>v. fst (readReserved (after_kill written_fs)) = Inr v \<and> (1 :: u64) \<le> v)
   \<and> (\<exists>v. fst (readReserved (after_power_loss written_fs)) = Inr v \<and> (1 :: u64) \<le> v)"
proof -
  have "refined (fresh_log small_opts, Idle, fresh_fs)" using start_rel fresh_ainv unfolding refined_def by blast
  moreover have "claimed (reserved (fresh_log small_opts)) fresh_fs" by (simp add: claimed_def fresh_log_def)
  ultimately show ?thesis
    using lsn_claimed_before_use [OF _ _ run_staged _ room1 run_steps] by simp
qed

subsection \<open>One commit round\<close>

lemma commit_parts:
  assumes rel: "lrel (l, Idle, w) a" and inv: "ainv a" and c: "commit l w = (res, l', w')"
    and go: "hasPending l" "\<not> broken l"
  shows "\<exists>j l2 err rbErr a2. lrel (l2, Settling j err rbErr, w') a2 \<and> ainv a2
    \<and> commitSettle j err rbErr l2 = (res, l') \<and> lstep\<^sup>*\<^sup>* (l, Idle, w) (l2, Settling j err rbErr, w')
    \<and> a_recs a2 = a_recs a \<and> a_base a2 = a_base a \<and> in_flight a2 = a_staged a \<and> jround j = cur l
    \<and> jfirst j = pendingMin l \<and> jlast j = pendingMax l \<and> pending l2 = [] \<and> broken l2 = broken l"
proof -
  obtain j l1 where t: "commitTake l = Some (j, l1)"
    using go by (auto simp: commitTake_def hasPending_def Let_def)
  then have j: "jround j = cur l" "jfirst j = pendingMin l" "jlast j = pendingMax l" "pending l1 = []" "broken l1 = broken l"
    by (auto simp: commitTake_def newRound_def Let_def split: if_splits)
  define a2 where "a2 = (a_freshRound a)\<lparr>a_flight := Some (a_staged a, a_cur a), a_staged := []\<rparr>"
  have fl: "a_flight a = None" using rel by (simp add: lrel_def)
  have sel: "a_recs a2 = a_recs a" "in_flight a2 = a_staged a" "a_base a2 = a_base a"
    using fl by (simp_all add: a2_def a_freshRound_def in_flight_def a_base_def)
  have r1: "lrel (l1, Writing j, w) a2" and st: "astep a a2" using sim_take [OF rel inv t] by (simp_all add: a2_def)
  have inv2: "ainv a2" using alog.step_inv [OF inv st] .
  obtain err rbErr l2 w2 where cw: "commitWrite j l1 w = ((err, rbErr), l2, w2)" by (metis prod_cases3 surj_pair)
  have w': "w2 = w'" and cs: "commitSettle j err rbErr l2 = (res, l')"
    using c t cw by (auto simp: commit_def split: prod.splits)
  have "lstep\<^sup>*\<^sup>* (l, Idle, w) (l2, Settling j err rbErr, w2)"
    using l_take [OF t] l_write [OF cw] by (meson converse_rtranclp_into_rtranclp rtranclp.rtrancl_refl)
  moreover have "pending l2 = []" "broken l2 = broken l" using commitWrite_only_segs [OF cw] j by auto
  ultimately show ?thesis
    using sim_write [OF r1 inv2 cw] inv2 sel j cs w' by blast
qed

text \<open>C12. A commit round is all or nothing. If it succeeds, the records that were pending follow the old ones
  on disk, numbered on from them, and their round reports success. If it fails at any call, the disk
  holds the records it held before, the numbers are handed back, and the round reports the error;
  and either the active segment ends where it ended before, or the log is broken and says so.\<close>

theorem commit_all_or_nothing:
  assumes "lrel (l, Idle, w) a" and "ainv a" and "commit l w = (res, l', w')" and "hasPending l" and "\<not> broken l"
  shows "pending l = frames (a_staged a) \<and>
    (case res of
       None \<Rightarrow> disk_ok l' w' (strip (a_recs a) @ numbered (unat (pendingMin l)) (a_staged a))
           (unat (pendingMin l) + length (a_staged a))
         \<and> tail_clean l' w' \<and> rounds l' (cur l) = Some None \<and> durable l' = pendingMax l
     | Some e \<Rightarrow> disk_ok l' w' (strip (a_recs a)) (unat (pendingMin l))
         \<and> rounds l' (cur l) = Some (Some e) \<and> nextLSN l' = pendingMin l \<and> pending l' = []
         \<and> (if broken l' then errors_is e ErrBroken else tail_clean l' w'))"
proof -
  obtain j l2 err rbErr a2 where rel2: "lrel (l2, Settling j err rbErr, w') a2" "ainv a2"
      and cs: "commitSettle j err rbErr l2 = (res, l')"
      and eq: "a_recs a2 = a_recs a" "a_base a2 = a_base a" "in_flight a2 = a_staged a" "jround j = cur l"
      "jfirst j = pendingMin l" "jlast j = pendingMax l" "broken l2 = broken l"
    using commit_parts [OF assms] by blast
  have pm: "unat (pendingMin l) = a_base a" using rel2 eq by (auto simp: lrel_def job_ok_def)
  have cur: "cur l2 = a_cur a2" "cur l \<noteq> a_cur a2"
    using rel2 eq(4) by (auto simp: lrel_def rounds_ok_def job_ok_def ainv_def)
  have sg: "segs l' = segs l2" "opts l' = opts l2"
    using cs by (auto simp: commitSettle_def resolve_def newRound_def Let_def split: option.splits)
  have pend: "pending l = frames (a_staged a)" using assms(1) by (simp add: lrel_def staged_ok_def)
  show ?thesis
  proof (cases err)
    case None
    then have "res = None" "rounds l' (cur l) = Some None" "durable l' = pendingMax l" "rbErr = None"
      using cs eq rel2 by (auto simp: commitSettle_def resolve_def lrel_def)
    then show ?thesis
      using rel2 None eq pend pm assms(5) by (simp add: lrel_def disk_ok_cong [OF sg])
  next
    case (Some e)
    then obtain fe where fe: "res = Some fe" "rounds l' (cur l) = Some (Some fe)" "nextLSN l' = pendingMin l"
        "pending l' = []" "broken l' = (broken l2 \<or> rbErr \<noteq> None)" "rbErr \<noteq> None \<longrightarrow> errors_is fe ErrBroken"
      using cs eq cur by (auto simp: commitSettle_def resolve_def newRound_def Let_def split: option.splits)
    then show ?thesis
      using rel2 Some eq pend pm assms(5)
      by (cases rbErr) (simp_all add: lrel_def disk_ok_cong [OF sg])
  qed
qed

theorem commit_all_or_nothing_witness:
  "fst (commit staged1 staged_fs) = None
   \<and> disk_ok settled1 written_fs [(1, [7])] 2 \<and> tail_clean settled1 written_fs"
proof -
  have c: "commit staged1 staged_fs = (None, settled1, written_fs)"
    by (simp add: commit_def run_taken run_written run_settled)
  let ?a = "fresh_alog\<lparr>a_staged := a_staged fresh_alog @ [[7]], a_next := a_next fresh_alog + length [[7 :: byte]],
               a_handed := (a_cur fresh_alog, a_next fresh_alog, [[7]]) # a_handed fresh_alog\<rparr>"
  have "lrel (staged1, Idle, staged_fs) ?a"
    using sim_append [OF start_rel fresh_ainv room1 _ run_staged] by simp
  moreover have "ainv ?a" using ainv_stage [OF fresh_ainv] .
  moreover have "hasPending staged1" "\<not> broken staged1"
    by (simp_all add: hasPending_def recordSize_def headerSize_def) (simp add: fresh_log_def)
  moreover have "unat (pendingMin staged1) = 1" by (simp add: fresh_log_def)
  ultimately show ?thesis
    using commit_all_or_nothing [OF _ _ c, of ?a] c by (simp add: fresh_alog_def strip_def numeral_2_eq_2)
qed

lemma commit_idle:
  assumes ref: "refined (l, Idle, w)" and c: "commit l w = (res, l', w')"
  shows "refined (l', Idle, w') \<and> \<not> hasPending l'"
proof (cases "hasPending l \<and> \<not> broken l")
  case False
  then have "l' = l" "w' = w" using c by (auto simp: commit_def commitTake_def hasPending_def)
  moreover have "\<not> hasPending l" using False ref by (auto simp: refined_def lrel_def staged_ok_def hasPending_def)
  ultimately show ?thesis using ref by simp
next
  case True
  obtain a where "lrel (l, Idle, w) a" "ainv a" using ref by (auto simp: refined_def)
  then obtain j l2 err rbErr where st: "lstep\<^sup>*\<^sup>* (l, Idle, w) (l2, Settling j err rbErr, w')"
      and cs: "commitSettle j err rbErr l2 = (res, l')" and p: "pending l2 = []"
    using commit_parts [OF _ _ c] True by blast
  have "lstep\<^sup>*\<^sup>* (l, Idle, w) (l', Idle, w')" using st l_settle [OF cs] by (rule rtranclp.rtrancl_into_rtrancl)
  moreover have "pending l' = []"
    using cs p by (auto simp: commitSettle_def resolve_def newRound_def Let_def split: option.splits)
  ultimately show ?thesis using refined.steps_inv ref by (auto simp: hasPending_def)
qed

lemma refined_signal: "refined (l, ph, w) \<Longrightarrow> refined (l\<lparr>signalled := b\<rparr>, ph, w)"
  using refined.step_inv [OF _ l_signal] .

lemma committer_done:
  assumes "refined (l, Idle, w)" and "\<not> (SyncMode (opts l) \<noteq> SyncPeriodic \<and> hasPending l)"
  shows "\<exists>l' w'. committer ((idle, WakeDone) # turns) l w = (l', w', True) \<and> \<not> hasPending l'"
proof -
  obtain res l1 w1 where c: "commit l w = (res, l1, w1)" by (metis prod_cases3)
  then have "\<not> hasPending l1" using commit_idle [OF assms(1)] by blast
  then show ?thesis using assms(2) c by (cases res) (auto simp: idle_def hasPending_def)
qed

lemma committer_last_turns:
  assumes "refined (l, Idle, w)"
  shows "\<exists>l' w'. committer [(idle, WakeDone), (idle, WakeDone)] l w = (l', w', True) \<and> \<not> hasPending l'"
proof (cases "SyncMode (opts l) \<noteq> SyncPeriodic \<and> hasPending l")
  case True
  obtain res l1 w1 where c: "commit l w = (res, l1, w1)" by (metis prod_cases3)
  then have "refined (l1, Idle, w1)" "\<not> hasPending l1" using commit_idle [OF assms] by blast+
  from committer_done [OF this(1), of "[]"] this(2) show ?thesis using True c by (auto simp: idle_def)
next
  case False
  then show ?thesis by (rule committer_done [OF assms])
qed

text \<open>C13. The committer goroutine always comes to an end: whatever ticks and signals it still takes after
  \<^verbatim>\<open>Close\<close> was called, two more turns of its loop suffice, because a round never leaves anything
  pending, not even on a broken log.\<close>

theorem committer_stops:
  assumes "refined (l, Idle, w)"
  shows "\<exists>l' w'. committer (map (Pair idle) (wakes @ [WakeDone, WakeDone])) l w = (l', w', True) \<and> \<not> hasPending l'"
  using assms
proof (induction wakes arbitrary: l w)
  case Nil
  then show ?case using committer_last_turns by simp
next
  case (Cons ev wakes)
  obtain res l1 w1 where c: "commit l w = (res, l1, w1)" by (metis prod_cases3)
  obtain res' l2 w2 where c': "commit (l\<lparr>signalled := False\<rparr>) w = (res', l2, w2)" by (metis prod_cases3)
  have r: "refined (l1, Idle, w1)" "refined (l2, Idle, w2)"
    using commit_idle [OF Cons.prems c] commit_idle [OF refined_signal [OF Cons.prems] c'] by blast+
  show ?case
  proof (cases "ev = WakeDone \<and> \<not> (SyncMode (opts l) \<noteq> SyncPeriodic \<and> hasPending l)")
    case True
    then show ?thesis using committer_done [OF Cons.prems] by simp
  next
    case False
    then show ?thesis using Cons.IH [OF r(1)] Cons.IH [OF r(2)] c c' by (cases ev) (auto simp: idle_def)
  qed
qed

theorem committer_stops_witness:
  "\<exists>l' w'. committer (map (Pair idle) ([WakeTick, WakeSignal] @ [WakeDone, WakeDone])) (fresh_log small_opts) fresh_fs
     = (l', w', True) \<and> \<not> hasPending l'"
proof -
  have "refined (fresh_log small_opts, Idle, fresh_fs)" using start_rel fresh_ainv unfolding refined_def by blast
  from committer_stops [OF this] show ?thesis .
qed

text \<open>C14. Truncation loses nothing that was asked to be kept: it removes a prefix of the records, all of them
  below the limit, and if a removal fails half-way, the records and the segment list still agree with
  the disk.\<close>

theorem truncate_only_below:
  assumes "lrel (l, ph, w) a" and "ainv a" and "truncateLog lim l w = (res, l', w')"
  shows "\<exists>a' k. lrel (l', ph, w') a' \<and> ainv a' \<and> a_recs a' = drop k (a_recs a)
     \<and> (\<forall>e \<in> set (take k (a_recs a)). fst e < unat lim) \<and> active l' = active l"
  using sim_truncate [OF assms] alog.step_inv [OF assms(2)] by blast

theorem truncate_only_below_witness:
  "\<exists>a' k. lrel (fst (snd (truncateLog 9 settled1 written_fs)), Idle, snd (snd (truncateLog 9 settled1 written_fs))) a'
     \<and> ainv a' \<and> active (fst (snd (truncateLog 9 settled1 written_fs))) = active settled1"
proof -
  have "refined (fresh_log small_opts, Idle, fresh_fs)" using start_rel fresh_ainv unfolding refined_def by blast
  then have "refined (settled1, Idle, written_fs)"
    using refined.steps_inv [OF run_steps] refined.step_inv [OF _ l_append [OF run_staged room1]] by blast
  then obtain a where a: "lrel (settled1, Idle, written_fs) a" "ainv a" by (auto simp: refined_def)
  have "truncateLog 9 settled1 written_fs = (fst (truncateLog 9 settled1 written_fs),
      fst (snd (truncateLog 9 settled1 written_fs)), snd (snd (truncateLog 9 settled1 written_fs)))" by simp
  from truncate_only_below [OF a this] show ?thesis by blast
qed

end
