(* ===== verification/Recovery.thy ===== *)
theory Recovery
  imports LogCrash "HOL-Library.Multiset"
begin

text \<open>
  Opening a log: \<^verbatim>\<open>Open\<close> and \<^verbatim>\<open>recover\<close> of \<^verbatim>\<open>wal.go\<close>, \<^verbatim>\<open>salvage.go\<close> and the directory lock.

  Recovery lists the directory, scans every segment in the order of the numbers in the names, cuts a
  torn tail off the last one, checks the chain, and decides where numbering resumes. The theorems
  start from any disk that the state machine of the log can leave behind, and show which log the next
  process finds there.

  \<open>now\<close> stands for the clock, read once per salvaged segment for the name of the file the damaged
  bytes are kept in; \<open>flock\<close> is the outcome of the system call on the lock file, \<open>None\<close> for success;
  \<open>text\<close> is what \<^verbatim>\<open>rand.Text\<close> returns.
\<close>

subsection \<open>Salvage\<close>

record salvage_report =
  sPath :: string
  sOffset :: nat
  sDiscarded :: nat
  sKept :: string
  sCause :: error

type_synonym segName = "u64 \<times> u64"

text \<open>A deferred \<^verbatim>\<open>Close\<close>: it runs on every way out, and its outcome is ignored.\<close>

definition deferClose :: "nat \<Rightarrow> 'a io \<Rightarrow> 'a io" where
  "deferClose i m w = (case m w of (r, w') \<Rightarrow> (r, snd (file_close i w')))"

text \<open>
  \<^verbatim>\<open>keepBytes\<close>. \<^verbatim>\<open>io.Copy\<close> writes what it has read, also when reading then fails.
\<close>

definition keepBytes :: "nat \<Rightarrow> nat \<Rightarrow> string \<Rightarrow> unit io" where
  "keepBytes src off path =
     io_bind (open_excl path) (\<lambda>dst.
     io_bind (io_on_error
        (io_bind (file_stream src) (\<lambda>(b, rerr).
         io_bind (file_write dst (drop off b)) (\<lambda>_.
         case rerr of Some e \<Rightarrow> io_throw e | None \<Rightarrow> file_sync dst)))
        (file_close dst)) (\<lambda>_.
     file_close dst))"

definition wrapErr :: "string \<Rightarrow> 'a io \<Rightarrow> 'a io" where
  "wrapErr msg m w = (case m w of (Inl e, w') \<Rightarrow> (Inl (Wrap msg [e]), w') | (Inr x, w') \<Rightarrow> (Inr x, w'))"

definition keptName :: "string \<Rightarrow> nat \<Rightarrow> nat \<Rightarrow> string" where
  "keptName path good nanos = path @ ''.corrupt-'' @ decimal good @ ''-'' @ decimal nanos"

text \<open>
  \<^verbatim>\<open>salvage\<close> on an open file. The result is the reservation mark, the name of the following segment as
  relinked, and the report. The scan has read \<open>good\<close> bytes of the file, so the subtraction is exact.
\<close>

definition salvageFile :: "(string \<Rightarrow> nat) \<Rightarrow> nat \<Rightarrow> string \<Rightarrow> u64 \<Rightarrow> u64 \<Rightarrow> nat \<Rightarrow> segName option \<Rightarrow> error \<Rightarrow> u64
    \<Rightarrow> (u64 \<times> segName option \<times> salvage_report) io" where
  "salvageFile now i path base cnt good nxt cause reserved0 =
     io_bind (file_size i) (\<lambda>sz.
     let discarded = sz - good;
         kept = keptName path good (now path);
         lastGood = base + cnt - 1 in
     io_bind (wrapErr ''wal: salvage: keep damaged bytes'' (keepBytes i good kept)) (\<lambda>_.
     io_bind (case nxt of
                Some (nb, np) \<Rightarrow>
                  if np \<noteq> lastGood then
                    io_bind (wrapErr ''wal: salvage: relink'' (rename_file (segmentName nb np) (segmentName nb lastGood)))
                      (\<lambda>_. io_return (Some (nb, lastGood)))
                  else io_return nxt
              | None \<Rightarrow> io_return None) (\<lambda>nxt1.
     io_bind (if nxt = None then
                (let bound = lastGood + of_nat (discarded div headerSize) + 1 in
                 if bound > reserved0 then
                   io_bind (wrapErr ''wal: salvage: reserve lost LSNs'' (writeReserved bound)) (\<lambda>_. io_return bound)
                 else io_return reserved0)
              else io_return reserved0) (\<lambda>reserved1.
     io_bind syncDir (\<lambda>_.
     io_bind (file_truncate i good) (\<lambda>_.
     io_bind (file_sync i) (\<lambda>_.
     io_return (reserved1, nxt1, \<lparr>sPath = path, sOffset = good, sDiscarded = discarded, sKept = kept,
                                  sCause = cause\<rparr>))))))))"

definition salvage :: "(string \<Rightarrow> nat) \<Rightarrow> string \<Rightarrow> u64 \<Rightarrow> u64 \<Rightarrow> nat \<Rightarrow> segName option \<Rightarrow> error \<Rightarrow> u64
    \<Rightarrow> (u64 \<times> segName option \<times> salvage_report) io" where
  "salvage now path base cnt good nxt cause reserved0 =
     io_bind (open_existing path) (\<lambda>i.
       deferClose i (salvageFile now i path base cnt good nxt cause reserved0))"

subsection \<open>Recovery\<close>

text \<open>The names of segment files among the directory entries, in the order of their first LSN.\<close>

definition segmentNames :: "(string \<times> bool) list \<Rightarrow> segName list" where
  "segmentNames entries = sort_key fst
     (List.map_filter (\<lambda>(name, isDir). if isDir then None else parseSegmentName name) entries)"

text \<open>
  One segment: the scan, the salvage of damage if it is wanted, the cut of a torn tail. The result is
  the number of its records and of their bytes, the reservation mark, the following segment as
  relinked, and the reports so far.
\<close>

definition examineSegment :: "options \<Rightarrow> (string \<Rightarrow> nat) \<Rightarrow> segName \<Rightarrow> segName list \<Rightarrow> u64 \<Rightarrow> salvage_report list
    \<Rightarrow> (u64 \<times> nat \<times> u64 \<times> segName option \<times> salvage_report list) io" where
  "examineSegment op now name rest reserved0 reports w =
     (let path = segmentName (fst name) (snd name);
          lst = (rest = []) in
      case scanSegment path (nat (MaxRecordBytes op)) w of ((cnt, good, torn, err0), w1) \<Rightarrow>
      let err1 = (if err0 = None \<and> torn \<and> \<not> lst then Some (Wrap ''truncated but not the last segment'' [ErrCorrupt])
                  else err0) in
      case err1 of
        Some e \<Rightarrow>
          if errors_is e ErrCorrupt \<and> SalvageSet op then
            (case salvage now path (fst name) cnt good (case rest of [] \<Rightarrow> None | n # _ \<Rightarrow> Some n) e reserved0 w1 of
               (Inl e', w2) \<Rightarrow> (Inl e', w2)
             | (Inr (r, nxt, rep), w2) \<Rightarrow> (Inr (cnt, good, r, nxt, reports @ [rep]), w2))
          else (Inl e, w1)
      | None \<Rightarrow>
          if torn then
            (case truncate_path path good w1 of
               (Inl e, w2) \<Rightarrow> (Inl e, w2)
             | (Inr _, w2) \<Rightarrow> (Inr (cnt, good, reserved0, None, reports), w2))
          else (Inr (cnt, good, reserved0, None, reports), w1))"

definition relink :: "segName list \<Rightarrow> segName option \<Rightarrow> segName list" where
  "relink rest nxt = (case rest of [] \<Rightarrow> [] | n # ns \<Rightarrow> (case nxt of None \<Rightarrow> n # ns | Some n' \<Rightarrow> n' # ns))"

lemma relink_simps [simp]: "length (relink rest nxt) = length rest" "relink rest None = rest"
  by (simp_all add: relink_def split: list.splits option.splits)

text \<open>The loop over the segments. \<open>segs0\<close> are the segments recovered so far.\<close>

function recoverSegs :: "options \<Rightarrow> (string \<Rightarrow> nat) \<Rightarrow> segName list \<Rightarrow> segment list \<Rightarrow> u64 \<Rightarrow> salvage_report list
    \<Rightarrow> (segment list \<times> u64 \<times> salvage_report list) io" where
  "recoverSegs op now [] segs0 reserved0 reports = io_return (segs0, reserved0, reports)"
| "recoverSegs op now (name # rest) segs0 reserved0 reports =
     io_bind (examineSegment op now name rest reserved0 reports) (\<lambda>(cnt, good, reserved1, nxt, reports1).
       let s = \<lparr>baseLSN = fst name, segPath = segmentName (fst name) (snd name), prevEnd = snd name, segFile = None,
                segShut = False, segSize = good, segCount = cnt\<rparr> in
       if segs0 \<noteq> [] \<and> lastLSN (last segs0) \<noteq> prevEnd s then io_throw (ErrText ''wal: segment chain broken'')
       else recoverSegs op now (relink rest nxt) (segs0 @ [s]) reserved1 reports1)"
  by pat_completeness auto
termination
  by (relation "measure (\<lambda>(_, _, names, _). length names)") simp_all

definition set_last_file :: "nat \<Rightarrow> segment list \<Rightarrow> segment list" where
  "set_last_file i ss = butlast ss @ [(last ss)\<lparr>segFile := Some i\<rparr>]"

text \<open>The \<^verbatim>\<open>switch\<close> that decides where numbering resumes.\<close>

definition resumeSegs :: "segment list \<Rightarrow> u64 \<Rightarrow> segment list io" where
  "resumeSegs ss reserved0 =
     (if ss = [] then
        io_bind (createSegment (reserved0 + 1) 0) (\<lambda>s. io_return [s])
      else if reserved0 > lastLSN (last ss) then
        io_bind (createSegment (reserved0 + 1) (lastLSN (last ss))) (\<lambda>s. io_return (ss @ [s]))
      else io_bind (open_existing (segPath (last ss))) (\<lambda>i. io_return (set_last_file i ss)))"

definition openedLog :: "options \<Rightarrow> nat \<Rightarrow> string \<Rightarrow> segment list \<Rightarrow> u64 \<Rightarrow> log" where
  "openedLog op lock ident ss reserved0 = \<lparr>opts = op, lockFile = lock, segs = ss,
     nextLSN = baseLSN (last ss) + segCount (last ss), firstLSN = baseLSN (hd ss), reserved = reserved0,
     logID = ident, pending = [], pendingMin = 0, pendingMax = 0, durable = lastRecordLSN ss, closed = False,
     cur = 0, inflight = None, rounds = (\<lambda>_. None), nextRound = 1, failErr = None, broken = False,
     closeErr = None, signalled = False\<rparr>"

definition recover :: "options \<Rightarrow> nat \<Rightarrow> (string \<Rightarrow> nat) \<Rightarrow> string \<Rightarrow> (log \<times> salvage_report list) io" where
  "recover op lock now text =
     io_bind read_dir (\<lambda>entries.
     let names = segmentNames entries in
     io_bind readReserved (\<lambda>r0.
     io_bind (loadIdentity (names = [] \<and> r0 = 0) text) (\<lambda>ident.
     io_bind (recoverSegs op now names [] r0 []) (\<lambda>(ss, r1, reports).
     io_bind (resumeSegs ss r1) (\<lambda>ss1.
     io_return (openedLog op lock ident ss1 r1, reports))))))"

text \<open>\<^verbatim>\<open>lockDir\<close>, and \<^verbatim>\<open>Open\<close>.\<close>

definition lockName :: string where
  "lockName = ''LOCK''"

definition lockDir :: "error option \<Rightarrow> nat io" where
  "lockDir flock = io_bind (open_create lockName) (\<lambda>i.
     case flock of None \<Rightarrow> io_return i
     | Some e \<Rightarrow> (\<lambda>w. (Inl (Wrap ''wal: already open by another process'' [e]), snd (file_close i w))))"

text \<open>Where there is no \<^verbatim>\<open>flock\<close>, the lock file is only opened.\<close>

definition lockDir_other :: "nat io" where
  "lockDir_other = open_create lockName"

definition openLog :: "options \<Rightarrow> error option \<Rightarrow> (string \<Rightarrow> nat) \<Rightarrow> string \<Rightarrow> (log \<times> salvage_report list) io" where
  "openLog op0 flock now text =
     (let op = withDefaults op0 in
      if MaxRecordBytes op > MaxRecordLimit then io_throw (ErrText ''wal: MaxRecordBytes exceeds what a record header can describe'')
      else io_bind mkdir_all (\<lambda>_.
           io_bind (lockDir flock) (\<lambda>lock.
           io_on_error (recover op lock now text) (file_close lock))))"

subsection \<open>Listing the directory\<close>

definition seg_key :: "segment \<Rightarrow> segName" where
  "seg_key s = (baseLSN s, prevEnd s)"

text \<open>Every name in the directory that recovery would take for a segment is one of the log's own.\<close>

definition no_strays :: "log \<Rightarrow> fs \<Rightarrow> bool" where
  "no_strays l w \<longleftrightarrow> (\<forall>p \<in> set (map fst (dents w)). parseSegmentName p \<noteq> None \<longrightarrow> p \<in> segPath ` set (segs l))"

lemma no_straysD:
  "no_strays l w \<Longrightarrow> p \<in> set (map fst (dents w)) \<Longrightarrow> parseSegmentName p = Some k \<Longrightarrow> \<exists>s \<in> set (segs l). p = segPath s"
  unfolding no_strays_def by (metis imageE option.distinct(1))

lemma read_dir_calm:
  "faults w = [] \<Longrightarrow> read_dir w = (Inr (map (\<lambda>(p, _). (p, False)) (dents w) @ map (\<lambda>p. (p, True)) (subdirs w)), w)"
  by (simp add: read_dir_def)

lemma map_filter_dirs:
  "List.map_filter (\<lambda>(name, isDir). if isDir then None else parseSegmentName name) (map (\<lambda>p. (p, True)) ds) = []"
  by (induction ds) (simp_all add: List.map_filter_simps)

lemma map_filter_entries:
  "List.map_filter (\<lambda>(name, isDir). if isDir then None else parseSegmentName name)
      (map (\<lambda>(p, _). (p, False)) es @ map (\<lambda>p. (p, True)) ds) = List.map_filter parseSegmentName (map fst es)"
  by (induction es) (auto simp: List.map_filter_simps map_filter_dirs split: option.splits)

lemma segmentNames_own:
  assumes h: "segs_hold l w pss" and ns: "no_strays l w" and ok: "fs_ok w"
  shows "segmentNames (map (\<lambda>(p, _). (p, False)) (dents w) @ map (\<lambda>p. (p, True)) (subdirs w)) = map seg_key (segs l)"
proof -
  let ?ps = "map fst (dents w)"
  let ?xs = "List.map_filter parseSegmentName ?ps"
  have eq: "List.map_filter (\<lambda>(name, isDir). if isDir then None else parseSegmentName name)
      (map (\<lambda>(p, _). (p, False)) (dents w) @ map (\<lambda>p. (p, True)) (subdirs w)) = ?xs"
    by (rule map_filter_entries)
  have own: "\<And>s. s \<in> set (segs l) \<Longrightarrow> segPath s \<in> set ?ps \<and> parseSegmentName (segPath s) = Some (seg_key s)"
  proof -
    fix s assume s: "s \<in> set (segs l)"
    then obtain i where "map_of (dents w) (segPath s) = Some i"
      using h by (auto simp: segs_hold_def list_all2_conv_all_nth in_set_conv_nth seg_holds_def)
    then show "segPath s \<in> set ?ps \<and> parseSegmentName (segPath s) = Some (seg_key s)"
      using segs_path [OF h s] by (auto simp: seg_key_def dest!: map_of_SomeD intro: image_eqI [rotated])
  qed
  have st: "set ?xs = set (map seg_key (segs l))"
  proof (intro equalityI subsetI)
    fix k assume "k \<in> set ?xs"
    then have "\<exists>p. p \<in> set ?ps \<and> parseSegmentName p = Some k"
      by (force simp: List.map_filter_def)
    then obtain p where p: "p \<in> set ?ps" "parseSegmentName p = Some k" by blast
    then obtain s where "s \<in> set (segs l)" "p = segPath s" using ns by (fastforce simp: no_strays_def)
    then show "k \<in> set (map seg_key (segs l))" using own p by auto
  next
    fix k assume "k \<in> set (map seg_key (segs l))"
    then obtain s where s: "s \<in> set (segs l)" "k = seg_key s" by auto
    then show "k \<in> set ?xs" using own [OF s(1)] unfolding List.map_filter_def
      by (auto intro!: image_eqI [of _ _ "segPath s"] simp del: set_map simp: set_map [of "the \<circ> _"])
  qed
  have "inj_on (the \<circ> parseSegmentName) {p \<in> set ?ps. parseSegmentName p \<noteq> None}"
  proof (rule inj_onI)
    fix p q assume p: "p \<in> {p \<in> set ?ps. parseSegmentName p \<noteq> None}" and q: "q \<in> {p \<in> set ?ps. parseSegmentName p \<noteq> None}"
      and e: "(the \<circ> parseSegmentName) p = (the \<circ> parseSegmentName) q"
    obtain s t where "s \<in> set (segs l)" "p = segPath s" "t \<in> set (segs l)" "q = segPath t"
      using p q no_straysD [OF ns] by (metis (mono_tags, lifting) mem_Collect_eq option.exhaust)
    then show "p = q" using e own segs_path [OF h] by (auto simp: seg_key_def)
  qed
  then have dx: "distinct ?xs"
    using fs_okD(1) [OF ok] by (simp add: List.map_filter_def distinct_map)
  have inc: "sorted_wrt (\<lambda>s t. baseLSN s < baseLSN t) (segs l)"
    using chained_sorted [of "segs l"] h
    by (auto simp: segs_hold_def word_less_unat elim!: sorted_wrt_mono_rel [rotated])
  then have dy: "distinct (map seg_key (segs l))"
    by (auto simp: distinct_conv_nth sorted_wrt_iff_nth_less seg_key_def) (metis less_irrefl linorder_neqE_nat)
  have "mset ?xs = mset (map seg_key (segs l))"
    using st dx dy set_eq_iff_mset_eq_distinct by blast
  moreover have "inj_on fst (set (map seg_key (segs l)))"
    using inc by (auto simp: inj_on_def seg_key_def in_set_conv_nth sorted_wrt_iff_nth_less)
      (metis less_irrefl linorder_neqE_nat)
  moreover have "sorted (map fst (map seg_key (segs l)))"
    using inc by (auto simp: seg_key_def sorted_wrt_map o_def less_imp_le elim!: sorted_wrt_mono_rel [rotated])
  ultimately show ?thesis
    unfolding segmentNames_def eq by (intro sort_key_inj_key_eq) (auto simp: st)
qed

subsection \<open>Scanning the segments\<close>

lemma scanSegment_calm:
  "faults w = [] \<Longrightarrow> map_of (dents w) path = Some i \<Longrightarrow> scanSegment path m w = (scanBytes m (data w i), w)"
  by (simp add: scanSegment_def open_existing_def file_size_def file_stream_def lookup_name_def scanBytes_def)

definition shut :: "segment \<Rightarrow> segment" where
  "shut s = s\<lparr>segFile := None, segShut := False\<rparr>"

lemma shut_simps [simp]:
  "baseLSN (shut s) = baseLSN s" "segPath (shut s) = segPath s" "prevEnd (shut s) = prevEnd s"
  "segSize (shut s) = segSize s" "segCount (shut s) = segCount s" "lastLSN (shut s) = lastLSN s"
  "seg_end (shut s) = seg_end s" "seg_holds m w (shut s) = seg_holds m w s" "seg_exact w (shut s) = seg_exact w s"
  "seg_entries (shut s) = seg_entries s" "seg_key (shut s) = seg_key s"
  by (simp_all add: shut_def lastLSN_def seg_end_def seg_holds_def seg_exact_def seg_entries_def seg_key_def fun_eq_iff)

lemma sealed_data:
  assumes "seg_holds m w s ps" and "seg_exact w s"
  shows "\<exists>i. map_of (dents w) (segPath s) = Some i \<and> data w i = frames ps"
  using assms by (auto simp: seg_holds_def seg_exact_def)

lemma scan_sealed:
  assumes "limit_ok m" and "faults w = []" and "seg_holds m w s ps" and "seg_exact w s"
  shows "scanSegment (segPath s) m w = ((segCount s, segSize s, False, None), w)"
proof -
  obtain i where "map_of (dents w) (segPath s) = Some i" "data w i = frames ps"
    using sealed_data [OF assms(3,4)] by blast
  then show ?thesis
    using scanSegment_calm [OF assms(2)] scanBytes_frames [OF assms(1)] assms(3) by (simp add: seg_holds_def)
qed

text \<open>Segments that hold exactly their records are taken over one after the other.\<close>

lemma recoverSegs_sealed:
  assumes lim: "limit_ok (nat (MaxRecordBytes op))" and calm: "faults w = []" and ne: "names \<noteq> []"
  shows "list_all2 (seg_holds (nat (MaxRecordBytes op)) w) ss pss \<Longrightarrow> list_all (seg_exact w) ss \<Longrightarrow>
    chained (segs0 @ ss) \<Longrightarrow>
    recoverSegs op now (map seg_key ss @ names) segs0 r reps w = recoverSegs op now names (segs0 @ map shut ss) r reps w"
proof (induction ss arbitrary: segs0 pss)
  case Nil
  then show ?case by simp
next
  case (Cons s ss)
  then obtain ps qss where pss: "pss = ps # qss" and h: "seg_holds (nat (MaxRecordBytes op)) w s ps"
    by (auto simp: list_all2_Cons1)
  have path: "segPath s = segmentName (baseLSN s) (prevEnd s)" using h by (simp add: seg_holds_def)
  have "chained (segs0 @ [s])"
    using Cons.prems(3) chained_prefix [of "segs0 @ [s]" ss] by simp
  then have link: "segs0 \<noteq> [] \<Longrightarrow> lastLSN (last segs0) = prevEnd s" by (simp add: chained_append)
  then have nl: "\<not> (segs0 \<noteq> [] \<and> lastLSN (last segs0) \<noteq> prevEnd s)" by blast
  have sc: "scanSegment (segmentName (baseLSN s) (prevEnd s)) (nat (MaxRecordBytes op)) w
      = ((segCount s, segSize s, False, None), w)"
    using scan_sealed [OF lim calm h] Cons.prems(2) path by simp
  have sh: "shut s = \<lparr>baseLSN = baseLSN s, segPath = segmentName (baseLSN s) (prevEnd s), prevEnd = prevEnd s,
      segFile = None, segShut = False, segSize = segSize s, segCount = segCount s\<rparr>"
    using path by (simp add: shut_def)
  have "recoverSegs op now (map seg_key (s # ss) @ names) segs0 r reps w
      = recoverSegs op now (map seg_key ss @ names) (segs0 @ [shut s]) r reps w"
    using nl by (auto simp: seg_key_def examineSegment_def sc sh io_bind_def)
  also have "\<dots> = recoverSegs op now names ((segs0 @ [shut s]) @ map shut ss) r reps w"
    using Cons.prems pss chained_cong [of "segs0 @ s # ss" "(segs0 @ [shut s]) @ ss"] by (intro Cons.IH [of qss]) simp_all
  finally show ?case by simp
qed

text \<open>
  The last segment: the scan finds its published records, and those of the unfinished tail that are
  whole; the rest is cut off.
\<close>

lemma scan_active:
  assumes lim: "limit_ok m" and h: "seg_holds m w s ps"
    and i: "map_of (dents w) (segPath s) = Some i" and t: "drop (segSize s) (data w i) @ u = frames qs"
    and qs: "list_all (\<lambda>p. length p \<le> m) qs"
  shows "\<exists>es t'. scanBytes m (data w i) = (of_nat (length (ps @ es)), length (frames (ps @ es)), t' \<noteq> [], None)
    \<and> data w i = frames (ps @ es) @ t' \<and> list_all (\<lambda>p. length p \<le> m) es
    \<and> (length (data w i) = segSize s \<longrightarrow> es = [])"
proof -
  let ?t = "drop (segSize s) (data w i)"
  have d: "data w i = frames ps @ ?t" and sz: "segSize s = length (frames ps)" and ps: "list_all (\<lambda>p. length p \<le> m) ps"
    using h i by (auto simp: seg_holds_def) (metis append_take_drop_id)
  have tk: "take (length ?t) (frames qs) = ?t" and le: "length ?t \<le> length (frames qs)"
    using t by (metis append_eq_conv_conj, metis length_append le_add1)
  obtain j t' where j: "j \<le> length qs" "?t = frames (take j qs) @ t'"
    and sc: "scanLoop m (length (frames ps) + length ?t) None ?t (of_nat (length ps)) (length (frames ps))
       = (of_nat (length ps) + of_nat j, length (frames ps) + length (frames (take j qs)), t' \<noteq> [], None)"
    using scanLoop_cut [OF lim qs le, of "length (frames ps)" "of_nat (length ps)"] tk by metis
  have "scanBytes m (data w i) = scanLoop m (length (frames ps) + length ?t) None (frames ps @ ?t) 0 0"
    unfolding scanBytes_def using d by (metis length_append)
  also have "\<dots> = (of_nat (length (ps @ take j qs)), length (frames (ps @ take j qs)), t' \<noteq> [], None)"
    using scanLoop_frames [OF lim ps] sc j(1) by simp
  finally have "scanBytes m (data w i) = (of_nat (length (ps @ take j qs)), length (frames (ps @ take j qs)), t' \<noteq> [], None)" .
  moreover have "data w i = frames (ps @ take j qs) @ t'" using d j(2) by simp
  moreover have "list_all (\<lambda>p. length p \<le> m) (take j qs)" using qs by (auto simp: list_all_iff dest: in_set_takeD)
  moreover have "take j qs = []" if "length (data w i) = segSize s"
  proof -
    have "frames (take j qs) = []" using that j(2) by simp
    then show ?thesis by (cases "take j qs") simp_all
  qed
  ultimately show ?thesis by blast
qed

text \<open>The disk after a torn tail was cut off, and the segment as recovery describes it.\<close>

definition cut_file :: "nat \<Rightarrow> bytes \<Rightarrow> fs \<Rightarrow> fs" where
  "cut_file i b w = w\<lparr>data := (data w)(i := b)\<rparr>"

definition rescanned :: "segment \<Rightarrow> bytes list \<Rightarrow> segment" where
  "rescanned s ps = (shut s)\<lparr>segSize := length (frames ps), segCount := of_nat (length ps)\<rparr>"

lemma rescanned_simps [simp]:
  "baseLSN (rescanned s ps) = baseLSN s" "segPath (rescanned s ps) = segPath s" "prevEnd (rescanned s ps) = prevEnd s"
  "segSize (rescanned s ps) = length (frames ps)" "segCount (rescanned s ps) = of_nat (length ps)"
  "segFile (rescanned s ps) = None" "segShut (rescanned s ps) = False"
  by (simp_all add: rescanned_def shut_def)

lemma recoverSegs_last:
  assumes lim: "limit_ok (nat (MaxRecordBytes op))" and calm: "faults w = []"
    and h: "seg_holds (nat (MaxRecordBytes op)) w s ps" and i: "map_of (dents w) (segPath s) = Some i"
    and sc: "scanBytes (nat (MaxRecordBytes op)) (data w i)
       = (of_nat (length (ps @ es)), length (frames (ps @ es)), t' \<noteq> [], None)"
    and d: "data w i = frames (ps @ es) @ t'"
    and link: "\<not> (segs0 \<noteq> [] \<and> lastLSN (last segs0) \<noteq> prevEnd s)"
  shows "recoverSegs op now [seg_key s] segs0 r reps w =
     (Inr (segs0 @ [rescanned s (ps @ es)], r, reps), cut_file i (frames (ps @ es)) w)"
proof -
  have path: "segPath s = segmentName (baseLSN s) (prevEnd s)" using h by (simp add: seg_holds_def)
  have s: "scanSegment (segmentName (baseLSN s) (prevEnd s)) (nat (MaxRecordBytes op)) w
      = ((of_nat (length (ps @ es)), length (frames (ps @ es)), t' \<noteq> [], None), w)"
    using scanSegment_calm [OF calm i] sc path by simp
  have tr: "truncate_path (segmentName (baseLSN s) (prevEnd s)) (length (frames (ps @ es))) w
      = (Inr (), cut_file i (frames (ps @ es)) w)"
    using i path d calm by (simp add: truncate_path_def lookup_name_def file_truncate_def cut_file_def)
  have same: "t' = [] \<Longrightarrow> cut_file i (frames (ps @ es)) w = w"
    using d by (simp add: cut_file_def fun_upd_idem)
  have "rescanned s (ps @ es) = \<lparr>baseLSN = baseLSN s, segPath = segmentName (baseLSN s) (prevEnd s), prevEnd = prevEnd s,
      segFile = None, segShut = False, segSize = length (frames (ps @ es)), segCount = of_nat (length (ps @ es))\<rparr>"
    using path by (simp add: rescanned_def shut_def)
  then show ?thesis
    using link same tr by (cases "t' = []") (auto simp: seg_key_def examineSegment_def s io_bind_def)
qed

subsection \<open>Where numbering resumes\<close>

lemma createSegment_calm:
  assumes "faults w = []" and "map_of (dents w) (segmentName b p) = None"
  shows "\<exists>w'. createSegment b p w = (Inr (newSegment b p (nextIno w)), w') \<and> faults w' = []"
  using assms
  by (simp add: createSegment_def openNewSegment_def open_excl_def io_bind_def io_on_error_def lookup_name_def
      create_name_def syncDir_def open_dir_def sync_dir_handle_def Let_def)

lemma segs_hold_cong:
  assumes "segs_hold l w pss" and "map shut (segs l') = map shut (segs l)" and "maxRecord l' = maxRecord l"
  shows "segs_hold l' w pss \<and> contents (segs l') pss = contents (segs l) pss"
proof -
  have len: "length (segs l') = length (segs l)" using assms(2) map_eq_imp_length_eq by blast
  have sh: "shut (segs l' ! i) = shut (segs l ! i)" if "i < length (segs l)" for i
    using assms(2) that len by (metis nth_map)
  have f: "seg_holds m w' (segs l' ! i) = seg_holds m w' (segs l ! i)" "seg_exact w' (segs l' ! i) = seg_exact w' (segs l ! i)"
    "seg_entries (segs l' ! i) = seg_entries (segs l ! i)" if "i < length (segs l)" for i m w'
    using sh [OF that] shut_simps by metis+
  have "map (\<lambda>s. (baseLSN s, prevEnd s, segCount s)) (map shut (segs l')) =
      map (\<lambda>s. (baseLSN s, prevEnd s, segCount s)) (map shut (segs l))" using assms(2) by simp
  then have "chained (segs l') = chained (segs l)" by (intro chained_cong) (simp add: o_def)
  moreover have "list_all2 (seg_holds (maxRecord l) w) (segs l') pss"
    using assms(1) len f by (simp add: segs_hold_def list_all2_conv_all_nth)
  moreover have "list_all (seg_exact w) (butlast (segs l'))"
    using assms(1) len f by (simp add: segs_hold_def list_all_length nth_butlast)
  moreover have "map2 seg_entries (segs l') pss = map2 seg_entries (segs l) pss"
    using len f by (intro nth_equalityI) simp_all
  ultimately show ?thesis
    using assms len by (auto simp: segs_hold_def contents_def)
qed

text \<open>The end of recovery: the log resumes past everything that was ever handed out.\<close>

definition resumeAt :: "nat \<Rightarrow> u64 \<Rightarrow> nat" where
  "resumeAt k v = (if unat v \<ge> k then unat v + 1 else k)"

text \<open>What resuming comes to: the log has its records, a clean tail, and ends where the next number goes.\<close>

definition resumes :: "log \<Rightarrow> fs \<Rightarrow> bytes list list \<Rightarrow> nat \<Rightarrow> u64 \<Rightarrow> bool" where
  "resumes l w pss k v \<longleftrightarrow> (\<exists>ss w' pss'. resumeSegs (segs l) v w = (Inr ss, w') \<and> fs_ok w' \<and> faults w' = []
     \<and> (\<forall>l'. segs l' = ss \<and> maxRecord l' = maxRecord l \<longrightarrow> segs_hold l' w' pss' \<and> tail_clean l' w'
          \<and> contents (segs l') pss' = contents (segs l) pss \<and> seg_end (active l') = resumeAt k v)
     \<and> baseLSN (hd ss) = baseLSN (hd (segs l)) \<and> lastRecordLSN ss = lastRecordLSN (segs l)
     \<and> (\<forall>q. q \<notin> segNames \<longrightarrow> map_of (dents w') q = map_of (dents w) q))"

lemma resumes_new_segment:
  assumes h: "segs_hold l w pss" and ex: "seg_exact w (active l)" and ok: "fs_ok w" and calm: "faults w = []"
    and ns: "no_strays l w" and v: "unat v + 1 < 2 ^ 64" and k: "seg_end (active l) = k" and True: "v > lastLSN (active l)"
  shows "resumes l w pss k v"
proof -
  have ne: "segs l \<noteq> []" using h by (simp add: segs_hold_def)
  have sl: "unat (lastLSN (active l)) = k - 1" "0 < k"
    using seg_holds_lastLSN [OF segs_hold_active [OF h]] k segs_hold_active [OF h]
    by (auto simp: seg_holds_def seg_end_def)
  then have vk: "unat v \<ge> k" using True by (simp add: word_less_unat)
  have v1: "unat (v + 1) = unat v + 1" using v by (simp add: unat_plus_one)
  have lt: "unat (baseLSN (active l)) < unat (v + 1)" using v1 vk k by (simp add: seg_end_def)
  let ?n = "segmentName (v + 1) (lastLSN (active l))"
  have np: "\<And>s. s \<in> set (segs l) \<Longrightarrow> segPath s \<noteq> ?n" using fresh_path [OF h _ lt] .
  have free: "map_of (dents w) ?n = None"
    using no_straysD [OF ns, of ?n "(v + 1, lastLSN (active l))"] np
    by (metis map_of_eq_None_iff parseSegmentName_segmentName list.set_map)
  obtain w' where c: "createSegment (v + 1) (lastLSN (active l)) w = (Inr (newSegment (v + 1) (lastLSN (active l)) (nextIno w)), w')"
    and calm': "faults w' = []" using createSegment_calm [OF calm free] by blast
  let ?s = "newSegment (v + 1) (lastLSN (active l)) (nextIno w)"
  note out = createSegment_outcome [OF ok c]
  then have u: "untouched {?n} w w'" and i: "map_of (dents w') ?n = Some (nextIno w)" "data w' (nextIno w) = []"
    by (auto simp: newSegment_def)
  have h': "segs_hold l w' pss" using segs_hold_untouched [OF h u] np by auto
  have ex': "seg_exact w' (active l)" using seg_exact_untouched [OF ex u] np ne by (simp add: active_def)
  have "segs_hold l' w' (pss @ [[]]) \<and> tail_clean l' w' \<and> contents (segs l') (pss @ [[]]) = contents (segs l) pss
      \<and> seg_end (active l') = resumeAt k v" if l': "segs l' = segs l @ [?s]" "maxRecord l' = maxRecord l" for l'
  proof -
    have "chained (segs l')"
      unfolding l'(1) using h ne lt v1 vk k
      by (subst chained_append) (auto simp: segs_hold_def newSegment_def active_def)
    moreover have "list_all2 (seg_holds (maxRecord l) w') (segs l @ [?s]) (pss @ [[]])"
      using h' i v v1 by (simp add: list_all2_snoc segs_hold_def) (auto simp: seg_holds_def newSegment_def)
    moreover have "list_all (seg_exact w') (segs l)"
    proof -
      have "list_all (seg_exact w') (butlast (segs l) @ [active l])" using h' ex' by (simp add: segs_hold_def)
      then show ?thesis using segs_split [OF h'] by metis
    qed
    ultimately have "segs_hold l' w' (pss @ [[]])"
      using l' by (simp add: segs_hold_def)
    moreover have "length (segs l) = length pss" using h list_all2_lengthD unfolding segs_hold_def by blast
    then have "contents (segs l') (pss @ [[]]) = contents (segs l) pss"
      unfolding l'(1) by (simp add: contents_append)
    ultimately show ?thesis
      using l' i v1 vk by (simp add: tail_clean_def active_def newSegment_def seg_end_def resumeAt_def)
  qed
  moreover have "resumeSegs (segs l) v w = (Inr (segs l @ [?s]), w')"
    using True ne c by (simp add: resumeSegs_def active_def io_bind_def)
  moreover have "lastRecordLSN (segs l @ [?s]) = lastRecordLSN (segs l)"
    by (simp add: lastRecordLSN_def newSegment_def)
  moreover have "map_of (dents w') q = map_of (dents w) q" if "q \<notin> segNames" for q
    using untouched_name [OF u, of q] that segName_in by (metis singletonD)
  moreover have "baseLSN (hd (segs l @ [?s])) = baseLSN (hd (segs l))" using ne by simp
  ultimately show ?thesis
    unfolding resumes_def using calm' untouched_ok [OF u] by blast
qed

lemma resumes_last_segment:
  assumes h: "segs_hold l w pss" and ex: "seg_exact w (active l)" and ok: "fs_ok w" and calm: "faults w = []"
    and k: "seg_end (active l) = k" and shut: "\<not> segShut (active l)" and False: "\<not> v > lastLSN (active l)"
  shows "resumes l w pss k v"
proof -
  have ne: "segs l \<noteq> []" using h by (simp add: segs_hold_def)
  have sh: "seg_holds (maxRecord l) w (active l) (last pss)" using segs_hold_active [OF h] .
  obtain i where i: "map_of (dents w) (segPath (active l)) = Some i" using sh by (auto simp: seg_holds_def)
  have "unat (lastLSN (active l)) = k - 1" "0 < k"
    using seg_holds_lastLSN [OF sh] k sh by (auto simp: seg_holds_def seg_end_def)
  then have vk: "unat v < k" using False by (simp add: word_less_unat)
  let ?ss = "set_last_file i (segs l)"
  have r: "resumeSegs (segs l) v w = (Inr ?ss, w)"
    using False ne i calm by (simp add: resumeSegs_def active_def io_bind_def open_existing_def lookup_name_def)
  have shm: "map shut ?ss = map shut (segs l)"
  proof -
    have "map shut (butlast (segs l) @ [last (segs l)]) = map shut ?ss"
      by (simp add: set_last_file_def shut_def)
    then show ?thesis using ne by simp
  qed
  have "segs_hold l' w pss \<and> tail_clean l' w \<and> contents (segs l') pss = contents (segs l) pss
      \<and> seg_end (active l') = resumeAt k v" if l': "segs l' = ?ss" "maxRecord l' = maxRecord l" for l'
  proof -
    have a: "active l' = (active l)\<lparr>segFile := Some i\<rparr>" using l' by (simp add: active_def set_last_file_def)
    have "segs_hold l' w pss \<and> contents (segs l') pss = contents (segs l) pss"
      using segs_hold_cong [OF h, of l'] shm l' by metis
    then show ?thesis
      using a i ex k vk shut by (simp add: tail_clean_def seg_exact_def resumeAt_def)
  qed
  moreover have "baseLSN (hd ?ss) = baseLSN (hd (segs l))"
    using shm ne by (metis list.map_sel(1) map_is_Nil_conv shut_simps(1))
  moreover have "lastRecordLSN ?ss = lastRecordLSN (segs l)"
  proof -
    have "lastRecordLSN_from (map shut xs) = lastRecordLSN_from xs" for xs by (induction xs) simp_all
    then show ?thesis using shm unfolding lastRecordLSN_def by (metis rev_map)
  qed
  ultimately show ?thesis unfolding resumes_def using r ok calm by blast
qed

lemma resumeSegs_ok:
  assumes "segs_hold l w pss" and "seg_exact w (active l)" and "fs_ok w" and "faults w = []"
    and "no_strays l w" and "unat v + 1 < 2 ^ 64" and "seg_end (active l) = k" and "\<not> segShut (active l)"
  shows "\<exists>ss w' pss'. resumeSegs (segs l) v w = (Inr ss, w') \<and> fs_ok w' \<and> faults w' = []
     \<and> (\<forall>l'. segs l' = ss \<and> maxRecord l' = maxRecord l \<longrightarrow> segs_hold l' w' pss' \<and> tail_clean l' w'
          \<and> contents (segs l') pss' = contents (segs l) pss \<and> seg_end (active l') = resumeAt k v)
     \<and> baseLSN (hd ss) = baseLSN (hd (segs l)) \<and> lastRecordLSN ss = lastRecordLSN (segs l)
     \<and> (\<forall>q. q \<notin> segNames \<longrightarrow> map_of (dents w') q = map_of (dents w) q)"
  using resumes_new_segment [OF assms(1-7)] resumes_last_segment [OF assms(1-4,7,8)] unfolding resumes_def by blast

subsection \<open>Recovery as a whole\<close>

lemma readReserved_calm: "faults w = [] \<Longrightarrow> snd (readReserved w) = w"
  by (auto simp: readReserved_def readNumber_calm split: option.splits)

lemma lastRecordLSN_contents:
  assumes "list_all2 (seg_holds m w) ss pss" and "contents ss pss \<noteq> []"
  shows "unat (lastRecordLSN ss) = fst (last (contents ss pss))"
  using assms
proof (induction ss arbitrary: pss rule: rev_induct)
  case (snoc s ss)
  then obtain qss ps where pss: "pss = qss @ [ps]" and h: "list_all2 (seg_holds m w) ss qss" "seg_holds m w s ps"
    by (auto simp: list_all2_append1 list_all2_Cons1)
  have c: "contents (ss @ [s]) pss = contents ss qss @ seg_entries s ps"
    using h(1) pss by (simp add: contents_append list_all2_lengthD)
  show ?case
  proof (cases "ps = []")
    case True
    then have "segCount s = 0" using h(2) by (simp add: seg_holds_def)
    with True c snoc.IH [OF h(1)] snoc.prems(2) pss show ?thesis by (simp add: lastRecordLSN_def)
  next
    case False
    have n: "unat (segCount s) = length ps" using seg_holds_count [OF h(2)] .
    have ne: "numbered (unat (baseLSN s)) ps \<noteq> []" using False by (metis length_0_conv length_numbered)
    have "fst (last (numbered (unat (baseLSN s)) ps)) = unat (baseLSN s) + (length ps - 1)"
      using False by (simp add: last_conv_nth [OF ne] nth_numbered)
    then have "fst (last (seg_entries s ps)) = seg_end s - 1" "seg_entries s ps \<noteq> []"
      using False n ne by (simp_all add: seg_entries_def seg_end_def Suc_leI)
    moreover have "0 < segCount s" using False n by (simp add: word_gt_0 word_eq_unat)
    ultimately show ?thesis
      using c seg_holds_lastLSN [OF h(2)] by (simp add: lastRecordLSN_def)
  qed
qed (simp add: contents_def)

text \<open>The abstract log a newly opened one starts as.\<close>

definition opened_alog :: "(nat \<times> bytes) list \<Rightarrow> nat \<Rightarrow> alog" where
  "opened_alog cs n = \<lparr>a_recs = map (\<lambda>(k, p). (k, p, None)) cs, a_flight = None, a_staged = [], a_next = n,
     a_cur = 0, a_rounds = (\<lambda>_. None), a_nextRound = 1, a_dead = False, a_low = 0, a_handed = []\<rparr>"

lemma opened_refines:
  assumes h: "segs_hold l w pss" and tc: "tail_clean l w" and ok: "fs_ok w"
    and l: "l = openedLog op lock ident ss r" and op: "0 \<le> MaxRecordBytes op" "limit_ok (nat (MaxRecordBytes op))"
    and n: "seg_end (active l) = n" "n < 2 ^ 64"
  shows "lrel (l, Idle, w) (opened_alog (contents (segs l) pss) n) \<and> ainv (opened_alog (contents (segs l) pss) n)
    \<and> disk_ok l w (contents (segs l) pss) n \<and> unat (nextLSN l) = n"
proof -
  let ?cs = "contents (segs l) pss"
  have f: "segs l = ss" "opts l = op" "pending l = []" "cur l = 0" "rounds l = (\<lambda>_. None)" "nextRound l = 1"
      "broken l = False" "inflight l = None" "firstLSN l = baseLSN (hd ss)" "durable l = lastRecordLSN ss"
      "nextLSN l = baseLSN (last ss) + segCount (last ss)"
    by (simp_all add: l openedLog_def)
  have d: "disk_ok l w ?cs n"
    using h ok tc n tail_clean_handle tail_prefix_exact tail_clean_exact unfolding disk_ok_def by blast
  have st: "strip (a_recs (opened_alog ?cs n)) = ?cs"
    by (simp add: opened_alog_def strip_def o_def case_prod_beta)
  have nx: "unat (nextLSN l) = n"
    using n f by (simp add: active_def seg_end_def unat_plus_no_wrap)
  have lh: "list_all2 (seg_holds (maxRecord l) w) ss pss" "chained ss" "ss \<noteq> []"
    using h f by (auto simp: segs_hold_def)
  note srt = contents_sorted [OF lh(1,2)]
  have b: "a_base (opened_alog ?cs n) = n" "in_flight (opened_alog ?cs n) = []"
    by (simp_all add: opened_alog_def a_base_def in_flight_def)
  have "ainv (opened_alog ?cs n)"
    using srt lh(3) n unfolding ainv_def b
    by (auto simp: opened_alog_def f active_def o_def case_prod_beta)
  moreover have "?cs \<noteq> [] \<longrightarrow> unat (durable l) = fst (last (a_recs (opened_alog ?cs n)))"
    using lastRecordLSN_contents [OF lh(1)] by (auto simp: f opened_alog_def last_map case_prod_beta)
  moreover have "unat (baseLSN (active l)) \<le> n" using n by (simp add: seg_end_def)
  ultimately show ?thesis
    using d st nx b tc op
    by (auto simp: lrel_def staged_ok_def rounds_ok_def f) (auto simp: opened_alog_def f)
qed

text \<open>The scan of all segments of a disk the log left behind.\<close>

lemma recoverSegs_all:
  assumes h: "segs_hold l w pss" and tp: "tail_prefix l w" and ok: "fs_ok w" and calm: "faults w = []"
    and op: "nat (MaxRecordBytes op) = maxRecord l" "limit_ok (maxRecord l)"
    and bound: "\<And>b. file_at w (segPath (active l)) = Some b \<Longrightarrow> seg_end (active l) + length b < 2 ^ 64"
  shows "\<exists>es i w2 l1. w2 = cut_file i (frames (last pss @ es)) w
     \<and> segs l1 = map shut (butlast (segs l)) @ [rescanned (active l) (last pss @ es)] \<and> opts l1 = opts l
     \<and> recoverSegs op now (map seg_key (segs l)) [] r [] w = (Inr (segs l1, r, []), w2)
     \<and> segs_hold l1 w2 (butlast pss @ [last pss @ es]) \<and> seg_exact w2 (active l1)
     \<and> contents (segs l1) (butlast pss @ [last pss @ es]) = contents (segs l) pss @ numbered (seg_end (active l)) es
     \<and> seg_end (active l1) = seg_end (active l) + length es
     \<and> map_of (dents w) (segPath (active l)) = Some i
     \<and> (seg_exact w (active l) \<longrightarrow> es = [])"
proof -
  let ?m = "maxRecord l" and ?ps = "last pss"
  have sh: "seg_holds ?m w (active l) ?ps" using segs_hold_active [OF h] .
  obtain i where i: "map_of (dents w) (segPath (active l)) = Some i" using sh by (auto simp: seg_holds_def)
  obtain qs u where tq: "drop (segSize (active l)) (data w i) @ u = frames qs" "list_all (\<lambda>p. length p \<le> ?m) qs"
    using tp i by (auto simp: tail_prefix_def)
  obtain es t' where sc: "scanBytes ?m (data w i) = (of_nat (length (?ps @ es)), length (frames (?ps @ es)), t' \<noteq> [], None)"
    and d: "data w i = frames (?ps @ es) @ t'" and es: "list_all (\<lambda>p. length p \<le> ?m) es"
    and ex: "length (data w i) = segSize (active l) \<longrightarrow> es = []"
    using scan_active [OF op(2) sh i tq] by blast
  let ?s = "rescanned (active l) (?ps @ es)" and ?w = "cut_file i (frames (?ps @ es)) w"
  have key: "map seg_key (segs l) = map seg_key (butlast (segs l)) @ [seg_key (active l)]"
    using segs_split [OF h] by (metis list.simps(8,9) map_append)
  have parts: "list_all2 (seg_holds ?m w) (butlast (segs l)) (butlast pss)" "list_all (seg_exact w) (butlast (segs l))"
      "chained (butlast (segs l) @ [active l])"
    using h segs_split [OF h] by (auto simp: segs_hold_parts)
  have link: "\<not> (map shut (butlast (segs l)) \<noteq> [] \<and> lastLSN (last (map shut (butlast (segs l)))) \<noteq> prevEnd (active l))"
    using parts(3) by (cases "butlast (segs l) = []") (simp_all add: chained_append last_map)
  have rec: "recoverSegs op now (map seg_key (segs l)) [] r [] w = (Inr (map shut (butlast (segs l)) @ [?s], r, []), ?w)"
    unfolding key
    using recoverSegs_sealed [of op w "[seg_key (active l)]" "butlast (segs l)" "butlast pss" "[]" now r "[]"]
      recoverSegs_last [of op w "active l" ?ps i es t' "map shut (butlast (segs l))" now r "[]"] link d i
      op parts chained_prefix [OF parts(3)] calm sh sc by simp
  have oi: "only_ino i w ?w" by (simp add: only_ino_def cut_file_def)
  have u: "untouched {segPath (active l)} w ?w" using only_ino_untouched [OF ok oi i] .
  have "length (?ps @ es) \<le> length ?ps + length (data w i)"
  proof -
    have "length xs \<le> length (frames xs)" for xs by (induction xs) (simp_all add: recordSize_def headerSize_def)
    from this [of es] d show ?thesis by simp
  qed
  then have room: "unat (baseLSN (active l)) + length (?ps @ es) < 2 ^ 64"
    using bound [of "data w i"] i seg_holds_end [OF sh] by (simp add: file_at_def lookup_name_def)
  have sh': "seg_holds ?m ?w ?s (?ps @ es)"
    using sh i room es by (auto simp: seg_holds_def cut_file_def)
  let ?l1 = "l\<lparr>segs := map shut (butlast (segs l)) @ [?s]\<rparr>"
  have "segs_hold (set_active ?s l) ?w (butlast pss @ [?ps @ es])"
    using segs_hold_set_active [OF h u sh'] by simp
  then have h1: "segs_hold ?l1 ?w (butlast pss @ [?ps @ es])"
      and c1: "contents (segs ?l1) (butlast pss @ [?ps @ es]) = contents (segs (set_active ?s l)) (butlast pss @ [?ps @ es])"
    using segs_hold_cong [of "set_active ?s l" ?w _ ?l1] by (simp_all add: shut_def)
  have "contents (segs (set_active ?s l)) (butlast pss @ [?ps @ es]) = contents (segs l) pss @ numbered (seg_end (active l)) es"
  proof -
    have "length (butlast (segs l)) = length (butlast pss)" using parts(1) list_all2_lengthD by blast
    then show ?thesis
      using contents_split [OF h] seg_holds_end [OF sh]
      by (simp add: contents_append seg_entries_append) (simp add: seg_entries_def)
  qed
  moreover have "seg_exact ?w (active ?l1)" using i by (simp add: seg_exact_def active_def cut_file_def)
  moreover have "seg_end (active ?l1) = seg_end (active l) + length es"
    using seg_holds_end [OF sh'] seg_holds_end [OF sh] by (simp add: active_def)
  moreover have "seg_exact w (active l) \<longrightarrow> es = []" using ex i by (simp add: seg_exact_def)
  ultimately show ?thesis
    using h1 c1 rec i
    by (intro exI [of _ es] exI [of _ i] exI [of _ ?w] exI [of _ ?l1]) simp
qed

text \<open>
  Opening on a disk where no call fails. \<open>es\<close> are the records of an unfinished round that had reached
  the file whole; there are none when the last segment's file ends where its published records end.
\<close>

lemma recover_calm:
  assumes h: "segs_hold l w pss" and ok: "fs_ok w" and tp: "tail_prefix l w"
    and cs: "contents (segs l) pss = cs" and n: "seg_end (active l) = n"
    and calm: "faults w = []" and ns: "no_strays l w"
    and op: "MaxRecordBytes op = MaxRecordBytes (opts l)" "0 \<le> MaxRecordBytes op" "limit_ok (maxRecord l)"
    and rv: "fst (readReserved w) = Inr v" "unat v + 1 < 2 ^ 64"
    and ident: "loadIdentity False text w = (Inr idt, w)"
    and bound: "\<And>b. file_at w (segPath (active l)) = Some b \<Longrightarrow> n + length b < 2 ^ 64"
  shows "\<exists>l' w' es. recover op lock now text w = (Inr (l', []), w')
     \<and> lrel (l', Idle, w') (opened_alog (cs @ numbered n es) (resumeAt (n + length es) v))
     \<and> ainv (opened_alog (cs @ numbered n es) (resumeAt (n + length es) v))
     \<and> disk_ok l' w' (cs @ numbered n es) (resumeAt (n + length es) v)
     \<and> unat (nextLSN l') = resumeAt (n + length es) v \<and> reserved l' = v \<and> logID l' = idt
     \<and> (seg_exact w (active l) \<longrightarrow> es = [])"
proof -
  obtain es i w2 l1 where w2: "w2 = cut_file i (frames (last pss @ es)) w" and l1: "opts l1 = opts l"
      "segs l1 = map shut (butlast (segs l)) @ [rescanned (active l) (last pss @ es)]"
    and rec: "recoverSegs op now (map seg_key (segs l)) [] v [] w = (Inr (segs l1, v, []), w2)"
    and h1: "segs_hold l1 w2 (butlast pss @ [last pss @ es])" "seg_exact w2 (active l1)"
      "contents (segs l1) (butlast pss @ [last pss @ es]) = cs @ numbered n es" "seg_end (active l1) = n + length es"
    and i: "map_of (dents w) (segPath (active l)) = Some i" and ex: "seg_exact w (active l) \<longrightarrow> es = []"
    using recoverSegs_all [OF h tp ok calm _ op(3), of op now v] op(1) bound unfolding n cs by (metis)
  have w2d: "dents w2 = dents w" "faults w2 = []" "fs_ok w2"
    using w2 calm ok by (simp_all add: cut_file_def fs_ok_def)
  have paths: "segPath ` set (segs l1) = segPath ` set (segs l)"
  proof -
    have "segPath ` set (butlast (segs l) @ [active l]) = segPath ` set (segs l1)"
      by (simp add: l1(2) image_image)
    then show ?thesis using segs_split [OF h] by metis
  qed
  then have ns1: "no_strays l1 w2" using ns w2d(1) by (simp add: no_strays_def)
  have a1: "\<not> segShut (active l1)" by (simp add: active_def l1(2))
  obtain ss w3 pss3 where rs: "resumeSegs (segs l1) v w2 = (Inr ss, w3)" "fs_ok w3"
    and out: "\<And>l'. segs l' = ss \<Longrightarrow> maxRecord l' = maxRecord l1 \<Longrightarrow> segs_hold l' w3 pss3 \<and> tail_clean l' w3
          \<and> contents (segs l') pss3 = cs @ numbered n es \<and> seg_end (active l') = resumeAt (n + length es) v"
    using resumeSegs_ok [OF h1(1,2) w2d(3,2) ns1 rv(2) h1(4) a1] h1(3) by auto
  let ?l = "openedLog op lock idt ss v"
  have "segs ?l = ss" "maxRecord ?l = maxRecord l1" using op l1(1) by (simp_all add: openedLog_def)
  note o = out [OF this]
  have lt: "resumeAt (n + length es) v < 2 ^ 64"
  proof -
    have "seg_end (active l1) < 2 ^ 64"
      using segs_hold_active [OF h1(1)] seg_holds_end [OF segs_hold_active [OF h1(1)]] by (simp add: seg_holds_def)
    then show ?thesis using rv(2) h1(4) by (simp add: resumeAt_def)
  qed
  note ref = opened_refines [OF conjunct1 [OF o] _ rs(2) refl op(2), of "resumeAt (n + length es) v"]
  have "readReserved w = (Inr v, w)" using rv(1) readReserved_calm [OF calm] by (metis prod.collapse)
  moreover have "segs l \<noteq> []" using h by (simp add: segs_hold_def)
  ultimately have "recover op lock now text w = (Inr (?l, []), w3)"
    using rec rs(1) ident
    by (simp add: recover_def io_bind_def read_dir_calm [OF calm] segmentNames_own [OF h ns ok] Let_def)
  moreover have "reserved ?l = v" "logID ?l = idt" by (simp_all add: openedLog_def)
  ultimately show ?thesis
    using ref o lt op ex by (intro exI [of _ ?l] exI [of _ w3] exI [of _ es]) auto
qed

end
