(* ===== verification/Leftovers.thy ===== *)
theory Leftovers
  imports Recovery
begin

text \<open>
  The directory a process finds. Besides the log's own segments there may be others: segments that were
  truncated away, if the removal of their names had not reached the device when the power failed, and
  the empty file of a segment that a rotation had begun. \<open>found_segs\<close> describes such a directory,
  \<open>recover_left\<close> what opening it gives, and \<open>lstep_leaves\<close> shows that every step of the log leaves one.

  A process that is killed in the middle of an operation leaves the disk of a run in which every call
  from then on fails. Since the steps of the log are taken under any list of failing calls, a kill
  inside a step is covered by what is said of the states after it.
\<close>

text \<open>A call reports that a name does not exist only when it does not.\<close>

definition honest :: "fs \<Rightarrow> bool" where
  "honest w \<longleftrightarrow> (\<forall>e k. Some (Fault e k) \<in> set (faults w) \<longrightarrow> e \<noteq> ENOENT)"

lemma honest_pop: "honest w \<Longrightarrow> honest (pop_fault w)"
  by (cases "faults w") (auto simp: honest_def pop_fault_def)

lemma next_fault_honest: "honest w \<Longrightarrow> next_fault w = Some (Fault e k) \<Longrightarrow> e \<noteq> ENOENT"
  by (auto simp: honest_def next_fault_def split: list.splits)

subsection \<open>What is in the directory\<close>

text \<open>
  What a process may find in the directory besides the log's own segments: before them, segments that had
  been truncated away but whose removal had not reached the device; after them, the empty file of a
  rotation that was cut short.
\<close>

definition found_segs :: "log \<Rightarrow> fs \<Rightarrow> segment list \<Rightarrow> bytes list list \<Rightarrow> segment list \<Rightarrow> bool" where
  "found_segs l w olds oss news \<longleftrightarrow> no_strays (l\<lparr>segs := olds @ segs l @ news\<rparr>) w \<and> chained (olds @ segs l @ news)
     \<and> list_all2 (seg_holds (maxRecord l) w) olds oss \<and> list_all (seg_exact w) olds
     \<and> (news = [] \<or> (\<exists>s. news = [s] \<and> seg_holds (maxRecord l) w s [] \<and> seg_exact w s
          \<and> unat (baseLSN s) = seg_end (active l) \<and> seg_exact w (active l)))"

lemma found_none: "segs_hold l w pss \<Longrightarrow> no_strays l w \<Longrightarrow> found_segs l w [] [] []"
  by (simp add: found_segs_def segs_hold_def)

lemma found_hold:
  assumes f: "found_segs l w olds oss news" and h: "segs_hold l w pss" and tp: "tail_prefix l w"
    and l0: "l0 = l\<lparr>segs := olds @ segs l @ news\<rparr>"
  shows "segs_hold l0 w (oss @ pss @ map (\<lambda>_. []) news) \<and> tail_prefix l0 w \<and> no_strays l0 w
     \<and> seg_end (active l0) = seg_end (active l) \<and> (seg_exact w (active l) \<longrightarrow> seg_exact w (active l0))
     \<and> contents (segs l0) (oss @ pss @ map (\<lambda>_. []) news) = contents olds oss @ contents (segs l) pss"
proof -
  have ne: "segs l \<noteq> []" and all: "list_all2 (seg_holds (maxRecord l) w) (segs l) pss"
      and ex: "list_all (seg_exact w) (butlast (segs l))"
    using h by (simp_all add: segs_hold_def)
  have len: "length olds = length oss" "length (segs l) = length pss"
    using f all list_all2_lengthD by (auto simp: found_segs_def)
  have act: "active l0 = (case news of [] \<Rightarrow> active l | s # _ \<Rightarrow> s) \<and> length news \<le> 1"
    using f ne by (auto simp: l0 active_def found_segs_def)
  have sealed: "list_all (seg_exact w) (segs l)" if "seg_exact w (active l)"
    using ex that segs_split [OF h] by (metis list_all_append list.pred_inject)
  have "segs_hold l0 w (oss @ pss @ map (\<lambda>_. []) news)"
    using f ne all ex sealed by (auto simp: segs_hold_def l0 found_segs_def list_all2_appendI butlast_append)
  moreover have "tail_prefix l0 w"
  proof (cases "news = []")
    case True
    then have "active l0 = active l" "maxRecord l0 = maxRecord l" using act by (simp_all add: l0)
    then show ?thesis using tp by (simp add: tail_prefix_def)
  next
    case False
    then have "seg_exact w (active l0)" using f act by (auto simp: found_segs_def)
    then show ?thesis by (rule tail_prefix_exact)
  qed
  moreover have "contents (segs l0) (oss @ pss @ map (\<lambda>_. []) news) = contents olds oss @ contents (segs l) pss"
    using len f by (auto simp: l0 contents_append found_segs_def seg_entries_def contents_def)
  moreover have "seg_end (active l0) = seg_end (active l)"
    using f act by (auto simp: found_segs_def seg_holds_end)
  ultimately show ?thesis
    using f act by (auto simp: found_segs_def l0)
qed

subsection \<open>Opening what was left\<close>

text \<open>What recovery needs of the metadata files: an identity, and a mark it can read.\<close>

definition meta_readable :: "string \<Rightarrow> u64 \<Rightarrow> fs \<Rightarrow> bool" where
  "meta_readable idt v w \<longleftrightarrow> visible idt \<and> file_at w identityName = Some (bytesOf (idt @ [CHR 0x0A]))
     \<and> file_at w reservedName = Some (numberLine v) \<and> unat v + 1 < 2 ^ 64"

lemma meta_readable_reads:
  assumes "meta_readable idt v w" and "faults w = []"
  shows "fst (readReserved w) = Inr v" and "loadIdentity False text w = (Inr idt, w)"
  using assms readReserved_numberLine [OF assms(2)]
  by (auto simp: meta_readable_def loadIdentity_def read_file_calm visible_trim visible_not_bad simp del: append_assoc)

text \<open>What is left of a log opens again with everything that is in it.\<close>

lemma recover_left:
  assumes d: "segs_hold l w pss" "fs_ok w" "tail_prefix l w" and calm: "faults w = []" and f: "found_segs l w olds oss news"
    and op: "MaxRecordBytes op = MaxRecordBytes (opts l)" "0 \<le> MaxRecordBytes op" "limit_ok (maxRecord l)"
    and mr: "meta_readable idt v w"
    and bound: "\<And>b. file_at w (segPath (active l)) = Some b \<Longrightarrow> seg_end (active l) + length b < 2 ^ 64"
  shows "\<exists>l' w' es. recover op lock now text w = (Inr (l', []), w') \<and> refined (l', Idle, w')
     \<and> disk_ok l' w' (contents olds oss @ contents (segs l) pss @ numbered (seg_end (active l)) es)
         (resumeAt (seg_end (active l) + length es) v)
     \<and> unat (nextLSN l') = resumeAt (seg_end (active l) + length es) v \<and> logID l' = idt
     \<and> (seg_exact w (active l) \<longrightarrow> es = [])"
proof -
  define l0 where "l0 = l\<lparr>segs := olds @ segs l @ news\<rparr>"
  note fh = found_hold [OF f d(1,3) l0_def]
  have bd: "seg_end (active l0) + length b < 2 ^ 64" if b: "file_at w (segPath (active l0)) = Some b" for b
  proof (cases "news = []")
    case True
    then have "active l0 = active l" using d(1) by (simp add: l0_def active_def segs_hold_def)
    then show ?thesis using bound b by simp
  next
    case False
    then have new: "seg_holds (maxRecord l) w (active l0) []" "seg_exact w (active l0)"
      using f by (auto simp: found_segs_def l0_def active_def)
    then have "b = []" using b by (auto simp: seg_holds_def seg_exact_def file_at_def lookup_name_def)
    moreover have "unat (baseLSN (active l0)) < 2 ^ 64" using new(1) by (simp add: seg_holds_def)
    ultimately show ?thesis using seg_holds_end [OF new(1)] by simp
  qed
  have m: "opts l0 = opts l" by (simp add: l0_def)
  have "segs_hold l0 w (oss @ pss @ map (\<lambda>_. []) news)" "tail_prefix l0 w" "no_strays l0 w"
    using fh by blast+
  note recover_calm [OF this(1) d(2) this(2) refl refl calm this(3), unfolded m, OF op meta_readable_reads(1) [OF mr calm] _
        meta_readable_reads(2) [OF mr calm], of lock now]
  then show ?thesis
    using fh mr bd by (simp add: meta_readable_def refined_def) blast
qed

subsection \<open>What the steps of the log leave in the directory\<close>

lemma names_in: "p \<in> set (map fst (dents w)) \<longleftrightarrow> map_of (dents w) p \<noteq> None"
  by (simp add: map_of_eq_None_iff)

lemma no_strays_iff:
  "no_strays l w \<longleftrightarrow> (\<forall>p i k. map_of (dents w) p = Some i \<longrightarrow> parseSegmentName p = Some k \<longrightarrow> p \<in> segPath ` set (segs l))"
proof -
  have "no_strays l w \<longleftrightarrow> (\<forall>p. p \<in> set (map fst (dents w)) \<longrightarrow> parseSegmentName p \<noteq> None \<longrightarrow> p \<in> segPath ` set (segs l))"
    unfolding no_strays_def by blast
  then show ?thesis unfolding names_in by (metis not_Some_eq)
qed

lemma no_strays_untouched:
  assumes "no_strays l w" and "untouched P w w'"
    and "\<And>p i k. p \<in> P \<Longrightarrow> map_of (dents w') p = Some i \<Longrightarrow> parseSegmentName p = Some k \<Longrightarrow> p \<in> segPath ` set (segs l')"
    and "\<And>s. s \<in> set (segs l) \<Longrightarrow> segPath s \<notin> P \<Longrightarrow> segPath s \<in> segPath ` set (segs l')"
  shows "no_strays l' w'"
  unfolding no_strays_iff
proof (intro allI impI)
  fix p i k assume p: "map_of (dents w') p = Some i" "parseSegmentName p = Some k"
  show "p \<in> segPath ` set (segs l')"
  proof (cases "p \<in> P")
    case True
    then show ?thesis using assms(3) p by blast
  next
    case False
    then have "map_of (dents w) p = Some i" using untouched_name [OF assms(2)] p by simp
    then show ?thesis using assms(1,4) p False unfolding no_strays_iff by blast
  qed
qed

lemma meta_no_segment [simp]:
  "parseSegmentName reservedName = None" "parseSegmentName checkpointName = None" "parseSegmentName (tmpName q) = None"
  by (simp_all add: parseSegmentName_def reservedName_def checkpointName_def tmpName_def segmentSuffix_def hasSuffix_def)

lemma no_strays_meta:
  assumes "no_strays l w" and "meta_frame name w w'" and "name \<in> {reservedName, checkpointName}" and "segs l' = segs l"
  shows "no_strays l' w'"
  by (rule no_strays_untouched [OF assms(1) meta_frame_untouched [OF assms(2)]]) (use assms(3,4) in auto)

lemma honest_dents [simp]: "honest (w\<lparr>dents := ds\<rparr>) = honest w"
  by (simp add: honest_def)

lemma remove_honest:
  assumes "honest w" and "remove_file p w = (r, w')"
  shows "honest w' \<and> (r = Inr () \<or> r = Inl (Errno ENOENT) \<longrightarrow> map_of (dents w') p = None)"
  using assms next_fault_honest [OF assms(1)] honest_pop [OF assms(1)]
  by (auto simp: remove_file_def lookup_name_def delete_conv honest_dents split: option.splits fault.splits)

lemma removeDoomed_gone:
  "fs_ok w \<Longrightarrow> honest w \<Longrightarrow> distinct (map segPath ss) \<Longrightarrow> removeDoomed ss r w = (err, r', w') \<Longrightarrow>
   (\<forall>s \<in> set (take (r' - r) ss). map_of (dents w') (segPath s) = None)"
proof (induction ss r w rule: removeDoomed.induct)
  case (1 r w)
  then show ?case by simp
next
  case (2 s ss r w)
  obtain x w1 where x: "remove_file (segPath s) w = (x, w1)" by fastforce
  have u: "untouched {segPath s} w w1" using remove_file_untouched [OF "2.prems"(1), of "segPath s"] x by simp
  note ok = untouched_ok [OF u]
  note ho = remove_honest [OF "2.prems"(2) x]
  show ?case
  proof (cases "\<exists>e. x = Inl e \<and> e \<noteq> Errno ENOENT")
    case True
    then show ?thesis using "2.prems" x by auto
  next
    case False
    then have rec: "removeDoomed ss (Suc r) w1 = (err, r', w')" and gone: "map_of (dents w1) (segPath s) = None"
      using "2.prems"(4) x ho by (auto split: sum.splits)
    have "\<forall>t \<in> set (take (r' - Suc r) ss). map_of (dents w') (segPath t) = None"
      using "2.IH" False x ok ho "2.prems"(3) rec by (cases x) auto
    moreover have "Suc r \<le> r'" "untouched (segPath ` set (take (r' - Suc r) ss)) w1 w'"
      using removeDoomed_outcome [OF ok rec] by auto
    moreover have "segPath s \<notin> segPath ` set (take (r' - Suc r) ss)"
      using "2.prems"(3) by (auto dest: in_set_takeD)
    moreover have "take (r' - r) (s # ss) = s # take (r' - Suc r) ss" using \<open>Suc r \<le> r'\<close> by (simp add: take_Cons')
    ultimately show ?thesis
      using gone untouched_name [of _ w1 w' "segPath s"] by auto
  qed
qed

lemma no_strays_truncate:
  assumes t: "truncateLog lim l w = (err, l', w')" and h: "segs_hold l w pss" and ok: "fs_ok w" and ho: "honest w"
    and ns: "no_strays l w"
  shows "no_strays l' w'"
proof (cases "take (dropCount lim (segs l)) (segs l) = []")
  case True
  then show ?thesis using t ns by (auto simp: truncateLog_def)
next
  case False
  let ?dc = "dropCount lim (segs l)"
  obtain rerr k w1 where r: "removeDoomed (take ?dc (segs l)) 0 w = (rerr, k, w1)" by (metis prod_cases3)
  obtain sr w2 where s: "syncDir w1 = (sr, w2)" by fastforce
  have k: "k \<le> ?dc" and u1: "untouched (segPath ` set (take k (segs l))) w w1"
    using removeDoomed_outcome [OF ok r] by (auto simp: min_absorb1)
  have w': "dents w' = dents w1" and l': "segs l' = drop k (segs l)"
    using t False r s syncDir_cases [OF s]
    by (cases "drop k (segs l)"; auto simp: truncateLog_def Let_def split: option.splits sum.splits)+
  have "distinct (map segPath (take ?dc (segs l)))"
    using h chained_paths unfolding segs_hold_def take_map [symmetric] by (blast intro: distinct_take)
  then have "\<forall>s \<in> set (take k (segs l)). map_of (dents w1) (segPath s) = None"
    using removeDoomed_gone [OF ok ho _ r] k by (simp add: min_absorb1)
  moreover have "segPath s \<in> segPath ` set (drop k (segs l))"
    if "s \<in> set (segs l)" "segPath s \<notin> segPath ` set (take k (segs l))" for s
    using that set_take_disj_set_drop_if_distinct append_take_drop_id [of k "segs l"] by (metis UnE image_eqI set_append)
  ultimately have "no_strays l' w1"
    by (intro no_strays_untouched [OF ns u1]) (auto simp: l')
  then show ?thesis by (simp add: no_strays_def w')
qed


text \<open>A new segment that could not be completed leaves nothing, or its empty file.\<close>

definition empty_or_gone :: "string \<Rightarrow> fs \<Rightarrow> bool" where
  "empty_or_gone p w \<longleftrightarrow> (\<forall>i. map_of (dents w) p = Some i \<longrightarrow> data w i = [])"

lemma empty_same: "dents w' = dents w \<Longrightarrow> data w' = data w \<Longrightarrow> empty_or_gone p w' = empty_or_gone p w"
  by (simp add: empty_or_gone_def)

lemma discard_leaves:
  assumes "empty_or_gone p w" shows "empty_or_gone p (snd (discard s w))"
proof -
  define w1 where "w1 = (case segFile s of None \<Rightarrow> w | Some i \<Rightarrow> snd (file_close i w))"
  have "empty_or_gone p w1"
    using assms by (auto simp: w1_def empty_or_gone_def file_close_def split: option.splits fault.splits)
  then have "empty_or_gone p (snd (remove_file (segPath s) w1))"
    using remove_file_cases [of "segPath s" w1 "fst (remove_file (segPath s) w1)" "snd (remove_file (segPath s) w1)"]
    by (auto simp: empty_or_gone_def delete_conv split: sum.splits if_splits)
  then show ?thesis by (simp add: discard_def w1_def)
qed

lemma openNewSegment_leaves:
  assumes "map_of (dents w) p = None" and "openNewSegment p w = (r, w')"
  shows "empty_or_gone p w'"
proof -
  obtain r1 w1 where o: "open_excl p w = (r1, w1)" by fastforce
  have e: "empty_or_gone p w1" and n: "\<forall>e. r1 = Inl e \<longrightarrow> map_of (dents w1) p = None"
    using o assms(1) by (auto simp: open_excl_def lookup_name_def create_name_def empty_or_gone_def update_conv
        split: option.splits fault.splits)
  show ?thesis
  proof (cases r1)
    case (Inl e1)
    obtain r2 w2 where st: "stat_path p w1 = (r2, w2)" by fastforce
    then have "\<exists>e2. r2 = Inl e2" "dents w2 = dents w1" "data w2 = data w1"
      using n Inl by (auto simp: stat_path_def lookup_name_def split: option.splits fault.splits)
    then show ?thesis
      using assms(2) o Inl e st empty_same [of w2 w1 p] by (auto simp: openNewSegment_def split: if_splits)
  next
    case (Inr i)
    then show ?thesis using assms(2) o e by (simp add: openNewSegment_def)
  qed
qed

lemma createSegment_leaves:
  assumes "map_of (dents w) (segmentName b p) = None" and "createSegment b p w = (r, w')"
  shows "empty_or_gone (segmentName b p) w'"
proof -
  obtain r1 w1 where o: "openNewSegment (segmentName b p) w = (r1, w1)" by fastforce
  note e = openNewSegment_leaves [OF assms(1) o]
  obtain r2 w2 where sd: "syncDir w1 = (r2, w2)" by fastforce
  have "empty_or_gone (segmentName b p) w2" using e empty_same syncDir_cases [OF sd] by blast
  then show ?thesis
    using assms(2) e discard_leaves
    by (auto simp: createSegment_def io_bind_def o sd io_on_error_def Let_def split: sum.splits)
qed

lemma on_handle_leaves:
  assumes "on_handle s call w = (r, w')" and "call \<in> {file_sync, file_close}"
  shows "empty_or_gone p w' = empty_or_gone p w"
proof -
  have "dents w' = dents w \<and> data w' = data w"
    using assms by (auto simp: on_handle_def file_sync_def file_close_def split: option.splits fault.splits if_splits)
  then show ?thesis using empty_same by blast
qed

lemma rotateSegment_leaves:
  assumes "map_of (dents w) (segmentName first (first - 1)) = None" and "rotateSegment first l w = (err, l', w')"
  shows "empty_or_gone (segmentName first (first - 1)) w'"
proof -
  obtain r1 w1 where c: "createSegment first (first - 1) w = (r1, w1)" by fastforce
  obtain r2 w2 where s: "on_handle (active l) file_sync w1 = (r2, w2)" by fastforce
  obtain r3 w3 where cl: "on_handle (active l) file_close w2 = (r3, w3)" by fastforce
  have e: "empty_or_gone (segmentName first (first - 1)) w1" using createSegment_leaves [OF assms(1) c] .
  then have "empty_or_gone (segmentName first (first - 1)) w2" "empty_or_gone (segmentName first (first - 1)) w3"
    using on_handle_leaves [OF s] on_handle_leaves [OF cl] by auto
  then show ?thesis
    using assms(2) e discard_leaves by (auto simp: rotateSegment_def c s cl split: sum.splits)
qed


lemma rollback_exact:
  assumes "handle_ok l w" and "seg_exact w (active l)" and "rollback l w = (err, w')"
  shows "dents w' = dents w \<and> data w' = data w"
proof -
  obtain i where i: "segFile (active l) = Some i" "length (data w i) = segSize (active l)"
    using assms(1,2) by (auto simp: handle_ok_def seg_exact_def)
  have t: "dents w1 = dents w \<and> data w1 = data w"
    if "on_handle (active l) (\<lambda>i. file_truncate i (segSize (active l))) w = (r, w1)" for r w1
    using that i by (auto simp: on_handle_def file_truncate_def fun_upd_idem split: option.splits fault.splits if_splits)
  have s: "dents w2 = dents w1 \<and> data w2 = data w1" if "on_handle (active l) file_sync w1 = (r, w2)" for r w1 w2
    using that by (auto simp: on_handle_def file_sync_def split: option.splits fault.splits if_splits)
  show ?thesis
    using assms(3) t s by (fastforce simp: rollback_def split: if_splits prod.splits sum.splits)
qed

lemma set_active_paths: "segs l \<noteq> [] \<Longrightarrow> segPath s = segPath (active l) \<Longrightarrow> segPath ` set (segs (set_active s l)) = segPath ` set (segs l)"
  by (cases "segs l" rule: rev_cases) (simp_all add: active_def)

text \<open>What a failing round leaves in a directory without strays.\<close>

lemma failed_rotation_leaves:
  assumes r: "rotateSegment first l w = (Some e, l1, w1)" and rb: "rollback l1 w1 = (rb, w')"
    and d: "disk_ok l w cs k" and d1: "disk_ok l1 w1 cs k" and tc: "tail_clean l w" and first: "unat first = k"
    and lt: "unat (baseLSN (active l)) < unat first" and ns: "no_strays l w"
  shows "\<exists>news. found_segs l1 w' [] [] news"
proof -
  let ?q = "segmentName first (first - 1)"
  obtain pss where h: "segs_hold l w pss" using d by (auto simp: disk_ok_def)
  have ne: "segs l \<noteq> []" and act: "active l \<in> set (segs l)" using h by (simp_all add: segs_hold_def active_def)
  have fresh: "?q \<notin> segPath ` set (segs l)" using fresh_path [OF h _ lt] by (metis imageE)
  have "map_of (dents w) ?q = None"
    using ns fresh parseSegmentName_segmentName [of first "first - 1"] unfolding no_strays_iff by (metis not_Some_eq)
  note e1 = rotateSegment_leaves [OF this r]
  have u: "untouched {?q} w w1" using rotateSegment_untouched [OF r _ _ fresh_path [OF h act lt]] d by (simp add: disk_ok_def)
  have l1: "segPath ` set (segs l1) = segPath ` set (segs l)" "segs l1 \<noteq> []" "baseLSN (active l1) = baseLSN (active l)"
      "segPath (active l1) = segPath (active l)" "segSize (active l1) = segSize (active l)"
    using rotateSegment_fail [OF r] set_active_paths [OF ne, of "(active l)\<lparr>segShut := True\<rparr>"] ne by (elim disjE; simp)+
  have "seg_exact w (active l)" using tail_clean_exact [OF tc] .
  then have "seg_exact w1 (active l)" using seg_exact_untouched [OF _ u] fresh_path [OF h act lt] by blast
  then have ex1: "seg_exact w1 (active l1)" by (simp add: seg_exact_def l1)
  have same: "dents w' = dents w1" "data w' = data w1" using rollback_exact [OF _ ex1 rb] d1 by (auto simp: disk_ok_def)
  have ex: "seg_exact w' (active l1)" using ex1 same by (simp add: seg_exact_def)
  obtain qss where h1: "segs_hold l1 w1 qss" and se: "seg_end (active l1) = k" using d1 by (auto simp: disk_ok_def)
  have chn: "chained (segs l1)" using h1 by (simp add: segs_hold_def)
  show ?thesis
  proof (cases "map_of (dents w1) ?q")
    case None
    then have "no_strays l1 w1" by (intro no_strays_untouched [OF ns u]) (auto simp: l1)
    then have "no_strays l1 w'" by (simp add: no_strays_def same)
    then show ?thesis using chn by (intro exI [of _ "[]"]) (simp add: found_segs_def)
  next
    case (Some i)
    let ?s = "newSegment first (first - 1) i"
    have i: "data w' i = []" "map_of (dents w') ?q = Some i" using e1 Some same by (simp_all add: empty_or_gone_def)
    have "seg_holds (maxRecord l1) w' ?s [] \<and> seg_exact w' ?s"
      using i lt by (simp add: seg_holds_def seg_exact_def newSegment_def)
    moreover have "chained (segs l1 @ [?s])"
    proof -
      have "unat (lastLSN (active l1)) = k - 1" using seg_holds_lastLSN [OF segs_hold_active [OF h1]] se by simp
      then have "lastLSN (active l1) = first - 1" using first lt by (simp add: word_eq_unat unat_minus_one_u64)
      then show ?thesis
        using chn se first lt l1 by (simp add: chained_append newSegment_def active_def)
    qed
    moreover have "no_strays (l1\<lparr>segs := segs l1 @ [?s]\<rparr>) w1"
      by (intro no_strays_untouched [OF ns u]) (auto simp: l1 newSegment_def image_Un)
    then have "no_strays (l1\<lparr>segs := segs l1 @ [?s]\<rparr>) w'" by (simp add: no_strays_def same)
    ultimately show ?thesis
      using ex se first by (intro exI [of _ "[?s]"]) (simp add: found_segs_def newSegment_def)
  qed
qed


lemma no_strays_same_names:
  assumes "no_strays l w" and "dents w' = dents w" and "segPath ` set (segs l) \<subseteq> segPath ` set (segs l')"
  shows "no_strays l' w'"
  using assms unfolding no_strays_def by auto

lemma appendRound_names:
  assumes "appendRound buf n l w = (err, l', w')" and "tail_clean l w" and "segs l \<noteq> []"
  shows "dents w' = dents w \<and> segPath ` set (segs l') = segPath ` set (segs l)"
proof (rule write_then_sync [OF assms(2,1)])
  fix i t assume o: "only_ino i w w'" and e: "err \<noteq> None \<Longrightarrow> l' = l"
    and n: "err = None \<Longrightarrow> t = buf \<and> (SyncMode (opts l) \<noteq> SyncNever \<longrightarrow> stable w' i = data w' i)
       \<and> l' = set_active ((active l)\<lparr>segSize := segSize (active l) + length buf, segCount := segCount (active l) + n\<rparr>) l"
  then show ?thesis using set_active_paths [OF assms(3)] by (cases err) (auto simp: only_ino_def)
qed

lemma rollback_same_names:
  assumes "rollback l w = (err, w')" shows "dents w' = dents w"
  using assms
  by (auto simp: rollback_def on_handle_def file_truncate_def file_sync_def split: if_splits prod.splits sum.splits option.splits fault.splits)

lemma commitWrite_leaves:
  assumes cw: "commitWrite j l w = ((err, rbErr), l', w')" and rel: "lrel (l, Writing j, w) a" and inv: "ainv a"
    and ns: "no_strays l w"
  shows "\<exists>news. found_segs l' w' [] [] news \<and> (err = None \<longrightarrow> news = [])"
proof -
  obtain qs where qs: "jbuf j = frames qs" "list_all (\<lambda>p. length p \<le> maxRecord l) qs" "unat (jfirst j) = a_base a"
    using rel by (auto simp: lrel_def job_ok_def)
  have d: "disk_ok l w (strip (a_recs a)) (a_base a)" and tc: "tail_clean l w"
    using rel by (auto simp: lrel_def)
  obtain pss where h: "segs_hold l w pss" using d by (auto simp: disk_ok_def)
  have ne: "segs l \<noteq> []" using h by (simp add: segs_hold_def)
  obtain e1 l1 w1 where wb: "writeBatch (jbuf j) (jfirst j) (jlast j - jfirst j + 1) l w = (e1, l1, w1)"
    by (metis prod_cases3)
  have sim: "refined (l', Settling j err rbErr, w')"
    using sim_write [OF rel inv cw] inv unfolding refined_def by blast
  obtain pss' where h': "segs_hold l' w' pss'" using refined_disk [OF sim] by (auto simp: disk_ok_def)
  have w': "l' = l1" "dents w' = dents w1" "e1 = err"
    using cw wb rollback_same_names by (auto simp: commitWrite_def split: option.splits prod.splits)
  have fine: "\<exists>news. found_segs l' w' [] [] news \<and> (err = None \<longrightarrow> news = [])" if "no_strays l1 w1"
    using found_none [OF h'] no_strays_same_names [OF that w'(2)] w'(1) by blast
  show ?thesis
  proof (cases "segSize (active l) > 0 \<and> int (segSize (active l)) + int (length (jbuf j)) > MaxSegmentBytes (opts l)")
    case False
    note names = appendRound_names [OF wb [unfolded writeBatch_same_segment [OF False]] tc ne]
    have "no_strays l1 w1" by (rule no_strays_same_names [OF ns]) (simp_all add: names)
    then show ?thesis by (rule fine)
  next
    case True
    have lt: "unat (baseLSN (active l)) < unat (jfirst j)"
      using size_pos_count [OF segs_hold_active [OF h]] True qs(3) d by (simp add: disk_ok_def)
    have act: "active l \<in> set (segs l)" using ne by (simp add: active_def)
    obtain e2 l2 w2 where r: "rotateSegment (jfirst j) l w = (e2, l2, w2)" by (metis prod_cases3)
    show ?thesis
    proof (cases e2)
      case None
      note ok = rotateSegment_keeps_ok [OF r [unfolded None] d tc lt qs(3) [symmetric]]
      have u: "untouched {segmentName (jfirst j) (jfirst j - 1)} w w2"
        using rotateSegment_untouched [OF r _ _ fresh_path [OF h act lt]] d by (simp add: disk_ok_def)
      obtain i where l2: "segs l2 = butlast (segs l) @ [(active l)\<lparr>segFile := None\<rparr>, newSegment (jfirst j) (jfirst j - 1) i]"
        using rotateSegment_ok [OF r [unfolded None] _ fresh_path [OF h act lt]] d by (auto simp: disk_ok_def)
      have "segPath ` set (segs l) = segPath ` set (butlast (segs l) @ [active l])" using segs_split [OF h] by metis
      then have "no_strays l2 w2"
        by (intro no_strays_untouched [OF ns u]) (auto simp: l2 newSegment_def)
      moreover have "appendRound (jbuf j) (jlast j - jfirst j + 1) l2 w2 = (e1, l1, w1)" "segs l2 \<noteq> []"
        using wb r True None by (auto simp: writeBatch_def l2)
      ultimately have "no_strays l1 w1"
        using appendRound_names no_strays_same_names ok by (metis order_refl)
      then show ?thesis by (rule fine)
    next
      case (Some e)
      then have eq: "e1 = Some e" "l1 = l2" "w1 = w2" using wb r True by (auto simp: writeBatch_def)
      obtain rb where rb: "rollback l2 w2 = (rb, w')" using cw wb eq by (auto simp: commitWrite_def split: prod.splits)
      have "disk_ok l2 w2 (strip (a_recs a)) (a_base a)"
        using writeBatch_fail [OF wb [unfolded eq qs(1)] d tc qs(3,2)] by simp
      from failed_rotation_leaves [OF r [unfolded Some] rb d this tc qs(3) lt ns] show ?thesis
        using w' eq by auto
    qed
  qed
qed

text \<open>
  Every step of a log in a directory without strays leaves one, except that a round that fails may leave
  the empty file of the segment it had tried to begin.
\<close>

lemma lstep_leaves:
  assumes st: "lstep (l, ph, w) (l', ph', w')" and ref: "refined (l, ph, w)" and ho: "honest w" and ns: "no_strays l w"
  shows "\<exists>news. found_segs l' w' [] [] news \<and> ((\<nexists>j e rb. ph = Writing j \<and> ph' = Settling j (Some e) rb) \<longrightarrow> news = [])"
proof -
  have "refined (l', ph', w')" using refined.step_inv [OF ref st] .
  then obtain pss' where h': "segs_hold l' w' pss'" using refined_disk by (fastforce simp: disk_ok_def)
  have fine: ?thesis if "no_strays l' w'" using found_none [OF h' that] by blast
  obtain pss where h: "segs_hold l w pss" and ok: "fs_ok w" using refined_disk [OF ref] by (auto simp: disk_ok_def)
  from st show ?thesis
  proof (cases rule: lstep.cases)
    case (l_append ps res)
    then have "(w' = w \<or> meta_frame reservedName w w') \<and> segs l' = segs l" using append_frame [OF _ ok] by blast
    then have "no_strays l' w'" using no_strays_meta [OF ns] no_strays_same_names [OF ns] by (metis insertI1 order_refl)
    then show ?thesis by (rule fine)
  next
    case (l_write j err rbErr)
    then obtain a where "lrel (l, Writing j, w) a" "ainv a" using ref by (auto simp: refined_def)
    from commitWrite_leaves [OF _ this ns] l_write show ?thesis by (cases err) blast+
  next
    case (l_truncate lim res)
    then show ?thesis using no_strays_truncate [OF _ h ok ho ns] fine by blast
  next
    case (l_checkpoint v res)
    then have "meta_frame checkpointName w w'" using cp.write_frame [OF ok] by blast
    then have "no_strays l' w'" using no_strays_meta [OF ns] l_checkpoint by blast
    then show ?thesis by (rule fine)
  next
    case (l_take j)
    then have "segs l' = segs l" "w' = w" by (auto simp: commitTake_def newRound_def Let_def split: if_splits)
    then show ?thesis using fine no_strays_same_names [OF ns] by auto
  next
    case (l_settle j err rbErr res)
    then have "segs l' = segs l" "w' = w"
      by (auto simp: commitSettle_def newRound_def resolve_def Let_def split: option.splits)
    then show ?thesis using fine no_strays_same_names [OF ns] by auto
  next
    case (l_signal b)
    then show ?thesis using fine no_strays_same_names [OF ns] by simp
  next
    case l_shut
    then show ?thesis using fine no_strays_same_names [OF ns] by simp
  qed
qed

end
