(* ===== verification/RecoveryProperties.thy ===== *)
theory RecoveryProperties
  imports Leftovers LogProperties
begin

text \<open>
  What an application finds when it opens a log again: after a kill, after a power loss, and on a disk
  that is damaged or fails.
\<close>

subsection \<open>Numbering resumes above every claim\<close>

lemma deferClose_Inr: "deferClose i m w = (Inr x, w'') \<longleftrightarrow> (\<exists>w'. m w = (Inr x, w') \<and> w'' = snd (file_close i w'))"
  by (auto simp: deferClose_def split: prod.splits)

lemma wrapErr_Inr: "wrapErr msg m w = (Inr x, w') \<longleftrightarrow> m w = (Inr x, w')"
  by (auto simp: wrapErr_def split: prod.splits sum.splits)

lemma salvage_raises:
  assumes "salvage now path base cnt good nxt cause r w = (Inr (r', nxt', rep), w')"
  shows "r \<le> r'"
  using assms
  by (auto simp: salvage_def salvageFile_def deferClose_Inr io_bind_Inr Let_def less_imp_le split: if_splits)

lemma examineSegment_raises:
  assumes "examineSegment op now name rest r reps w = (Inr (cnt, good, r', nxt, reps'), w')"
  shows "r \<le> r'"
  using assms
  by (auto simp: examineSegment_def Let_def split: prod.splits option.splits if_splits sum.splits dest: salvage_raises)

lemma recoverSegs_raises:
  "recoverSegs op now names segs0 r reps w = (Inr (ss, r', reps'), w') \<Longrightarrow> r \<le> r'"
proof (induction op now names segs0 r reps arbitrary: w rule: recoverSegs.induct)
  case (1 op now segs0 r reps)
  then show ?case by simp
next
  case (2 op now name rest segs0 r reps)
  then obtain cnt good r1 nxt reps1 w1 where
      e: "examineSegment op now name rest r reps w = (Inr (cnt, good, r1, nxt, reps1), w1)"
    by (auto simp: io_bind_Inr)
  have "r \<le> r1" using examineSegment_raises [OF e] .
  moreover have "r1 \<le> r'"
    using "2.prems" e "2.IH" by (auto simp: io_bind_def Let_def split: if_splits)
  ultimately show ?case by simp
qed

lemma resumeSegs_above:
  assumes "resumeSegs ss r w = (Inr ss', w')" and "baseLSN (last ss') + segCount (last ss') \<noteq> 0"
  shows "r < baseLSN (last ss') + segCount (last ss')"
proof -
  have "s = newSegment b p (the (segFile s)) \<and> segFile s \<noteq> None" if "createSegment b p w = (Inr s, w')" for b p s
    using that by (auto simp: createSegment_def io_bind_Inr io_on_error_Inr Let_def newSegment_def)
  then have new: "baseLSN s = b \<and> segCount s = 0" if "createSegment b p w = (Inr s, w')" for b p s
    using that by (metis newSegment_def segment.select_convs(1) segment.select_convs(7))
  note up = less_succ_u64
  have "x < y + 1" if "x \<le> y" "y + 1 \<noteq> 0" for x y :: u64
    using le_less_trans [OF that(1) up [OF that(2)]] .
  then have "r < baseLSN s + segCount s" if "\<not> lastLSN s < r" "baseLSN s + segCount s \<noteq> 0" for s
    using that by (metis diff_add_cancel lastLSN_def not_less)
  then show ?thesis
    using assms up new by (auto simp: resumeSegs_def io_bind_Inr set_last_file_def split: if_splits)
qed

lemma readReserved_honest:
  assumes "honest w" and "file_at w reservedName = Some (numberLine v)" and "readReserved w = (Inr r, w')"
  shows "r = v"
proof -
  obtain x w1 where x: "read_file reservedName w = (x, w1)" by fastforce
  obtain i where i: "map_of (dents w) reservedName = Some i" "data w i = numberLine v"
    using assms(2) by (auto simp: file_at_def lookup_name_def)
  have "x = Inr (numberLine v) \<or> (\<exists>e. x = Inl (Errno e) \<and> e \<noteq> ENOENT)"
    using x i next_fault_honest [OF assms(1)] next_fault_honest [OF honest_pop [OF assms(1)]]
    by (auto simp: read_file_def io_bind_def open_existing_def file_stream_def lookup_name_def
        split: option.splits fault.splits)
  then show ?thesis
    using assms(3) x by (auto simp: readReserved_def readNumber_def)
qed

lemma recover_above:
  assumes r: "recover op lock now text w = (Inr (l', reps), w')" and f: "file_at w reservedName = Some (numberLine v)"
    and honest: "honest w" and nz: "nextLSN l' \<noteq> 0"
  shows "v < nextLSN l'"
proof -
  obtain entries w1 r0 w2 idt w3 ss r1 w4 ss1 where
      rd: "read_dir w = (Inr entries, w1)" and rr: "readReserved w1 = (Inr r0, w2)"
      and rec: "recoverSegs op now (segmentNames entries) [] r0 [] w3 = (Inr (ss, r1, reps), w4)"
      and rs: "resumeSegs ss r1 w4 = (Inr ss1, w')" and l': "l' = openedLog op lock idt ss1 r1"
    using r by (auto simp: recover_def io_bind_Inr Let_def)
  have "file_at w1 reservedName = Some (numberLine v)" "honest w1"
    using rd f honest_pop [OF honest]
    by (auto simp: read_dir_def file_at_def lookup_name_def split: option.splits fault.splits)
  then have "r0 = v" using readReserved_honest rr by blast
  moreover have "r0 \<le> r1" using recoverSegs_raises [OF rec] .
  moreover have "r1 < nextLSN l'" using resumeSegs_above [OF rs] nz by (simp add: l' openedLog_def)
  ultimately show ?thesis by simp
qed

subsection \<open>The disk after a crash\<close>

lemma seg_kill: "seg_holds m (after_kill w) = seg_holds m w" "seg_exact (after_kill w) = seg_exact w"
  by (simp_all add: seg_holds_def seg_exact_def after_kill_def fun_eq_iff)

lemma disk_ok_after_kill: "disk_ok l w cs n \<Longrightarrow> disk_ok l (after_kill w) cs n"
proof -
  have "fs_ok (after_kill w) = fs_ok w" "handle_ok l (after_kill w) = handle_ok l w"
      "tail_prefix l (after_kill w) = tail_prefix l w"
    by (simp_all add: fs_ok_def handle_ok_def tail_prefix_def after_kill_def)
  then show "disk_ok l w cs n \<Longrightarrow> disk_ok l (after_kill w) cs n" by (simp add: disk_ok_def segs_hold_def seg_kill)
qed

lemma published_end:
  assumes "lrel (l, ph, w) a" and "ainv a"
  shows "a_base a + length (published ph a) \<le> unat (nextLSN l)"
proof -
  have "length (published ph a) \<le> length (in_flight a)" by (cases "(ph, a)" rule: published.cases) simp_all
  then show ?thesis using assms by (simp add: lrel_def staged_ok_def ainv_def a_base_def)
qed

text \<open>A log just opened, with its identity and a first claim on disk.\<close>

definition home_fs :: fs where
  "home_fs = \<lparr>dents = [(segmentName 1 0, 0), (identityName, 1), (reservedName, 2)],
     sdents = [(segmentName 1 0, 0), (identityName, 1), (reservedName, 2)], subdirs = [],
     data = (\<lambda>_. [])(1 := bytesOf (''ID'' @ [CHR 0x0A]), 2 := numberLine 1024),
     stable = (\<lambda>_. [])(1 := bytesOf (''ID'' @ [CHR 0x0A]), 2 := numberLine 1024), nextIno = 3, faults = []\<rparr>"

definition home_log :: log where
  "home_log = (fresh_log small_opts)\<lparr>reserved := 1024\<rparr>"

lemma home_fs_ok: "fs_ok home_fs"
proof -
  have "identityName \<noteq> reservedName" "is_meta identityName" "is_meta reservedName" "\<not> is_tmp identityName" "\<not> is_tmp reservedName"
    by (simp_all add: identityName_def reservedName_def is_meta_def is_tmp_def)
  then show ?thesis by (auto simp: fs_ok_def home_fs_def seg_path_not_meta [THEN not_sym])
qed

lemma home_rel: "lrel (home_log, Idle, home_fs) fresh_alog"
proof -
  let ?l = "home_log"
  have h: "segs_hold ?l home_fs [[]]"
    by (simp add: segs_hold_def seg_holds_def home_log_def fresh_log_def home_fs_def newSegment_def)
  moreover have "tail_clean ?l home_fs"
    by (simp add: tail_clean_def active_def home_log_def fresh_log_def home_fs_def newSegment_def)
  moreover have "contents (segs ?l) [[]] = []" by (simp add: home_log_def fresh_log_def)
  moreover have "seg_end (active ?l) = 1" by (simp add: seg_end_def active_def home_log_def fresh_log_def newSegment_def)
  ultimately have "disk_ok ?l home_fs [] 1"
    using tail_clean_handle tail_prefix_exact tail_clean_exact home_fs_ok unfolding disk_ok_def by blast
  then show ?thesis
    using small_opts_ok \<open>tail_clean ?l home_fs\<close>
    by (simp add: lrel_def strip_def fresh_alog_def a_base_def in_flight_def staged_ok_def rounds_ok_def)
      (simp add: home_log_def fresh_log_def active_def newSegment_def)
qed

lemma home_no_strays: "no_strays (home_log) home_fs"
proof -
  have "parseSegmentName identityName = None" "parseSegmentName reservedName = None"
    by (simp_all add: parseSegmentName_def identityName_def reservedName_def segmentSuffix_def hasSuffix_def)
  then show ?thesis by (simp add: no_strays_def home_fs_def home_log_def fresh_log_def newSegment_def)
qed

lemma found_home: "found_segs home_log home_fs [] [] []"
proof -
  obtain pss where "segs_hold home_log home_fs pss" using home_rel by (auto simp: lrel_def disk_ok_def)
  from found_none [OF this home_no_strays] show ?thesis .
qed

lemma home_meta: "meta_readable ''ID'' 1024 home_fs"
proof -
  have "visible ''ID''" by (simp add: visible_def plainChar_def)
  moreover have "identityName \<noteq> reservedName" by (simp add: identityName_def reservedName_def)
  ultimately show ?thesis
    by (simp add: meta_readable_def home_fs_def file_at_def lookup_name_def seg_path_not_meta [THEN not_sym])
qed

lemma home_recovers:
  "\<exists>l' w'. recover small_opts 9 (\<lambda>_. 0) ''X'' home_fs = (Inr (l', []), w') \<and> unat (nextLSN l') = 1025"
proof -
  have calm: "faults home_fs = []" by (simp add: home_fs_def)
  have b: "b = []" if "file_at home_fs (segPath (active home_log)) = Some b" for b
    using that by (simp add: home_log_def fresh_log_def active_def newSegment_def file_at_def lookup_name_def home_fs_def)
  have "seg_exact home_fs (active home_log)"
    by (simp add: seg_exact_def home_log_def fresh_log_def active_def newSegment_def home_fs_def)
  moreover obtain pss where "segs_hold home_log home_fs pss" "fs_ok home_fs" "tail_prefix home_log home_fs"
      "contents (segs home_log) pss = []" "seg_end (active home_log) = 1"
    using home_rel by (auto simp: lrel_def fresh_alog_def strip_def a_base_def in_flight_def disk_ok_def)
  moreover have "opts home_log = small_opts" by (simp add: home_log_def fresh_log_def)
  ultimately show ?thesis
    using recover_calm [OF _ _ _ _ _ calm home_no_strays _ _ _ meta_readable_reads(1) [OF home_meta calm] _
        meta_readable_reads(2) [OF home_meta calm], of pss "[]" 1 small_opts 9 "\<lambda>_. 0" "''X''"] b small_opts_ok
    by (fastforce simp: resumeAt_def)
qed

lemma home_staged:
  "appendBatchAsync [[7]] home_log home_fs =
     (Inr \<lparr>First = 1, Last = 1, Round = Some 0\<rparr>, staged_log [[7]] 1024 True home_log, home_fs)"
  by (simp add: appendBatchAsync_def stage_def home_log_def fresh_log_def small_opts_def Let_def
     staged_log_def signalCommit_def frame_def)

subsection \<open>Properties\<close>

text \<open>C9. A log that was killed opens again. The segment files in its directory are the log's own; there may be
  older ones before them, and after them the empty one of a rotation that was cut short. The opened log
  has the older records, then the published ones in their old order and under their old numbers, then
  those of a round still being written whose bytes had reached the file whole; its numbering resumes
  above them and above every claim; and it satisfies its invariant again. The conditions: the metadata
  files can be read, no call fails while opening, the limit on the record size is unchanged, and the
  numbers do not run out. (From a directory that holds the log's own segment files, every step of the log leaves one
  of this kind, \<open>lstep_leaves\<close>. A round that fails after it had begun a segment, and cannot remove the new empty
  file, leaves one too; the condition fails if a later round is then written to the old segment.)\<close>

theorem reopen_after_kill:
  assumes "lrel (l, ph, w) a" and "ainv a" and "found_segs l w olds oss news" and "meta_readable idt v w"
    and "MaxRecordBytes op = MaxRecordBytes (opts l)"
    and "\<And>b. file_at w (segPath (active l)) = Some b \<Longrightarrow> unat (nextLSN l) + length b < 2 ^ 64"
  shows "\<exists>l' w' es. recover op lock now text (after_kill w) = (Inr (l', []), w') \<and> refined (l', Idle, w')
     \<and> disk_ok l' w' (contents olds oss @ strip (a_recs a) @ numbered (a_base a) (published ph a @ es))
         (resumeAt (a_base a + length (published ph a @ es)) v)
     \<and> unat (nextLSN l') = resumeAt (a_base a + length (published ph a @ es)) v
     \<and> logID l' = idt \<and> (tail_clean l w \<longrightarrow> es = [])"
proof -
  let ?n = "a_base a + length (published ph a)" and ?cs = "strip (a_recs a) @ numbered (a_base a) (published ph a)"
  obtain pss where d: "segs_hold l (after_kill w) pss" "contents (segs l) pss = ?cs" "fs_ok (after_kill w)"
      "tail_prefix l (after_kill w)" "seg_end (active l) = ?n"
    using assms(1) disk_ok_after_kill [of l w ?cs ?n] by (auto simp: lrel_def disk_ok_def)
  have lim: "limit_ok (maxRecord l)" "0 \<le> MaxRecordBytes op" using assms(1,5) by (simp_all add: lrel_def)
  have ns: "found_segs l (after_kill w) olds oss news"
    using assms(3) by (simp add: found_segs_def no_strays_def seg_kill) (simp add: after_kill_def)
  have mr: "meta_readable idt v (after_kill w)" using assms(4) by (simp add: meta_readable_def)
  have bound: "\<And>b. file_at (after_kill w) (segPath (active l)) = Some b \<Longrightarrow> seg_end (active l) + length b < 2 ^ 64"
    using assms(6) published_end [OF assms(1,2)] d(5) by fastforce
  have "tail_clean l w \<longrightarrow> seg_exact (after_kill w) (active l)"
    using tail_clean_exact by (auto simp: seg_exact_def after_kill_def)
  then show ?thesis
    using recover_left [OF d(1,3,4) _ ns assms(5) lim(2,1) mr bound, of lock now "text"]
    unfolding d(2,5) by (simp add: numbered_append add.assoc) blast
qed

theorem reopen_after_kill_witness:
  "\<exists>l' w' es. recover small_opts 9 (\<lambda>_. 0) ''X'' (after_kill home_fs) = (Inr (l', []), w') \<and> refined (l', Idle, w')
     \<and> disk_ok l' w' (numbered 1 es) (resumeAt (1 + length es) 1024) \<and> logID l' = ''ID''"
proof -
  have "unat (nextLSN (home_log)) + length b < 2 ^ 64"
    if "file_at home_fs (segPath (active (home_log))) = Some b" for b
    using that by (simp add: home_log_def fresh_log_def active_def newSegment_def file_at_def lookup_name_def home_fs_def)
  moreover have "opts (home_log) = small_opts" by (simp add: home_log_def fresh_log_def)
  moreover have "a_recs fresh_alog = []" "a_base fresh_alog = 1" by (simp_all add: fresh_alog_def strip_def a_base_def in_flight_def)
  ultimately show ?thesis
    using reopen_after_kill [OF home_rel fresh_ainv found_home home_meta, of small_opts 9 "\<lambda>_. 0" "''X''"]
    by (simp add: strip_def contents_def) blast
qed



lemma claimed_file:
  assumes "claimed r w" and "r \<noteq> 0" and "w' = (after_kill w)\<lparr>faults := fl\<rparr> \<or> w' = (after_power_loss w)\<lparr>faults := fl\<rparr>"
  shows "\<exists>v. file_at w' reservedName = Some (numberLine v) \<and> r \<le> v"
  using assms by (auto simp: claimed_def file_at_def lookup_name_def after_kill_def after_power_loss_def)

text \<open>C11. An LSN is never handed out twice. A batch was accepted; then came any further work, any failed
  calls, and a crash; then a log was opened again on what was left, with whatever calls failing on the
  way, damaged segments salvaged or not. If the open succeeds, the next LSN is above the batch's. (A
  call may fail with any error but a false claim that a file does not exist; and numbering must not
  have run through all \<open>2 ^ 64\<close> numbers.)\<close>

theorem no_lsn_reuse:
  assumes "refined (l1, ph1, w1)" and "claimed (reserved l1) w1"
    and "appendBatchAsync ps l1 w1 = (Inr c, l2, w2)" and "ps \<noteq> []"
    and "room l1 (length ps)" and "lstep\<^sup>*\<^sup>* (l2, ph1, w2) (l3, ph3, w3)"
    and "w4 = (after_kill w3)\<lparr>faults := fl\<rparr> \<or> w4 = (after_power_loss w3)\<lparr>faults := fl\<rparr>" and "honest w4"
    and "recover op lock now text w4 = (Inr (l', reps), w5)" and "nextLSN l' \<noteq> 0"
  shows "Last c < nextLSN l'"
proof (cases "Last c = 0")
  case True
  then show ?thesis using assms(10) by (simp add: word_gt_0)
next
  case False
  have ref: "refined (l2, ph1, w2)" using refined.step_inv [OF assms(1) l_append [OF assms(3,5)]] .
  have "claimed (reserved l2) w2 \<and> Last c \<le> reserved l2"
    using append_claim [OF refined_fs_ok [OF assms(1)] assms(3,2)] assms(4) by blast
  then have "claim_inv (Last c) (l2, ph1, w2)" using ref by simp
  then have "claim_inv (Last c) (l3, ph3, w3)" using claim.steps_inv [OF assms(6)] by blast
  then have "claimed (Last c) w3" using claimed_mono by auto
  then obtain v where "file_at w4 reservedName = Some (numberLine v)" "Last c \<le> v"
    using claimed_file False assms(7) by blast
  then show ?thesis using recover_above [OF assms(9) _ assms(8,10)] by (meson order_le_less_trans)
qed

theorem no_lsn_reuse_witness:
  "\<exists>l' w'. recover small_opts 9 (\<lambda>_. 0) ''X'' ((after_kill home_fs)\<lparr>faults := []\<rparr>) = (Inr (l', []), w')
     \<and> 1 < nextLSN l'"
proof -
  obtain l' w' where r: "recover small_opts 9 (\<lambda>_. 0) ''X'' home_fs = (Inr (l', []), w')" "unat (nextLSN l') = 1025"
    using home_recovers by blast
  have w: "(after_kill home_fs)\<lparr>faults := []\<rparr> = home_fs" by (simp add: after_kill_def home_fs_def)
  have rf: "refined (home_log, Idle, home_fs)" using home_rel fresh_ainv unfolding refined_def by blast
  have cl: "claimed (reserved home_log) home_fs"
    by (simp add: claimed_def home_log_def home_fs_def seg_path_not_meta [THEN not_sym])
      (auto simp: identityName_def reservedName_def)
  have rm: "room home_log (length [[7 :: byte]])" by (simp add: room_def home_log_def fresh_log_def)
  have ho: "honest ((after_kill home_fs)\<lparr>faults := []\<rparr>)" by (simp add: honest_def)
  have nz: "nextLSN l' \<noteq> 0" using r(2) by auto
  have rec: "recover small_opts 9 (\<lambda>_. 0) ''X'' ((after_kill home_fs)\<lparr>faults := []\<rparr>) = (Inr (l', []), w')"
    unfolding w by (rule r(1))
  have "[[7 :: byte]] \<noteq> []" by simp
  from no_lsn_reuse [OF rf cl home_staged this rm rtranclp.rtrancl_refl disjI1 [OF refl] ho rec nz]
  show ?thesis using r(1) w by simp
qed

subsection \<open>A broken log\<close>

lemma disk_ok_same:
  assumes "dents w' = dents w" and "sdents w' = sdents w" and "data w' = data w" and "nextIno w' = nextIno w"
  shows "disk_ok l w' cs n = disk_ok l w cs n" "tail_clean l w' = tail_clean l w" "no_strays l w' = no_strays l w"
    "seg_exact w' = seg_exact w"
proof -
  have sh: "seg_holds m w' = seg_holds m w" "seg_exact w' = seg_exact w" for m
    by (simp_all add: seg_holds_def seg_exact_def assms fun_eq_iff)
  then show "seg_exact w' = seg_exact w" by simp
  have "fs_ok w' = fs_ok w" "handle_ok l w' = handle_ok l w" "tail_prefix l w' = tail_prefix l w"
    by (simp_all add: fs_ok_def handle_ok_def tail_prefix_def assms)
  then show "disk_ok l w' cs n = disk_ok l w cs n" by (simp add: disk_ok_def segs_hold_def sh)
  show "tail_clean l w' = tail_clean l w" "no_strays l w' = no_strays l w" by (simp_all add: tail_clean_def no_strays_def assms)
qed

lemma lrel_faults: "lrel (l, ph, w\<lparr>faults := fl\<rparr>) a = lrel (l, ph, w) a"
  by (simp add: lrel_def disk_ok_same [of "w\<lparr>faults := fl\<rparr>" w])

text \<open>A round that is written to the active segment, with every call succeeding, and with all after the write failing.\<close>

lemma commitWrite_calm:
  assumes "segFile (active l) = Some i" and "\<not> segShut (active l)" and "faults w = []"
    and "SyncMode (opts l) \<noteq> SyncNever"
    and "\<not> (segSize (active l) > 0 \<and> int (segSize (active l)) + int (length (jbuf j)) > MaxSegmentBytes (opts l))"
  shows "\<exists>s. segPath s = segPath (active l) \<and> commitWrite j l w = ((None, None), set_active s l,
     w\<lparr>data := (data w)(i := data w i @ jbuf j), stable := (stable w)(i := data w i @ jbuf j)\<rparr>)"
  using assms
  by (simp add: commitWrite_def writeBatch_same_segment [OF assms(5)] appendRound_def on_handle_def file_write_def file_sync_def)
    (metis segment.select_convs(2) segment.surjective segment.update_convs(6,7))

lemma commitWrite_breaks:
  assumes "segFile (active l) = Some i" and "\<not> segShut (active l)"
    and "faults w = None # Some (Fault e k) # Some (Fault e' k') # fl" and "SyncMode (opts l) \<noteq> SyncNever"
    and "\<not> (segSize (active l) > 0 \<and> int (segSize (active l)) + int (length (jbuf j)) > MaxSegmentBytes (opts l))"
  shows "commitWrite j l w = ((Some (Errno e), Some (Errno e')), l, w\<lparr>data := (data w)(i := data w i @ jbuf j), faults := fl\<rparr>)"
  using assms
  by (simp add: commitWrite_def writeBatch_same_segment [OF assms(5)] appendRound_def on_handle_def file_write_def
      file_sync_def rollback_def file_truncate_def next_fault_def pop_fault_def)

text \<open>
  The disk after such a round is the disk of a log that has committed it: \<open>l3\<close> is that log, and the
  file of its active segment ends where its records end.
\<close>

lemma broken_disk:
  assumes "lrel (l, Idle, w) a" and "ainv a" and "hasPending l" and "\<not> broken l" and "SyncMode (opts l) \<noteq> SyncNever"
    and "\<not> (segSize (active l) > 0 \<and> int (segSize (active l)) + int (length (pending l)) > MaxSegmentBytes (opts l))"
    and "faults w = None # Some (Fault e k) # Some (Fault e' k') # fl"
  shows "\<exists>err l1 w1 l3 s b. commit l w = (Some err, l1, w1) \<and> errors_is err ErrBroken \<and> broken l1
     \<and> rounds l1 (cur l) = Some (Some err) \<and> dents w1 = dents w
     \<and> segs l3 = segs (set_active s l) \<and> opts l3 = opts l \<and> segPath s = segPath (active l)
     \<and> disk_ok l3 w1 (strip (a_recs a) @ numbered (unat (pendingMin l)) (a_staged a)) (unat (pendingMin l) + length (a_staged a))
     \<and> tail_clean l3 w1 \<and> untouched {segPath (active l)} w w1
     \<and> file_at w1 (segPath (active l)) = Some b \<and> length b = segSize (active l) + length (pending l)"
proof -
  let ?w = "w\<lparr>faults := []\<rparr>"
  obtain i where i: "segFile (active l) = Some i" "\<not> segShut (active l)" and ph: "map_of (dents w) (segPath (active l)) = Some i"
      and ln: "length (data w i) = segSize (active l)"
    using assms(1,4) by (auto simp: lrel_def tail_clean_def)
  obtain j l0 where t: "commitTake l = Some (j, l0)"
    using assms(3,4) by (auto simp: commitTake_def hasPending_def Let_def)
  then have j: "jbuf j = pending l" and l0: "segs l0 = segs l" "opts l0 = opts l" "active l0 = active l"
    by (auto simp: commitTake_def newRound_def Let_def active_def split: if_splits)
  let ?w1 = "w\<lparr>data := (data w)(i := data w i @ pending l), faults := fl\<rparr>"
  have cw: "commitWrite j l0 w = ((Some (Errno e), Some (Errno e')), l0, ?w1)"
    using commitWrite_breaks [of l0 i w e k e' k' fl j] i assms(5-7) by (simp add: l0 j)
  obtain err l1 where c: "commit l w = (Some err, l1, ?w1)" and brk: "broken l1"
    using t cw by (auto simp: commit_def commitSettle_def Let_def newRound_def resolve_def)
  have out: "errors_is err ErrBroken" "rounds l1 (cur l) = Some (Some err)"
    using commit_all_or_nothing [OF assms(1,2) c assms(3,4)] brk by simp_all
  let ?ws = "?w\<lparr>data := (data w)(i := data w i @ pending l), stable := (stable w)(i := data w i @ pending l)\<rparr>"
  obtain s where cws: "commitWrite j l0 ?w = ((None, None), set_active s l0, ?ws)" and s: "segPath s = segPath (active l)"
    using commitWrite_calm [of l0 i ?w j] i assms(5,6) by (auto simp: l0 j)
  obtain l3 where cs: "commit l ?w = (None, l3, ?ws)" and l3: "segs l3 = segs (set_active s l)" "opts l3 = opts l"
    using t cws by (auto simp: commit_def commitSettle_def resolve_def l0)
  have rel: "lrel (l, Idle, ?w) a" using assms(1) by (simp add: lrel_faults)
  have same: "dents ?w1 = dents ?ws" "sdents ?w1 = sdents ?ws" "data ?w1 = data ?ws" "nextIno ?w1 = nextIno ?ws"
    by simp_all
  have d: "disk_ok l3 ?w1 (strip (a_recs a) @ numbered (unat (pendingMin l)) (a_staged a))
        (unat (pendingMin l) + length (a_staged a))" "tail_clean l3 ?w1"
    using commit_all_or_nothing [OF rel assms(2) cs assms(3,4)] unfolding disk_ok_same [OF same] option.case by blast+
  have "fs_ok w" "only_ino i w ?w1" using assms(1) by (simp_all add: lrel_def disk_ok_def only_ino_def)
  from only_ino_untouched [OF this ph] c brk out l3 s d ph ln show ?thesis
    by (intro exI [of _ err] exI [of _ l1] exI [of _ ?w1] exI [of _ l3] exI [of _ s] exI [of _ "data w i @ pending l"])
      (simp add: file_at_def lookup_name_def)
qed

text \<open>C15. What a broken log leaves behind need not be a torn tail. A round goes to the active segment; its write goes
  through, its sync fails, and the truncation that should undo it fails too. It is reported as failed with
  \<^verbatim>\<open>ErrBroken\<close>. But its records are whole in the file, and the next process that opens the log, after this
  one has ended, counts every one of them under the number its writer was given. (Not for
  \<^verbatim>\<open>SyncNever\<close>, which does not sync; and the directory, the metadata files and the numbers are as for a
  log that is opened after a kill.)\<close>

theorem broken_round_can_reappear:
  assumes "lrel (l, Idle, w) a" and "ainv a" and "hasPending l" and "\<not> broken l" and "SyncMode (opts l) \<noteq> SyncNever"
    and "\<not> (segSize (active l) > 0 \<and> int (segSize (active l)) + int (length (pending l)) > MaxSegmentBytes (opts l))"
    and "faults w = None # Some (Fault e k) # Some (Fault e' k') # fl"
    and "no_strays l w" and "meta_readable idt v w" and "MaxRecordBytes op = MaxRecordBytes (opts l)"
    and "unat (nextLSN l) + (segSize (active l) + length (pending l)) < 2 ^ 64"
  shows "\<exists>err l1 w1 l2 w2. commit l w = (Some err, l1, w1) \<and> errors_is err ErrBroken \<and> broken l1
     \<and> rounds l1 (cur l) = Some (Some err)
     \<and> recover op lock now text (after_kill w1) = (Inr (l2, []), w2)
     \<and> pending l = frames (a_staged a)
     \<and> disk_ok l2 w2 (strip (a_recs a) @ numbered (unat (pendingMin l)) (a_staged a))
         (resumeAt (unat (pendingMin l) + length (a_staged a)) v)"
proof -
  let ?cs = "strip (a_recs a) @ numbered (unat (pendingMin l)) (a_staged a)" and ?n = "unat (pendingMin l) + length (a_staged a)"
  obtain err l1 w1 l3 s b where c: "commit l w = (Some err, l1, w1)" "errors_is err ErrBroken" "broken l1"
      "rounds l1 (cur l) = Some (Some err)"
    and l3: "segs l3 = segs (set_active s l)" "opts l3 = opts l" "segPath s = segPath (active l)" and dn: "dents w1 = dents w"
    and d: "disk_ok l3 w1 ?cs ?n" "tail_clean l3 w1" and u: "untouched {segPath (active l)} w w1"
    and b: "file_at w1 (segPath (active l)) = Some b" "length b = segSize (active l) + length (pending l)"
    using broken_disk [OF assms(1-7)] by blast
  have calm: "faults (after_kill w1) = []" by simp
  obtain pss where h: "segs_hold l3 (after_kill w1) pss" "contents (segs l3) pss = ?cs" "fs_ok (after_kill w1)"
      "tail_prefix l3 (after_kill w1)" "seg_end (active l3) = ?n"
    using disk_ok_after_kill [OF d(1)] by (auto simp: disk_ok_def)
  have ne: "segs l \<noteq> []" and pss: "segPath (active l) \<in> segNames"
    using assms(1) active_path_in by (auto simp: lrel_def disk_ok_def segs_hold_def)
  have ns: "no_strays l3 (after_kill w1)"
    using no_strays_same_names [OF assms(8), of "after_kill w1" l3] set_active_paths [OF ne l3(3)] dn
    by (simp add: l3 after_kill_def)
  have "file_at w1 p = file_at w p" if "p \<noteq> segPath (active l)" for p
    using untouched_name [OF u] untouched_data [OF u] that by (cases "map_of (dents w) p") (auto simp: file_at_def lookup_name_def)
  moreover have "identityName \<noteq> segPath (active l)" "reservedName \<noteq> segPath (active l)"
    using pss by (auto simp: segNames_def seg_path_not_meta [THEN not_sym])
  ultimately have mr: "meta_readable idt v (after_kill w1)" using assms(9) by (simp add: meta_readable_def)
  have pend: "pending l = frames (a_staged a)" using assms(1) by (simp add: lrel_def staged_ok_def)
  then have "a_staged a \<noteq> []" using assms(3) by (auto simp: hasPending_def)
  then have "unat (pendingMin l) = a_base a" "a_next a = unat (nextLSN l)" "length (a_staged a) \<le> a_next a" "in_flight a = []"
    using assms(1,2) by (auto simp: lrel_def staged_ok_def ainv_def in_flight_def)
  then have "?n \<le> unat (nextLSN l)" by (simp add: a_base_def)
  moreover have "segPath (active l3) = segPath (active l)" using l3(1,3) by (simp add: active_def)
  ultimately have bound: "?n + length x < 2 ^ 64" if "file_at (after_kill w1) (segPath (active l3)) = Some x" for x
    using that b assms(11) by simp
  have op: "MaxRecordBytes op = MaxRecordBytes (opts l3)" "0 \<le> MaxRecordBytes op" "limit_ok (maxRecord l3)"
    using assms(1,10) l3(2) by (simp_all add: lrel_def)
  have v: "unat v + 1 < 2 ^ 64" using mr by (simp add: meta_readable_def)
  have ex: "seg_exact (after_kill w1) (active l3)" using tail_clean_exact [OF d(2)] by (simp add: seg_kill)
  obtain l2 w2 where "recover op lock now text (after_kill w1) = (Inr (l2, []), w2)" "disk_ok l2 w2 ?cs (resumeAt ?n v)"
    using recover_calm [OF h(1,3,4,2,5) calm ns op meta_readable_reads(1) [OF mr calm] v
        meta_readable_reads(2) [OF mr calm, of "text"] bound, of lock now] ex by auto
  then show ?thesis using c pend by blast
qed

theorem broken_round_can_reappear_witness:
  "\<exists>err l1 w1 l2 w2. commit (staged_log [[7]] 1024 True home_log) (home_fs\<lparr>faults := [None, Some (Fault EIO 0), Some (Fault EIO 0)]\<rparr>)
       = (Some err, l1, w1) \<and> errors_is err ErrBroken
     \<and> recover small_opts 9 (\<lambda>_. 0) ''X'' (after_kill w1) = (Inr (l2, []), w2) \<and> disk_ok l2 w2 [(1, [7])] (resumeAt 2 1024)"
proof -
  let ?l = "staged_log [[7]] 1024 True home_log" and ?w = "home_fs\<lparr>faults := [None, Some (Fault EIO 0), Some (Fault EIO 0)]\<rparr>"
  let ?a = "fresh_alog\<lparr>a_staged := a_staged fresh_alog @ [[7]], a_next := a_next fresh_alog + length [[7 :: byte]],
               a_handed := (a_cur fresh_alog, a_next fresh_alog, [[7]]) # a_handed fresh_alog\<rparr>"
  have "room home_log (length [[7 :: byte]])" by (simp add: room_def home_log_def fresh_log_def)
  then have rel: "lrel (?l, Idle, ?w) ?a" using sim_append [OF home_rel fresh_ainv _ _ home_staged] by (simp add: lrel_faults)
  have inv: "ainv ?a" using ainv_stage [OF fresh_ainv] .
  have l: "segs ?l = segs home_log" "opts ?l = small_opts" "broken ?l = False" "active ?l = newSegment 1 0 0"
      "nextLSN ?l = 2" "pendingMin ?l = 1" "length (pending ?l) = 9"
    by (simp_all add: active_def home_log_def fresh_log_def recordSize_def headerSize_def)
  have hp: "hasPending ?l" by (simp add: hasPending_def recordSize_def headerSize_def)
  have ns: "no_strays ?l ?w" using home_no_strays l(1) by (simp add: no_strays_def)
  have mr: "meta_readable ''ID'' 1024 ?w" using home_meta by (simp add: meta_readable_def file_at_def lookup_name_def)
  have p: "\<not> broken ?l" "SyncMode (opts ?l) \<noteq> SyncNever"
      "\<not> (segSize (active ?l) > 0 \<and> int (segSize (active ?l)) + int (length (pending ?l)) > MaxSegmentBytes (opts ?l))"
      "faults ?w = [None, Some (Fault EIO 0), Some (Fault EIO 0)]" "MaxRecordBytes small_opts = MaxRecordBytes (opts ?l)"
      "unat (nextLSN ?l) + (segSize (active ?l) + length (pending ?l)) < 2 ^ 64"
    unfolding l by (simp_all add: small_opts_def newSegment_def)
  have r: "a_recs ?a = []" "a_staged ?a = [[7]]" by (simp_all add: fresh_alog_def)
  from broken_round_can_reappear [OF rel inv hp p(1-4) ns mr p(5,6), of 9 "\<lambda>_. 0" "''X''"]
  show ?thesis unfolding l(6) r strip_def by (simp add: numeral_2_eq_2) blast
qed

end
