(* ===== verification/Reader.thy ===== *)
theory Reader
  imports LogRefinement
begin

text \<open>
  The cursor over the log: \<^verbatim>\<open>reader.go\<close>.

  A reader works on a snapshot of the segment list that may be old, keeps a window of bytes of the
  segment it has open, and finds a record by walking the headers in front of it. A call is modelled
  against the log as it is during the call; between calls the log moves on, and the snapshot, the
  open file and the window stay as they were.

  \<open>rd_ok\<close> says how a reader may lag behind the log. The lemmas show, for every pattern of I/O errors,
  that a call returns the record the log has at that number, and that it passes over a number only
  if the log has no record there.
\<close>

subsection \<open>State and calls\<close>

text \<open>\<^verbatim>\<open>File.ReadAt\<close>: the bytes asked for, or an error; \<^verbatim>\<open>io.EOF\<close> when the file is too short.\<close>

definition file_read_at :: "nat \<Rightarrow> nat \<Rightarrow> nat \<Rightarrow> bytes io" where
  "file_read_at i off n w = (case next_fault w of
      Some (Fault e _) \<Rightarrow> (Inl (Errno e), pop_fault w)
    | None \<Rightarrow> (if off + n \<le> length (data w i) then (Inr (take n (drop off (data w i))), pop_fault w)
        else (Inl (ErrText ''EOF''), pop_fault w)))"

record reader =
  rviews :: "segView list"
  rdurable :: u64
  rnextLSN :: u64
  ridx :: nat
  rfile :: "nat option"
  rpath :: string
  roff :: nat
  rposLSN :: u64
  rwin :: bytes
  rwinOff :: int

type_synonym 'a rd = "reader \<Rightarrow> fs \<Rightarrow> (error + 'a) \<times> reader \<times> fs"

definition readWindow :: nat where
  "readWindow = 262144"

definition refresh :: "log \<Rightarrow> reader \<Rightarrow> reader" where
  "refresh l r = r\<lparr>rviews := fst (snapshot l), rdurable := snd (snapshot l)\<rparr>"

definition newReader :: "u64 \<Rightarrow> log \<Rightarrow> error + reader" where
  "newReader from0 l =
     (let r = refresh l \<lparr>rviews = [], rdurable = 0, rnextLSN = 0, ridx = 0, rfile = None, rpath = [], roff = 0,
                         rposLSN = 0, rwin = [], rwinOff = -1\<rparr>;
          from1 = (if from0 = 0 then (if rviews r \<noteq> [] then vbase (hd (rviews r)) else 1) else from0) in
      if rviews r \<noteq> [] \<and> from1 < vbase (hd (rviews r)) then
        (if \<not> gapBefore (hd (rviews r)) from1 then Inl ErrTruncated
         else Inr (r\<lparr>rnextLSN := vbase (hd (rviews r))\<rparr>))
      else Inr (r\<lparr>rnextLSN := from1\<rparr>))"

definition dropWindow :: "reader \<Rightarrow> reader" where
  "dropWindow r = r\<lparr>rwin := [], rwinOff := -1\<rparr>"

definition fill :: "nat \<Rightarrow> nat \<Rightarrow> nat \<Rightarrow> unit rd" where
  "fill off need lim r w =
     (let size0 = int (max readWindow need);
          size = (if int off + size0 > int lim then int lim - int off else size0) in
      if size < int need then (Inl ErrNoData, r, w)
      else case rfile r of
        None \<Rightarrow> (Inl (ErrText ''invalid argument''), dropWindow r, w)
      | Some i \<Rightarrow> (case file_read_at i off (nat size) w of
            (Inl e, w') \<Rightarrow> (Inl e, dropWindow r, w')
          | (Inr b, w') \<Rightarrow> (Inr (), r\<lparr>rwin := b, rwinOff := int off\<rparr>, w')))"

definition window :: "nat \<Rightarrow> nat \<Rightarrow> reader \<Rightarrow> bytes" where
  "window off n r = take n (drop (nat (int off - rwinOff r)) (rwin r))"

definition rdAt :: "nat \<Rightarrow> nat \<Rightarrow> nat \<Rightarrow> bytes rd" where
  "rdAt off n lim r w =
     (if int off < rwinOff r \<or> int off + int n > rwinOff r + int (length (rwin r)) then
        (case fill off n lim r w of
           (Inl e, r', w') \<Rightarrow> (Inl e, r', w')
         | (Inr _, r', w') \<Rightarrow> (Inr (window off n r'), r', w'))
      else (Inr (window off n r), r, w))"

function skipLoop :: "u64 \<Rightarrow> nat \<Rightarrow> segView \<Rightarrow> u64 \<Rightarrow> nat rd" where
  "skipLoop k off v target r w =
     (if k < target then
        (case rdAt off headerSize (vsize v) r w of
           (Inl e, r', w') \<Rightarrow> (Inl e, r', w')
         | (Inr hdr, r', w') \<Rightarrow> skipLoop (k + 1) (off + recordSize (unat (fst (decodeHeader hdr)))) v target r' w')
      else (Inr off, r, w))"
  by pat_completeness auto
termination
proof (relation "measure (\<lambda>(k, _, _, target, _). unat target - unat k)")
  fix k target :: u64 and off v r w r' w' hdr and x y
  assume "k < target"
  then have "unat k < unat target" by (simp add: word_less_nat_alt)
  moreover from this have "unat (k + 1) = unat k + 1"
    using unat_plus_no_wrap [of k 1] below_unat_u64 [of "unat k + 1" target] by simp
  ultimately show "((k + 1, off + recordSize (unat (fst (decodeHeader hdr))), v, target, r', w'), k, off, v, target, r, w)
      \<in> measure (\<lambda>(k, _, _, target, _). unat target - unat k)"
    by simp
qed simp

declare skipLoop.simps [simp del]

definition skipTo :: "segView \<Rightarrow> u64 \<Rightarrow> nat rd" where
  "skipTo v target = skipLoop (vbase v) 0 v target"

definition find :: "u64 \<Rightarrow> segView list \<Rightarrow> nat option" where
  "find k vs = List.find (\<lambda>i. k \<ge> vbase (vs ! i) \<and> k < vbase (vs ! i) + vcount (vs ! i)) [0..<length vs]"

definition closeFile :: "reader \<Rightarrow> fs \<Rightarrow> reader \<times> fs" where
  "closeFile r w = (case rfile r of None \<Rightarrow> (r, w) | Some i \<Rightarrow> (r\<lparr>rfile := None\<rparr>, snd (file_close i w)))"

definition openAt :: "nat \<Rightarrow> unit rd" where
  "openAt i r w =
     (let v = rviews r ! i in
      if rfile r \<noteq> None \<and> rpath r = vpath v \<and> rposLSN r = rnextLSN r then (Inr (), r\<lparr>ridx := i\<rparr>, w)
      else case closeFile r w of (r1, w1) \<Rightarrow>
      (case open_existing (vpath v) w1 of
         (Inl e, w2) \<Rightarrow> (Inl (if errors_is e (Errno ENOENT) then ErrTruncated else e), r1, w2)
       | (Inr f, w2) \<Rightarrow>
           (case skipTo v (rnextLSN r1) (dropWindow (r1\<lparr>rfile := Some f, rpath := vpath v, ridx := i\<rparr>)) w2 of
              (Inl e, r3, w3) \<Rightarrow> (Inl e, r3\<lparr>rfile := None\<rparr>, snd (file_close f w3))
            | (Inr off, r3, w3) \<Rightarrow> (Inr (), r3\<lparr>roff := off, rposLSN := rnextLSN r3\<rparr>, w3))))"

text \<open>The segment behind the gap that holds \<open>k\<close>.\<close>

definition stepOver :: "u64 \<Rightarrow> segView list \<Rightarrow> nat option" where
  "stepOver k vs = List.find (\<lambda>i. gapBefore (vs ! i) k \<and> vcount (vs ! i) > 0) [0..<length vs]"

definition position :: "log \<Rightarrow> unit rd" where
  "position l r w =
     (case find (rnextLSN r) (rviews r) of
        Some i \<Rightarrow> openAt i r w
      | None \<Rightarrow>
          (let r1 = refresh l r in
           case find (rnextLSN r1) (rviews r1) of
             Some i \<Rightarrow> openAt i r1 w
           | None \<Rightarrow>
               (case stepOver (rnextLSN r1) (rviews r1) of
                  Some i \<Rightarrow> openAt i (r1\<lparr>rnextLSN := vbase (rviews r1 ! i)\<rparr>) w
                | None \<Rightarrow>
                    if rviews r1 \<noteq> [] \<and> rnextLSN r1 < vbase (hd (rviews r1)) then (Inl ErrTruncated, r1, w)
                    else (Inl ErrNoData, r1, w))))"

text \<open>The record at the cursor, once the right segment is open.\<close>

definition readRecord :: "log \<Rightarrow> (u64 \<times> bytes) rd" where
  "readRecord l r w =
     (let v = rviews r ! ridx r in
      case rdAt (roff r) headerSize (vsize v) r w of
        (Inl e, r1, w1) \<Rightarrow> (Inl e, r1, w1)
      | (Inr hdr, r1, w1) \<Rightarrow>
          (case decodeHeader hdr of (len, crc) \<Rightarrow>
           let end1 = roff r1 + recordSize (unat len) in
           if len > of_int (MaxRecordBytes (opts l)) \<or> end1 > vsize v then (Inl ErrCorrupt, r1, w1)
           else case rdAt (roff r1) (headerSize + unat len) (vsize v) r1 w1 of
             (Inl e, r2, w2) \<Rightarrow> (Inl e, r2, w2)
           | (Inr rec, r2, w2) \<Rightarrow>
               (let payload = drop headerSize rec in
                if checksum len payload \<noteq> crc then (Inl ErrCorrupt, r2, w2)
                else (Inr (rnextLSN r2, payload),
                      r2\<lparr>roff := end1, rnextLSN := rnextLSN r2 + 1, rposLSN := rnextLSN r2 + 1\<rparr>, w2))))"

definition readerNext :: "log \<Rightarrow> (u64 \<times> bytes) rd" where
  "readerNext l r w =
     (let r0 = (if rnextLSN r > rdurable r then refresh l r else r) in
      if rnextLSN r0 > rdurable r0 then (Inl ErrNoData, r0, w)
      else case position l r0 w of
        (Inl e, r1, w1) \<Rightarrow> (Inl e, r1, w1)
      | (Inr _, r1, w1) \<Rightarrow>
          (if roff r1 + headerSize > vsize (rviews r1 ! ridx r1) then
             (case position l (refresh l r1) w1 of
                (Inl e, r2, w2) \<Rightarrow> (Inl e, r2, w2)
              | (Inr _, r2, w2) \<Rightarrow>
                  if roff r2 + headerSize > vsize (rviews r2 ! ridx r2) then (Inl ErrNoData, r2, w2)
                  else readRecord l r2 w2)
           else readRecord l r1 w1))"

definition readerClose :: "reader \<Rightarrow> fs \<Rightarrow> (error + unit) \<times> reader \<times> fs" where
  "readerClose r w = (case rfile r of
      None \<Rightarrow> (Inr (), r, w)
    | Some i \<Rightarrow> (case file_close i w of (res, w') \<Rightarrow> (res, r\<lparr>rfile := None\<rparr>, w')))"


subsection \<open>Reading a published stretch of a file\<close>

text \<open>Reading changes nothing on disk; it only uses up the faults of the calls it makes.\<close>

definition reads :: "fs \<Rightarrow> fs \<Rightarrow> bool" where
  "reads w w' \<longleftrightarrow> (\<exists>fl. w' = w\<lparr>faults := fl\<rparr>) \<and> (faults w = [] \<longrightarrow> w' = w)"

lemma reads_refl [simp]: "reads w w"
  by (auto simp: reads_def intro: exI [of _ "faults w"])

lemma reads_trans: "reads w w' \<Longrightarrow> reads w' w'' \<Longrightarrow> reads w w''"
  by (auto simp: reads_def)

lemma reads_pop [simp]: "reads w (pop_fault w)"
  by (auto simp: reads_def pop_fault_def)

lemma reads_same: "reads w w' \<Longrightarrow> data w' = data w \<and> dents w' = dents w"
  by (auto simp: reads_def)

lemma reads_close [simp]: "reads w (snd (file_close i w))"
  by (auto simp: file_close_def split: option.splits fault.splits)

text \<open>How a call may fail: with an error of the operating system, and then some call was faulty.\<close>

definition os_error :: "fs \<Rightarrow> error \<Rightarrow> bool" where
  "os_error w e \<longleftrightarrow> faults w \<noteq> [] \<and> (e = ErrTruncated \<or> (\<exists>x. e = Errno x))"

lemma os_error_reads: "reads w w' \<Longrightarrow> os_error w' e \<Longrightarrow> os_error w e"
  by (auto simp: os_error_def reads_def)

text \<open>The window holds bytes of the open file, all of them among the first \<open>n\<close>.\<close>

definition win_ok :: "bytes \<Rightarrow> nat \<Rightarrow> reader \<Rightarrow> bool" where
  "win_ok d n r \<longleftrightarrow> rwin r = [] \<and> rwinOff r = -1
     \<or> 0 \<le> rwinOff r \<and> nat (rwinOff r) + length (rwin r) \<le> n
       \<and> rwin r = take (length (rwin r)) (drop (nat (rwinOff r)) d)"

lemma win_ok_cong [simp]:
  "win_ok d n (r\<lparr>rviews := a\<rparr>) = win_ok d n r" "win_ok d n (r\<lparr>rnextLSN := b\<rparr>) = win_ok d n r"
  "win_ok d n (r\<lparr>roff := c\<rparr>) = win_ok d n r" "win_ok d n (r\<lparr>rposLSN := b\<rparr>) = win_ok d n r"
  "win_ok d n (r\<lparr>ridx := i\<rparr>) = win_ok d n r" "win_ok d n (r\<lparr>rdurable := b\<rparr>) = win_ok d n r"
  by (simp_all add: win_ok_def)

lemma win_ok_mono: "win_ok d n r \<Longrightarrow> n \<le> m \<Longrightarrow> take n d = take n d' \<Longrightarrow> win_ok d' m r"
proof -
  assume ok: "win_ok d n r" and nm: "n \<le> m" and eq: "take n d = take n d'"
  have "take a (drop z d) = take a (drop z d')" if "z + a \<le> n" for a z
  proof -
    have "take (a + z) d = take (a + z) d'" using eq that by (metis add.commute min.absorb1 take_take)
    then show ?thesis by (simp add: take_drop)
  qed
  then show ?thesis using ok nm by (auto simp: win_ok_def)
qed

lemma window_ok:
  assumes "win_ok d n r" and "rwinOff r \<le> int off" and "int off + int k \<le> rwinOff r + int (length (rwin r))" and "0 < k"
  shows "window off k r = take k (drop off d)"
proof -
  have w: "0 \<le> rwinOff r" "rwin r = take (length (rwin r)) (drop (nat (rwinOff r)) d)"
    using assms by (auto simp: win_ok_def)
  define a where "a = nat (rwinOff r)"
  have a: "a \<le> off" "off + k \<le> a + length (rwin r)" "nat (int off - rwinOff r) = off - a"
    using assms(2,3) w(1) by (simp_all add: a_def nat_le_iff le_nat_iff nat_diff_distrib)
  have "window off k r = take k (drop (off - a) (take (length (rwin r)) (drop a d)))"
    using w(2) a(3) unfolding window_def a_def by metis
  also have "\<dots> = take k (drop off d)"
    using a by (simp add: drop_take)
  finally show ?thesis .
qed

text \<open>Fields that reading bytes does not change.\<close>

definition moves :: "reader \<Rightarrow> reader \<Rightarrow> bool" where
  "moves r r' \<longleftrightarrow> rviews r' = rviews r \<and> rdurable r' = rdurable r \<and> rnextLSN r' = rnextLSN r \<and> ridx r' = ridx r
     \<and> rfile r' = rfile r \<and> rpath r' = rpath r \<and> roff r' = roff r \<and> rposLSN r' = rposLSN r"

lemma moves_refl [simp]: "moves r r"
  by (simp add: moves_def)

lemma moves_trans: "moves r r' \<Longrightarrow> moves r' r'' \<Longrightarrow> moves r r''"
  by (simp add: moves_def)

lemma rdAt_ok:
  assumes f: "rfile r = Some i" and win: "win_ok (data w i) n r" and lim: "off + k \<le> lim" "lim \<le> n" "n \<le> length (data w i)"
    and k: "0 < k" and call: "rdAt off k lim r w = (res, r', w')"
  shows "reads w w' \<and> moves r r' \<and> win_ok (data w i) n r' \<and> (res = Inr (take k (drop off (data w i))) \<or> (\<exists>e. res = Inl e \<and> os_error w e))"
proof (cases "int off < rwinOff r \<or> int off + int k > rwinOff r + int (length (rwin r))")
  case False
  then show ?thesis using call window_ok [OF win _ _ k, of off] win by (auto simp: rdAt_def)
next
  case True
  define size where "size = (if int off + int (max readWindow k) > int lim then int lim - int off else int (max readWindow k))"
  have size: "int k \<le> size" "off + nat size \<le> lim" using lim(1) by (auto simp: size_def)
  obtain fr w1 where fr: "file_read_at i off (nat size) w = (fr, w1)" by fastforce
  have w1: "w1 = pop_fault w" "fr = Inr (take (nat size) (drop off (data w i))) \<or> (\<exists>e. fr = Inl (Errno e)) \<and> faults w \<noteq> []"
    using fr size(2) lim by (auto simp: file_read_at_def next_fault_def split: option.splits fault.splits if_splits list.splits)
  have fl: "fill off k lim r w = (case fr of Inl e \<Rightarrow> (Inl e, dropWindow r, w1)
      | Inr b \<Rightarrow> (Inr (), r\<lparr>rwin := b, rwinOff := int off\<rparr>, w1))"
    using f fr size(1) by (auto simp: fill_def size_def Let_def split: sum.splits)
  show ?thesis
  proof (cases fr)
    case (Inl e)
    then show ?thesis
      using call True fl w1 by (auto simp: rdAt_def os_error_def win_ok_def dropWindow_def moves_def)
  next
    case (Inr b)
    let ?r = "r\<lparr>rwin := b, rwinOff := int off\<rparr>"
    have b: "b = take (nat size) (drop off (data w i))" "length b = nat size"
      using w1(2) Inr size(2) lim by auto
    have ok: "win_ok (data w i) n ?r" using b size lim by (simp add: win_ok_def)
    have "window off k ?r = take k (drop off (data w i))"
      using window_ok [OF ok _ _ k] b(2) size(1) by simp
    moreover have "moves r ?r" by (simp add: moves_def)
    ultimately show ?thesis using call True fl Inr ok w1(1) by (auto simp: rdAt_def)
  qed
qed


subsection \<open>Finding a record in a segment\<close>

lemma frames_at:
  assumes "j < length ps" and "take (length (frames ps)) d = frames ps"
  shows "\<exists>rest. drop (length (frames (take j ps))) d = frame (ps ! j) @ rest"
proof -
  have ps: "ps = take j ps @ ps ! j # drop (Suc j) ps" using assms(1) by (simp add: id_take_nth_drop)
  have "d = frames ps @ drop (length (frames ps)) d" using assms(2) by (metis append_take_drop_id)
  moreover have "frames ps = frames (take j ps) @ frame (ps ! j) @ frames (drop (Suc j) ps)"
    using ps by (metis frames_append frames_Cons)
  ultimately show ?thesis by (metis append.assoc append_eq_conv_conj)
qed

lemma frames_step:
  "j < length ps \<Longrightarrow> length (frames (take (Suc j) ps)) = length (frames (take j ps)) + recordSize (length (ps ! j))"
  by (simp add: take_Suc_conv_app_nth)

lemma frames_take_mono: "i \<le> j \<Longrightarrow> length (frames (take i ps)) \<le> length (frames (take j ps))"
proof -
  assume "i \<le> j"
  then have "take j ps = take i ps @ drop i (take j ps)" by (metis append_take_drop_id min.absorb1 take_take)
  then show ?thesis by (metis frames_append le_add1 length_append)
qed

lemma frames_take_le: "length (frames (take j ps)) \<le> length (frames ps)"
  by (metis append_take_drop_id frames_append le_add1 length_append)

text \<open>The payloads \<open>ps\<close> sit at the start of the file \<open>i\<close>, under the numbers from \<open>b\<close> on.\<close>

definition file_has :: "nat \<Rightarrow> fs \<Rightarrow> nat \<Rightarrow> u64 \<Rightarrow> bytes list \<Rightarrow> bool" where
  "file_has m w i b ps \<longleftrightarrow> limit_ok m \<and> take (length (frames ps)) (data w i) = frames ps
     \<and> list_all (\<lambda>p. length p \<le> m) ps \<and> unat b + length ps < 2 ^ 64"

lemma file_has_reads: "reads w w' \<Longrightarrow> file_has m w i b ps \<Longrightarrow> file_has m w' i b ps"
  by (simp add: file_has_def reads_same)

lemma file_has_length: "file_has m w i b ps \<Longrightarrow> length (frames ps) \<le> length (data w i)"
  unfolding file_has_def by (metis length_take min.cobounded1)

lemma file_has_size: "file_has m w i b ps \<Longrightarrow> p \<in> set ps \<Longrightarrow> length p < 2 ^ 32"
  by (auto simp: file_has_def limit_ok_def list_all_iff)

lemma lsn_at: "file_has m w i b ps \<Longrightarrow> j \<le> length ps \<Longrightarrow> unat (b + of_nat j) = unat b + j"
  using unat_plus_no_wrap [of b "of_nat j"] unat_of_nat_u64 [of j] by (simp add: file_has_def)

lemma header_at:
  assumes h: "file_has m w i b ps" and j: "j < length ps"
  shows "fst (decodeHeader (take headerSize (drop (length (frames (take j ps))) (data w i)))) = of_nat (length (ps ! j))"
    and "take (headerSize + length (ps ! j)) (drop (length (frames (take j ps))) (data w i)) = frame (ps ! j)"
proof -
  obtain rest where r: "drop (length (frames (take j ps))) (data w i) = frame (ps ! j) @ rest"
    using frames_at [OF j] h by (auto simp: file_has_def)
  show "fst (decodeHeader (take headerSize (drop (length (frames (take j ps))) (data w i)))) = of_nat (length (ps ! j))"
    unfolding r by (simp add: framing recordSize_def)
  show "take (headerSize + length (ps ! j)) (drop (length (frames (take j ps))) (data w i)) = frame (ps ! j)"
    unfolding r by (simp add: recordSize_def)
qed

lemma skipLoop_ok:
  assumes "file_has m w i b ps" and "rfile r = Some i" and "win_ok (data w i) (length (frames ps)) r"
    and "vsize v = length (frames (take c ps))" and "c \<le> length ps" and "j \<le> k" and "k \<le> c"
    and "skipLoop (b + of_nat j) (length (frames (take j ps))) v (b + of_nat k) r w = (res, r', w')"
  shows "reads w w' \<and> moves r r' \<and> win_ok (data w i) (length (frames ps)) r'
     \<and> (res = Inr (length (frames (take k ps))) \<or> (\<exists>e. res = Inl e \<and> os_error w e))"
  using assms
proof (induction "k - j" arbitrary: j r w)
  case 0
  then have "j = k" by simp
  then show ?case using 0 by (simp add: skipLoop.simps)
next
  case (Suc n)
  note h = Suc.prems(1)
  have jk: "j < k" "j < length ps" using Suc by simp_all
  have lt: "b + of_nat j < b + of_nat k"
    using lsn_at [OF h, of j] lsn_at [OF h, of k] jk Suc.prems(5,7) by (simp add: word_less_nat_alt)
  have lims: "length (frames (take j ps)) + headerSize \<le> vsize v"
    using frames_step [OF jk(2)] frames_take_mono [of "Suc j" c ps] jk Suc.prems(4,7) h
    by (simp add: file_has_def recordSize_def)
  have lim2: "vsize v \<le> length (frames ps)" using Suc.prems(4) frames_take_le by simp
  obtain x r1 w1 where rd: "rdAt (length (frames (take j ps))) headerSize (vsize v) r w = (x, r1, w1)"
    by (metis prod_cases3)
  have hp: "0 < headerSize" by (simp add: headerSize_def)
  note a = rdAt_ok [OF Suc.prems(2,3) lims lim2 file_has_length [OF h] hp rd]
  show ?case
  proof (cases x)
    case (Inl e)
    then show ?thesis using a Suc.prems(8) lt rd by (auto simp: skipLoop.simps [of "b + of_nat j"])
  next
    case (Inr hdr)
    then have "fst (decodeHeader hdr) = of_nat (length (ps ! j))" using a header_at(1) [OF h jk(2)] by auto
    moreover have "length (ps ! j) < 2 ^ 32" using file_has_size [OF h nth_mem [OF jk(2)]] .
    ultimately have "recordSize (unat (fst (decodeHeader hdr))) = recordSize (length (ps ! j))"
      by (simp add: unat_of_nat_u32)
    moreover have e: "b + of_nat (Suc j) = b + of_nat j + 1" by (simp add: algebra_simps)
    ultimately have nxt: "skipLoop (b + of_nat (Suc j)) (length (frames (take (Suc j) ps))) v (b + of_nat k) r1 w1 = (res, r', w')"
      using Suc.prems(8) lt rd Inr unfolding e frames_step [OF jk(2)] by (simp add: skipLoop.simps [of "b + of_nat j"])
    have w1: "data w1 = data w" using a reads_same by blast
    have "reads w1 w' \<and> moves r1 r' \<and> win_ok (data w1 i) (length (frames ps)) r'
        \<and> (res = Inr (length (frames (take k ps))) \<or> (\<exists>e. res = Inl e \<and> os_error w1 e))"
      using Suc.hyps(1) [of "Suc j" w1 r1] Suc.hyps(2) a h nxt Suc.prems(2-7) jk w1 file_has_reads
      by (auto simp: moves_def)
    then show ?thesis using a w1 reads_trans moves_trans os_error_reads by metis
  qed
qed


subsection \<open>Opening a segment and reading from it\<close>

text \<open>A view of a segment, perhaps from before it grew.\<close>

definition view_of :: "segView \<Rightarrow> segment \<Rightarrow> bytes list \<Rightarrow> bool" where
  "view_of v s ps \<longleftrightarrow> vpath v = segPath s \<and> vbase v = baseLSN s \<and> vprevEnd v = prevEnd s
     \<and> unat (vcount v) \<le> length ps \<and> vsize v = length (frames (take (unat (vcount v)) ps))"

text \<open>The cursor stands in front of record \<open>k\<close> of the segment, which it has open.\<close>

definition stands :: "fs \<Rightarrow> reader \<Rightarrow> segment \<Rightarrow> bytes list \<Rightarrow> nat \<Rightarrow> bool" where
  "stands w r s ps k \<longleftrightarrow> (\<exists>i. rfile r = Some i \<and> map_of (dents w) (segPath s) = Some i
     \<and> win_ok (data w i) (length (frames ps)) r) \<and> rpath r = segPath s \<and> k \<le> length ps
     \<and> rnextLSN r = baseLSN s + of_nat k \<and> rposLSN r = rnextLSN r \<and> roff r = length (frames (take k ps))"

lemma seg_file:
  assumes "seg_holds m w s ps" and "limit_ok m" and "map_of (dents w) (segPath s) = Some i"
  shows "file_has m w i (baseLSN s) ps"
  using assms by (auto simp: seg_holds_def file_has_def)

lemma stands_reads: "reads w w' \<Longrightarrow> stands w r s ps k \<Longrightarrow> stands w' r s ps k"
  by (simp add: stands_def reads_same)

lemma seg_holds_reads: "reads w w' \<Longrightarrow> seg_holds m w s ps = seg_holds m w' s ps"
  by (simp add: seg_holds_def reads_same)

text \<open>The same reader but for its position: what a call that only positions it may change.\<close>

definition keeps :: "reader \<Rightarrow> reader \<Rightarrow> bool" where
  "keeps r r' \<longleftrightarrow> rviews r' = rviews r \<and> rdurable r' = rdurable r \<and> rnextLSN r' = rnextLSN r"

lemma keeps_trans: "keeps r r' \<Longrightarrow> keeps r' r'' \<Longrightarrow> keeps r r''"
  by (simp add: keeps_def)

lemma moves_keeps: "moves r r' \<Longrightarrow> keeps r r'"
  by (simp add: moves_def keeps_def)

lemma stands_place:
  assumes h: "seg_holds m w s ps" and st: "stands w r s ps k'" and k: "rnextLSN r = baseLSN s + of_nat k" "k \<le> length ps"
  shows "k' = k"
proof -
  have "unat (baseLSN s) + length ps < 2 ^ 64" using h by (simp add: seg_holds_def)
  then have "unat (baseLSN s + of_nat j) = unat (baseLSN s) + j" if "j \<le> length ps" for j
    using that unat_plus_no_wrap [of "baseLSN s" "of_nat j"] unat_of_nat_u64 [of j] by simp
  moreover have "k' \<le> length ps" using st by (simp add: stands_def)
  ultimately show ?thesis using st k unfolding stands_def by (metis add_left_cancel)
qed

lemma skipTo_ok:
  assumes fh: "file_has m w f (baseLSN s) ps" and v: "view_of v s ps" and k: "k \<le> unat (vcount v)"
    and r: "rfile r = Some f" "rwin r = []" "rwinOff r = -1" and call: "skipTo v (baseLSN s + of_nat k) r w = (sk, r', w')"
  shows "reads w w' \<and> moves r r' \<and> win_ok (data w f) (length (frames ps)) r'
     \<and> (sk = Inr (length (frames (take k ps))) \<or> (\<exists>e. sk = Inl e \<and> os_error w e))"
proof -
  have "skipLoop (baseLSN s + of_nat 0) (length (frames (take 0 ps))) v (baseLSN s + of_nat k) r w = (sk, r', w')"
    using call v by (simp add: skipTo_def view_of_def)
  then show ?thesis
    using skipLoop_ok [OF fh r(1), of v "unat (vcount v)" 0 k sk r' w'] v k r by (simp add: win_ok_def view_of_def)
qed

lemma openAt_ok:
  assumes h: "seg_holds m w s ps" and m: "limit_ok m" and v: "view_of (rviews r ! i) s ps"
    and k: "rnextLSN r = baseLSN s + of_nat k" "k \<le> unat (vcount (rviews r ! i))"
    and open1: "rfile r \<noteq> None \<Longrightarrow> rpath r = segPath s \<Longrightarrow> rposLSN r = rnextLSN r \<Longrightarrow> \<exists>k'. stands w r s ps k'"
    and call: "openAt i r w = (res, r', w')"
  shows "reads w w' \<and> keeps r r'
     \<and> (res = Inr () \<and> ridx r' = i \<and> stands w' r' s ps k \<or> (\<exists>e. res = Inl e \<and> os_error w e \<and> rfile r' = None))"
proof (cases "rfile r \<noteq> None \<and> rpath r = vpath (rviews r ! i) \<and> rposLSN r = rnextLSN r")
  case True
  then have p: "rpath r = segPath s" using v by (simp add: view_of_def)
  then obtain k' where k': "stands w r s ps k'" using open1 True by blast
  have "k' = k" using stands_place [OF h k' k(1)] k(2) v by (simp add: view_of_def)
  then show ?thesis using True call k' by (auto simp: openAt_def Let_def stands_def keeps_def)
next
  case False
  obtain r1 w1 where c: "closeFile r w = (r1, w1)" by fastforce
  have r1: "reads w w1" "keeps r r1" "rfile r1 = None"
    using c by (auto simp: closeFile_def keeps_def split: option.splits)
  obtain op w2 where o: "open_existing (segPath s) w1 = (op, w2)" by fastforce
  obtain f where f: "map_of (dents w) (segPath s) = Some f" using h by (auto simp: seg_holds_def)
  have w2: "reads w1 w2" "op = Inr f \<or> (\<exists>e. op = Inl (Errno e)) \<and> faults w1 \<noteq> []"
    using o f reads_same [OF r1(1)]
    by (auto simp: open_existing_def lookup_name_def next_fault_def split: option.splits fault.splits list.splits)
  have p: "vpath (rviews r ! i) = segPath s" "vbase (rviews r ! i) = baseLSN s" using v by (auto simp: view_of_def)
  show ?thesis
  proof (cases op)
    case (Inl e)
    then obtain x where x: "op = Inl (Errno x)" "faults w1 \<noteq> []" using w2 by auto
    then have "faults w \<noteq> []" using r1(1) by (auto simp: reads_def)
    moreover have "res = Inl (if x = ENOENT then ErrTruncated else Errno x)" "r' = r1" "w' = w2"
      using call False c o p x by (auto simp: openAt_def Let_def)
    ultimately show ?thesis
      using r1 reads_trans [OF r1(1) w2(1)] by (auto simp: os_error_def)
  next
    case (Inr f')
    then have f': "f' = f" using w2 by auto
    define r2 where "r2 = dropWindow (r1\<lparr>rfile := Some f, rpath := segPath s, ridx := i\<rparr>)"
    have r2: "keeps r r2" "rfile r2 = Some f" "rpath r2 = segPath s" "ridx r2 = i" "rwin r2 = []" "rwinOff r2 = -1"
      using r1(2) by (simp_all add: r2_def dropWindow_def keeps_def)
    obtain sk r3 w3 where sk: "skipTo (rviews r ! i) (rnextLSN r1) r2 w2 = (sk, r3, w3)" by (metis prod_cases3)
    have w02: "reads w w2" using reads_trans [OF r1(1) w2(1)] .
    have fh: "file_has m w2 f (baseLSN s) ps" using seg_file [OF h m f] file_has_reads [OF w02] by blast
    have a: "reads w2 w3 \<and> moves r2 r3 \<and> win_ok (data w2 f) (length (frames ps)) r3
        \<and> (sk = Inr (length (frames (take k ps))) \<or> (\<exists>e. sk = Inl e \<and> os_error w2 e))"
      using skipTo_ok [OF fh v k(2) r2(2,5,6)] sk k(1) r1(2) by (simp add: keeps_def)
    have w03: "reads w w3" using a w02 reads_trans by blast
    have kp: "keeps r r3" using keeps_trans [OF r2(1) moves_keeps] a by blast
    show ?thesis
    proof (cases sk)
      case (Inl e)
      then have "res = Inl e" "r' = r3\<lparr>rfile := None\<rparr>" "w' = snd (file_close f w3)"
        using call False c o Inr f' p sk by (auto simp: openAt_def Let_def r2_def)
      then show ?thesis
        using a Inl kp reads_trans [OF w03 reads_close] os_error_reads [OF w02] by (auto simp: keeps_def)
    next
      case (Inr n)
      then have "res = Inr ()" "r' = r3\<lparr>roff := n, rposLSN := rnextLSN r3\<rparr>" "w' = w3" "n = length (frames (take k ps))"
        using call False c o \<open>op = Inr f'\<close> f' p sk a by (auto simp: openAt_def Let_def r2_def)
      then show ?thesis
        using a kp w03 r2 k v f reads_same [OF w03] reads_same [OF w02]
        by (auto simp: stands_def keeps_def moves_def view_of_def)
    qed
  qed
qed

lemma readRecord_ok:
  assumes h: "seg_holds m w s ps" and m: "limit_ok m" "m = nat (MaxRecordBytes (opts l))" "0 \<le> MaxRecordBytes (opts l)"
    and v: "view_of (rviews r ! ridx r) s ps"
    and st: "stands w r s ps k" and k: "k < unat (vcount (rviews r ! ridx r))"
    and call: "readRecord l r w = (res, r', w')"
  shows "reads w w' \<and> rviews r' = rviews r \<and> rdurable r' = rdurable r
     \<and> (res = Inr (rnextLSN r, ps ! k) \<and> stands w' r' s ps (Suc k)
        \<or> (\<exists>e. res = Inl e \<and> os_error w e \<and> stands w' r' s ps k))"
proof -
  let ?v = "rviews r ! ridx r"
  have kl: "k < length ps" using k v by (simp add: view_of_def)
  obtain i where i: "rfile r = Some i" "map_of (dents w) (segPath s) = Some i" "win_ok (data w i) (length (frames ps)) r"
    using st by (auto simp: stands_def)
  have fh: "file_has m w i (baseLSN s) ps" using seg_file [OF h m(1) i(2)] .
  have off: "roff r = length (frames (take k ps))" using st by (simp add: stands_def)
  have endk: "length (frames (take k ps)) + recordSize (length (ps ! k)) \<le> vsize ?v"
    using frames_step [OF kl] frames_take_mono [of "Suc k" "unat (vcount ?v)" ps] k v by (simp add: view_of_def)
  have vs: "vsize ?v \<le> length (frames ps)" using v frames_take_le by (simp add: view_of_def)
  have pk: "length (ps ! k) \<le> m" using fh kl by (simp add: file_has_def list_all_length)
  note len = limit_fits [OF m(1) pk]
  have hp: "0 < headerSize" by (simp add: headerSize_def)
  obtain x r1 w1 where rd: "rdAt (roff r) headerSize (vsize ?v) r w = (x, r1, w1)" by (metis prod_cases3)
  have "roff r + headerSize \<le> vsize ?v" using off endk by (simp add: recordSize_def)
  note a = rdAt_ok [OF i(1,3) this vs file_has_length [OF fh] hp rd]
  have st1: "stands w1 r1 s ps k" using st a i reads_same [of w w1] by (auto simp: stands_def moves_def)
  show ?thesis
  proof (cases x)
    case (Inl e)
    then show ?thesis using call rd a st1 by (auto simp: readRecord_def Let_def moves_def)
  next
    case (Inr hdr)
    then have hdr: "hdr = take headerSize (drop (length (frames (take k ps))) (data w i))" using a off by auto
    have "take headerSize (frame (ps ! k)) = hdr"
      using header_at(2) [OF fh kl] hdr by (metis min.absorb1 le_add1 take_take)
    then have dec: "decodeHeader hdr = (of_nat (length (ps ! k)), checksum (of_nat (length (ps ! k))) (ps ! k))"
      by (auto simp: framing)
    obtain y r2 w2 where rd2: "rdAt (roff r1) (headerSize + length (ps ! k)) (vsize ?v) r1 w1 = (y, r2, w2)"
      by (metis prod_cases3)
    have m1: "moves r r1" "reads w w1" "win_ok (data w1 i) (length (frames ps)) r1" using a reads_same [of w w1] by auto
    have f1: "rfile r1 = Some i" "roff r1 = length (frames (take k ps))" using m1(1) i off by (simp_all add: moves_def)
    have fh1: "file_has m w1 i (baseLSN s) ps" using file_has_reads [OF m1(2) fh] .
    have lim1: "roff r1 + (headerSize + length (ps ! k)) \<le> vsize ?v" using f1 endk by (simp add: recordSize_def)
    have kp: "0 < headerSize + length (ps ! k)" using hp by simp
    note b = rdAt_ok [OF f1(1) m1(3) lim1 vs file_has_length [OF fh1] kp rd2]
    have st2: "stands w2 r2 s ps k" using st1 b f1 reads_same [of w1 w2] by (auto simp: stands_def moves_def)
    have nb: "\<not> of_int (MaxRecordBytes (opts l)) < (of_nat (length (ps ! k)) :: u32)"
      using limit_not_above [OF m(1) pk] m(2,3) by (metis of_int_of_nat_eq int_nat_eq)
    have mv: "moves r r2" using moves_trans m1(1) b by blast
    have rw: "reads w w2" using reads_trans [OF m1(2)] b by blast
    show ?thesis
    proof (cases y)
      case (Inl e)
      then show ?thesis
        using call rd Inr dec len rd2 nb lim1 b st2 mv rw os_error_reads [OF m1(2)]
        by (auto simp: readRecord_def Let_def moves_def recordSize_def)
    next
      case (Inr rec)
      then have "rec = frame (ps ! k)" using b header_at(2) [OF fh1 kl] f1 by auto
      then have pay: "drop headerSize rec = ps ! k" by (simp add: framing)
      have "stands w2 (r2\<lparr>roff := roff r1 + recordSize (length (ps ! k)), rnextLSN := rnextLSN r2 + 1,
          rposLSN := rnextLSN r2 + 1\<rparr>) s ps (Suc k)"
        using st2 kl f1 frames_step [OF kl] by (auto simp: stands_def)
      then show ?thesis
        using call rd \<open>x = Inr hdr\<close> dec len rd2 nb lim1 Inr pay mv rw
        by (auto simp: readRecord_def Let_def moves_def recordSize_def)
    qed
  qed
qed

end
