(* ===== verification/ReaderProperties.thy ===== *)
theory ReaderProperties
  imports Reader LogProperties
begin

text \<open>
  A reader returns the records of the log, in order and without leaving one out.
\<close>

subsection \<open>How a reader lags behind the log\<close>

text \<open>
  Each view is one of a segment the log still has, or lies entirely below the cursor. If the cursor's
  file is one of the log's segments, the cursor stands in it where it says; if not, it is one that was
  in front of the first.
\<close>

definition views_ok :: "log \<Rightarrow> bytes list list \<Rightarrow> segView list \<Rightarrow> u64 \<Rightarrow> bool" where
  "views_ok l pss vs n \<longleftrightarrow> (\<forall>v \<in> set vs. (\<exists>j < length (segs l). view_of v (segs l ! j) (pss ! j))
         \<or> unat (vbase v) + unat (vcount v) \<le> unat n)"

definition rd_ok :: "log \<Rightarrow> fs \<Rightarrow> bytes list list \<Rightarrow> reader \<Rightarrow> bool" where
  "rd_ok l w pss r \<longleftrightarrow> views_ok l pss (rviews r) (rnextLSN r) \<and> (rfile r \<noteq> None \<longrightarrow> rposLSN r = rnextLSN r)
   \<and> (\<forall>j < length (segs l). rfile r \<noteq> None \<longrightarrow> rpath r = segPath (segs l ! j)
         \<longrightarrow> (\<exists>k. stands w r (segs l ! j) (pss ! j) k))
   \<and> (rfile r \<noteq> None \<longrightarrow> rpath r \<in> segPath ` set (segs l)
         \<or> (\<exists>b p. rpath r = segmentName b p \<and> unat b < unat (baseLSN (hd (segs l)))))"

lemma seg_nth:
  assumes "segs_hold l w pss" and "j < length (segs l)"
  shows "seg_holds (maxRecord l) w (segs l ! j) (pss ! j)"
  using assms by (simp add: segs_hold_def list_all2_conv_all_nth)

lemma view_of_snapshot:
  assumes "segs_hold l w pss" and "j < length (segs l)"
  shows "view_of (fst (snapshot l) ! j) (segs l ! j) (pss ! j)"
  using seg_nth [OF assms] seg_holds_count [OF seg_nth [OF assms]] assms(2)
  by (auto simp: snapshot_def view_of_def segView_of_def seg_holds_def)

lemma views_ok_snapshot: "segs_hold l w pss \<Longrightarrow> views_ok l pss (fst (snapshot l)) n"
  unfolding views_ok_def
proof
  fix v assume h: "segs_hold l w pss" and v: "v \<in> set (fst (snapshot l))"
  obtain j where "j < length (segs l)" "v = fst (snapshot l) ! j"
    using v by (auto simp: in_set_conv_nth snapshot_def)
  then show "(\<exists>j < length (segs l). view_of v (segs l ! j) (pss ! j)) \<or> unat (vbase v) + unat (vcount v) \<le> unat n"
    using view_of_snapshot [OF h] by blast
qed

lemma views_ok_mono: "views_ok l pss vs n \<Longrightarrow> unat n \<le> unat n' \<Longrightarrow> views_ok l pss vs n'"
  unfolding views_ok_def by (meson order_trans)

lemma stands_refresh [simp]: "stands w (refresh l r) s ps k = stands w r s ps k"
  by (simp add: stands_def refresh_def)

lemma refresh_simps [simp]:
  "rviews (refresh l r) = fst (snapshot l)" "rdurable (refresh l r) = durable l" "rnextLSN (refresh l r) = rnextLSN r"
  "rfile (refresh l r) = rfile r" "rpath (refresh l r) = rpath r" "rposLSN (refresh l r) = rposLSN r"
  by (simp_all add: refresh_def snapshot_def)

lemma rd_ok_refresh:
  assumes "segs_hold l w pss" and "rd_ok l w pss r"
  shows "rd_ok l w pss (refresh l r)"
  using assms(2) views_ok_snapshot [OF assms(1)] by (simp add: rd_ok_def)

lemma paths_distinct:
  assumes "segs_hold l w pss" and "i < length (segs l)" and "j < length (segs l)" and "segPath (segs l ! i) = segPath (segs l ! j)"
  shows "i = j"
proof -
  have "distinct (map segPath (segs l))"
    using chained_paths [of "segs l" "maxRecord l" w pss] assms(1) by (simp add: segs_hold_def)
  then show ?thesis using assms(2-4) nth_eq_iff_index_eq [of "map segPath (segs l)" i j] by simp
qed

text \<open>A reader that stands in a segment.\<close>

lemma rd_ok_stands:
  assumes h: "segs_hold l w pss" and j: "j < length (segs l)" and st: "stands w r (segs l ! j) (pss ! j) k"
    and vs: "views_ok l pss (rviews r) (rnextLSN r)"
  shows "rd_ok l w pss r"
proof -
  have "rpath r \<in> segPath ` set (segs l)" using st j by (simp add: stands_def)
  moreover have "\<forall>i < length (segs l). rfile r \<noteq> None \<longrightarrow> rpath r = segPath (segs l ! i) \<longrightarrow> (\<exists>k. stands w r (segs l ! i) (pss ! i) k)"
    using st paths_distinct [OF h j] unfolding stands_def by metis
  ultimately show ?thesis using vs st unfolding rd_ok_def stands_def by blast
qed

lemma rd_ok_closed: "views_ok l pss (rviews r) (rnextLSN r) \<Longrightarrow> rfile r = None \<Longrightarrow> rd_ok l w pss r"
  by (simp add: rd_ok_def)

lemma rd_ok_views: "rd_ok l w pss r \<Longrightarrow> views_ok l pss (rviews r) (rnextLSN r)"
  by (simp add: rd_ok_def)

lemma rd_ok_reads: "reads w w' \<Longrightarrow> rd_ok l w pss r \<Longrightarrow> rd_ok l w' pss r"
  using stands_reads unfolding rd_ok_def by blast

lemma segs_hold_reads: "reads w w' \<Longrightarrow> segs_hold l w pss \<Longrightarrow> segs_hold l w' pss"
proof -
  assume "reads w w'"
  then have "seg_holds m w = seg_holds m w'" "seg_exact w = seg_exact w'" for m
    using seg_holds_reads by (auto simp: fun_eq_iff seg_exact_def reads_same)
  then show "segs_hold l w pss \<Longrightarrow> segs_hold l w' pss" by (simp add: segs_hold_def)
qed

subsection \<open>The order of the segments\<close>

lemma chained_nth:
  "chained ss \<Longrightarrow> Suc i < length ss \<Longrightarrow> prevEnd (ss ! Suc i) = lastLSN (ss ! i)"
proof (induction ss arbitrary: i rule: chained.induct)
  case (1 s t ss)
  then show ?case by (cases i) auto
qed auto

lemma ends_before:
  assumes h: "segs_hold l w pss" and ij: "i < j" "j < length (segs l)"
  shows "seg_end (segs l ! i) \<le> unat (prevEnd (segs l ! j)) + 1"
    and "seg_end (segs l ! i) \<le> unat (baseLSN (segs l ! j))"
proof -
  have ch: "chained (segs l)" using h by (simp add: segs_hold_def)
  note srt = chained_sorted [OF ch]
  show "seg_end (segs l ! i) \<le> unat (baseLSN (segs l ! j))" using srt ij by (simp add: sorted_wrt_iff_nth_less)
  obtain j' where j': "j = Suc j'" using ij(1) by (cases j) auto
  have le: "seg_end (segs l ! i) \<le> seg_end (segs l ! j')"
  proof (cases "i = j'")
    case False
    then have "seg_end (segs l ! i) \<le> unat (baseLSN (segs l ! j'))"
      using srt ij j' by (simp add: sorted_wrt_iff_nth_less)
    then show ?thesis by (simp add: seg_end_def)
  qed simp
  have "seg_holds (maxRecord l) w (segs l ! j') (pss ! j')" using seg_nth [OF h] ij j' by simp
  then have "unat (lastLSN (segs l ! j')) = seg_end (segs l ! j') - 1" by (rule seg_holds_lastLSN)
  then show "seg_end (segs l ! i) \<le> unat (prevEnd (segs l ! j)) + 1"
    using le chained_nth [OF ch, of j'] ij j' by simp
qed

text \<open>The record with number \<open>n\<close>, in the log.\<close>

lemma in_contents:
  assumes h: "segs_hold l w pss"
  shows "(n, p) \<in> set (contents (segs l) pss) \<longleftrightarrow>
    (\<exists>j < length (segs l). \<exists>k < length (pss ! j). n = unat (baseLSN (segs l ! j)) + k \<and> p = pss ! j ! k)"
proof -
  have "length pss = length (segs l)" using h by (auto simp: segs_hold_def list_all2_lengthD)
  then have "(n, p) \<in> set (contents (segs l) pss) \<longleftrightarrow>
      (\<exists>j < length (segs l). (n, p) \<in> set (numbered (unat (baseLSN (segs l ! j))) (pss ! j)))"
    by (auto simp: contents_def set_zip seg_entries_def)
  moreover have "(n, p) \<in> set (numbered b ps) \<longleftrightarrow> (\<exists>k < length ps. n = b + k \<and> p = ps ! k)" for b ps
    unfolding in_numbered by (metis add_diff_cancel_left' le_add1 le_add_diff_inverse nat_add_left_cancel_less)
  ultimately show ?thesis by simp
qed

subsection \<open>Positioning\<close>

lemma find_hit:
  assumes "find k vs = Some i"
  shows "i < length vs \<and> vbase (vs ! i) \<le> k \<and> k < vbase (vs ! i) + vcount (vs ! i)"
  using assms by (auto simp: find_def find_Some_iff)

text \<open>A view that covers the cursor is one of a segment, and says which record the cursor names.\<close>

lemma covering_view:
  assumes h: "segs_hold l w pss" and ok: "rd_ok l w pss r" and f: "find (rnextLSN r) (rviews r) = Some i"
  shows "\<exists>j k. j < length (segs l) \<and> view_of (rviews r ! i) (segs l ! j) (pss ! j) \<and> k < unat (vcount (rviews r ! i))
     \<and> rnextLSN r = baseLSN (segs l ! j) + of_nat k"
proof -
  let ?v = "rviews r ! i"
  have i: "i < length (rviews r)" "vbase ?v \<le> rnextLSN r" "rnextLSN r < vbase ?v + vcount ?v"
    using find_hit [OF f] by auto
  have "(\<exists>j < length (segs l). view_of ?v (segs l ! j) (pss ! j)) \<or> unat (vbase ?v) + unat (vcount ?v) \<le> unat (rnextLSN r)"
    using rd_ok_views [OF ok] i(1) nth_mem unfolding views_ok_def by blast
  moreover have "\<not> unat (vbase ?v) + unat (vcount ?v) \<le> unat (rnextLSN r)"
  proof
    assume a: "unat (vbase ?v) + unat (vcount ?v) \<le> unat (rnextLSN r)"
    then have "unat (vbase ?v + vcount ?v) = unat (vbase ?v) + unat (vcount ?v)"
      using unat_plus_no_wrap [of "vbase ?v" "vcount ?v"] le_less_trans [OF a unat_u64_bound] by simp
    then show False using a i(3) by (simp add: word_less_nat_alt)
  qed
  ultimately obtain j where j: "j < length (segs l)" "view_of ?v (segs l ! j) (pss ! j)" by blast
  have b: "unat (baseLSN (segs l ! j)) + length (pss ! j) < 2 ^ 64" using seg_nth [OF h j(1)] by (simp add: seg_holds_def)
  have vb: "vbase ?v = baseLSN (segs l ! j)" "unat (vcount ?v) \<le> length (pss ! j)" using j(2) by (auto simp: view_of_def)
  then have s: "unat (vbase ?v + vcount ?v) = unat (vbase ?v) + unat (vcount ?v)"
    using unat_plus_no_wrap [of "vbase ?v" "vcount ?v"] b by simp
  define k where "k = unat (rnextLSN r) - unat (vbase ?v)"
  have "k < unat (vcount ?v)" "unat (rnextLSN r) = unat (vbase ?v) + k"
    using i s by (auto simp: k_def word_less_nat_alt word_le_nat_alt)
  moreover from this have "rnextLSN r = vbase ?v + of_nat k"
    using b vb unat_plus_no_wrap [of "vbase ?v" "of_nat k"] unat_of_nat_u64 [of k] by (simp add: word_eq_unat)
  ultimately show ?thesis using j vb by metis
qed

text \<open>What positioning achieves.\<close>

definition placed :: "log \<Rightarrow> fs \<Rightarrow> bytes list list \<Rightarrow> reader \<Rightarrow> bool" where
  "placed l w pss r \<longleftrightarrow> (\<exists>j k. j < length (segs l) \<and> k < unat (vcount (rviews r ! ridx r))
     \<and> view_of (rviews r ! ridx r) (segs l ! j) (pss ! j) \<and> stands w r (segs l ! j) (pss ! j) k) \<and> rd_ok l w pss r"

lemma openAt_placed:
  assumes h: "segs_hold l w pss" and m: "limit_ok (maxRecord l)" and vs: "views_ok l pss (rviews r) (rnextLSN r)"
    and open1: "rfile r \<noteq> None \<Longrightarrow> rpath r = segPath (segs l ! j) \<Longrightarrow> rposLSN r = rnextLSN r
        \<Longrightarrow> \<exists>k'. stands w r (segs l ! j) (pss ! j) k'"
    and v: "j < length (segs l)" "view_of (rviews r ! i) (segs l ! j) (pss ! j)" "k < unat (vcount (rviews r ! i))"
      "rnextLSN r = baseLSN (segs l ! j) + of_nat k"
    and call: "openAt i r w = (res, r', w')"
  shows "reads w w' \<and> keeps r r' \<and> rd_ok l w' pss r'
     \<and> (res = Inr () \<and> placed l w' pss r' \<or> (\<exists>e. res = Inl e \<and> os_error w e))"
proof -
  note a = openAt_ok [OF seg_nth [OF h v(1)] m v(2,4) less_imp_le [OF v(3)] open1 call]
  have e: "rviews r' = rviews r" "rnextLSN r' = rnextLSN r" using a unfolding keeps_def by blast+
  have vs': "views_ok l pss (rviews r') (rnextLSN r')" unfolding e by (rule vs)
  consider (err) x where "res = Inl x" "os_error w x" "rfile r' = None"
    | (ok) "res = Inr ()" "ridx r' = i" "stands w' r' (segs l ! j) (pss ! j) k"
    using a by blast
  then show ?thesis
  proof cases
    case err
    then show ?thesis using a rd_ok_closed [OF vs'] by blast
  next
    case ok
    have "segs_hold l w' pss" using segs_hold_reads a h by blast
    then have "rd_ok l w' pss r'" using rd_ok_stands [OF _ v(1) ok(3) vs'] by blast
    moreover from this have "placed l w' pss r'" using ok v(1-3) e(1) unfolding placed_def by metis
    ultimately show ?thesis using a ok(1) by blast
  qed
qed

lemma position_found:
  assumes h: "segs_hold l w pss" and m: "limit_ok (maxRecord l)" and ok: "rd_ok l w pss r"
    and f: "find (rnextLSN r) (rviews r) = Some i" and call: "openAt i r w = (res, r', w')"
  shows "reads w w' \<and> keeps r r' \<and> rd_ok l w' pss r'
     \<and> (res = Inr () \<and> placed l w' pss r' \<or> (\<exists>e. res = Inl e \<and> os_error w e))"
proof -
  obtain j k where v: "j < length (segs l)" "view_of (rviews r ! i) (segs l ! j) (pss ! j)"
      "k < unat (vcount (rviews r ! i))" "rnextLSN r = baseLSN (segs l ! j) + of_nat k"
    using covering_view [OF h ok f] by blast
  show ?thesis
    by (rule openAt_placed [OF h m rd_ok_views [OF ok] _ v call]) (use ok v(1) in \<open>simp add: rd_ok_def\<close>)
qed

text \<open>No record of the log has a number from \<open>a\<close> up to, but not including, \<open>b\<close>.\<close>

definition vacant :: "log \<Rightarrow> bytes list list \<Rightarrow> nat \<Rightarrow> nat \<Rightarrow> bool" where
  "vacant l pss a b \<longleftrightarrow> (\<forall>e \<in> set (contents (segs l) pss). fst e < a \<or> b \<le> fst e)"

lemma gap_vacant:
  assumes h: "segs_hold l w pss" and j: "j < length (segs l)" and g: "unat (prevEnd (segs l ! j)) < n"
  shows "vacant l pss n (unat (baseLSN (segs l ! j)))"
  unfolding vacant_def
proof
  fix e assume "e \<in> set (contents (segs l) pss)"
  then obtain i k where i: "i < length (segs l)" "k < length (pss ! i)" "fst e = unat (baseLSN (segs l ! i)) + k"
    using in_contents [OF h, of "fst e" "snd e"] by auto
  have "fst e < seg_end (segs l ! i)" using i seg_holds_end [OF seg_nth [OF h i(1)]] by simp
  moreover have "unat (baseLSN (segs l ! j)) \<le> fst e" if "j \<le> i"
  proof (cases "i = j")
    case False
    then have "seg_end (segs l ! j) \<le> unat (baseLSN (segs l ! i))" using ends_before(2) [OF h, of j i] that i by simp
    then show ?thesis using i by (simp add: seg_end_def)
  qed (simp add: i)
  ultimately show "fst e < n \<or> unat (baseLSN (segs l ! j)) \<le> fst e"
    using ends_before(1) [OF h, of i j] j g by (cases "i < j") auto
qed

lemma vacant_empty [simp]: "vacant l pss n n"
  unfolding vacant_def by (meson not_less)

text \<open>
  The outcome of positioning: the cursor stands at a record at or above where it was, with nothing
  in between; or there was an I/O error; or there is no segment to read from, below or above.
\<close>

lemma position_ok:
  assumes h: "segs_hold l w pss" and m: "limit_ok (maxRecord l)" and ok: "rd_ok l w pss r"
    and call: "position l r w = (res, r', w')"
  shows "reads w w' \<and> rd_ok l w' pss r' \<and> unat (rnextLSN r) \<le> unat (rnextLSN r')
     \<and> rdurable r' \<in> {rdurable r, durable l} \<and> vacant l pss (unat (rnextLSN r)) (unat (rnextLSN r'))
     \<and> (rnextLSN r' = rnextLSN r \<or> rnextLSN r' \<in> baseLSN ` set (segs l))
     \<and> (res = Inr () \<and> placed l w' pss r'
        \<or> (\<exists>e. res = Inl e \<and> os_error w e)
        \<or> res = Inl (if rnextLSN r < baseLSN (hd (segs l)) then ErrTruncated else ErrNoData)
            \<and> find (rnextLSN r) (fst (snapshot l)) = None \<and> stepOver (rnextLSN r) (fst (snapshot l)) = None)"
proof (cases "find (rnextLSN r) (rviews r)")
  case (Some i)
  then have "openAt i r w = (res, r', w')" using call by (simp add: position_def)
  from position_found [OF h m ok Some this] show ?thesis by (auto simp: keeps_def)
next
  case None
  let ?r = "refresh l r"
  have ok1: "rd_ok l w pss ?r" and n1: "rnextLSN ?r = rnextLSN r" and v1: "rviews ?r = fst (snapshot l)"
    using rd_ok_refresh [OF h ok] by (simp_all add: refresh_def)
  show ?thesis
  proof (cases "find (rnextLSN ?r) (rviews ?r)")
    case (Some i)
    then have "openAt i ?r w = (res, r', w')" using call None by (simp add: position_def Let_def)
    from position_found [OF h m ok1 Some this] n1 show ?thesis by (auto simp: keeps_def)
  next
    case n: None
    show ?thesis
    proof (cases "stepOver (rnextLSN ?r) (rviews ?r)")
      case (Some i)
      let ?q = "?r\<lparr>rnextLSN := vbase (rviews ?r ! i)\<rparr>"
      have i: "i < length (segs l)" "gapBefore (rviews ?r ! i) (rnextLSN r)" "0 < vcount (rviews ?r ! i)"
        using Some v1 n1 by (auto simp: stepOver_def find_Some_iff snapshot_def)
      have vi: "view_of (rviews ?r ! i) (segs l ! i) (pss ! i)" using view_of_snapshot [OF h i(1)] v1 by simp
      then have b: "vbase (rviews ?r ! i) = baseLSN (segs l ! i)" "vprevEnd (rviews ?r ! i) = prevEnd (segs l ! i)"
        by (auto simp: view_of_def)
      have gap: "unat (prevEnd (segs l ! i)) < unat (rnextLSN r)" "unat (rnextLSN r) < unat (baseLSN (segs l ! i))"
        using i(2) b by (auto simp: gapBefore_def word_less_nat_alt)
      have oq: "openAt i ?q w = (res, r', w')" using call None n Some by (simp add: position_def Let_def)
      have vq: "views_ok l pss (rviews ?q) (rnextLSN ?q)" using views_ok_snapshot [OF h] by simp
      have nq: "rfile ?q \<noteq> None \<Longrightarrow> rposLSN ?q \<noteq> rnextLSN ?q" using ok gap b by (auto simp: rd_ok_def)
      have iq: "view_of (rviews ?q ! i) (segs l ! i) (pss ! i)" "0 < unat (vcount (rviews ?q ! i))"
          "rnextLSN ?q = baseLSN (segs l ! i) + of_nat 0"
        using vi i(3) b by (auto simp: word_less_nat_alt)
      have p: "reads w w'" "keeps ?q r'" "rd_ok l w' pss r'"
          "res = Inr () \<and> placed l w' pss r' \<or> (\<exists>e. res = Inl e \<and> os_error w e)"
        using openAt_placed [OF h m vq _ i(1) iq oq] nq by blast+
      have "unat (rnextLSN r') = unat (baseLSN (segs l ! i))" "rdurable r' = durable l" "rnextLSN r' \<in> baseLSN ` set (segs l)"
        using p(2) b i(1) by (simp_all add: keeps_def)
      then show ?thesis using p gap gap_vacant [OF h i(1) gap(1)] by auto
    next
      case s: None
      have "rviews ?r \<noteq> []" "vbase (hd (rviews ?r)) = baseLSN (hd (segs l))"
        using h v1 by (auto simp: snapshot_def segs_hold_def segView_of_def hd_map)
      then show ?thesis
        using call None n s n1 v1 ok1 by (auto simp: position_def Let_def)
    qed
  qed
qed


subsection \<open>Reading\<close>

lemma placed_fits:
  assumes "placed l w pss r"
  shows "roff r + headerSize \<le> vsize (rviews r ! ridx r)"
proof -
  let ?v = "rviews r ! ridx r"
  obtain j k where v: "j < length (segs l)" "k < unat (vcount ?v)" "view_of ?v (segs l ! j) (pss ! j)"
      "stands w r (segs l ! j) (pss ! j) k"
    using assms by (auto simp: placed_def)
  then have "k < length (pss ! j)" by (simp add: view_of_def)
  then show ?thesis
    using frames_step [of k "pss ! j"] frames_take_mono [of "Suc k" "unat (vcount ?v)" "pss ! j"] v
    by (simp add: stands_def view_of_def recordSize_def)
qed

lemma placed_reads:
  assumes h: "segs_hold l w pss" and m: "limit_ok (maxRecord l)" "0 \<le> MaxRecordBytes (opts l)"
    and p: "placed l w pss r" and call: "readRecord l r w = (res, r', w')"
  shows "reads w w' \<and> rd_ok l w' pss r' \<and> rdurable r' = rdurable r
     \<and> ((\<exists>p. res = Inr (rnextLSN r, p) \<and> (unat (rnextLSN r), p) \<in> set (contents (segs l) pss)
            \<and> unat (rnextLSN r') = unat (rnextLSN r) + 1)
        \<or> (\<exists>e. res = Inl e \<and> os_error w e \<and> rnextLSN r' = rnextLSN r))"
proof -
  obtain j k where v: "j < length (segs l)" "k < unat (vcount (rviews r ! ridx r))"
      "view_of (rviews r ! ridx r) (segs l ! j) (pss ! j)" "stands w r (segs l ! j) (pss ! j) k" and ok: "rd_ok l w pss r"
    using p by (auto simp: placed_def)
  let ?s = "segs l ! j" and ?ps = "pss ! j"
  note sh = seg_nth [OF h v(1)]
  have kl: "k < length ?ps" using v(2,3) by (simp add: view_of_def)
  have b: "unat (baseLSN ?s) + length ?ps < 2 ^ 64" using sh by (simp add: seg_holds_def)
  have at: "unat (baseLSN ?s + of_nat i) = unat (baseLSN ?s) + i" if "i \<le> length ?ps" for i
    using that b unat_plus_no_wrap [of "baseLSN ?s" "of_nat i"] unat_of_nat_u64 [of i] by simp
  have a: "reads w w'" "rviews r' = rviews r" "rdurable r' = rdurable r"
      "res = Inr (rnextLSN r, ?ps ! k) \<and> stands w' r' ?s ?ps (Suc k) \<or> (\<exists>e. res = Inl e \<and> os_error w e \<and> stands w' r' ?s ?ps k)"
    using readRecord_ok [OF sh m(1) _ m(2) v(3,4,2) call] by blast+
  then obtain k' where k': "stands w' r' ?s ?ps k'" "k \<le> k'" by fastforce
  have n: "rnextLSN r = baseLSN ?s + of_nat k" "rnextLSN r' = baseLSN ?s + of_nat k'" "k' \<le> length ?ps"
    using v(4) k' by (auto simp: stands_def)
  have le: "unat (rnextLSN r) \<le> unat (rnextLSN r')" using n at k'(2) kl by simp
  have "segs_hold l w' pss" using segs_hold_reads [OF a(1) h] .
  moreover have "views_ok l pss (rviews r') (rnextLSN r')"
    unfolding a(2) using views_ok_mono [OF rd_ok_views [OF ok] le] .
  ultimately have ok': "rd_ok l w' pss r'" using rd_ok_stands v(1) k'(1) by blast
  show ?thesis
  proof (cases res)
    case (Inl e)
    then have "os_error w e" "rnextLSN r' = rnextLSN r" using a(4) n(1) by (auto simp: stands_def)
    then show ?thesis using a(1,3) ok' Inl by blast
  next
    case (Inr x)
    then have x: "res = Inr (rnextLSN r, ?ps ! k)" "rnextLSN r' = baseLSN ?s + of_nat (Suc k)"
      using a(4) by (auto simp: stands_def)
    have "(unat (rnextLSN r), ?ps ! k) \<in> set (contents (segs l) pss)"
      using in_contents [OF h] v(1) kl n(1) at [of k] by auto
    moreover have "unat (rnextLSN r') = unat (rnextLSN r) + 1" using x(2) n(1) at [of k] at [of "Suc k"] kl by simp
    ultimately show ?thesis using a(1,3) ok' x(1) by blast
  qed
qed

text \<open>
  A call: the record at the first number at or above the cursor that has one; or an I/O error; or
  nothing, because the cursor is past the durable records, or because it finds no segment.
\<close>

lemma readerNext_ok:
  assumes h: "segs_hold l w pss" and m: "limit_ok (maxRecord l)" "0 \<le> MaxRecordBytes (opts l)"
    and ok: "rd_ok l w pss r" and call: "readerNext l r w = (res, r', w')"
  shows "reads w w' \<and> rd_ok l w' pss r' \<and> rdurable r' \<in> {rdurable r, durable l}
     \<and> unat (rnextLSN r) \<le> unat (rnextLSN r')
     \<and> (\<forall>e. res = Inl e \<longrightarrow> vacant l pss (unat (rnextLSN r)) (unat (rnextLSN r'))
          \<and> (rnextLSN r' = rnextLSN r \<or> rnextLSN r' \<in> baseLSN ` set (segs l)))
     \<and> ((\<exists>n p. res = Inr (n, p) \<and> (unat n, p) \<in> set (contents (segs l) pss) \<and> unat (rnextLSN r) \<le> unat n
            \<and> vacant l pss (unat (rnextLSN r)) (unat n) \<and> unat (rnextLSN r') = unat n + 1
            \<and> (rnextLSN r \<le> rdurable r \<or> rnextLSN r \<le> durable l))
        \<or> (\<exists>e. res = Inl e \<and> os_error w e)
        \<or> res = Inl ErrNoData \<and> durable l < rnextLSN r
        \<or> res = Inl (if rnextLSN r < baseLSN (hd (segs l)) then ErrTruncated else ErrNoData)
            \<and> find (rnextLSN r) (fst (snapshot l)) = None \<and> stepOver (rnextLSN r) (fst (snapshot l)) = None)"
proof -
  define r0 where "r0 = (if rnextLSN r > rdurable r then refresh l r else r)"
  have r0: "rd_ok l w pss r0" "rnextLSN r0 = rnextLSN r" "rdurable r0 \<in> {rdurable r, durable l}"
    using ok rd_ok_refresh [OF h ok] by (auto simp: r0_def)
  show ?thesis
  proof (cases "rnextLSN r0 > rdurable r0")
    case True
    then have "durable l < rnextLSN r" by (auto simp: r0_def split: if_splits)
    then show ?thesis using True call r0 by (auto simp: readerNext_def r0_def [symmetric] Let_def)
  next
    case False
    then have d: "rnextLSN r \<le> rdurable r \<or> rnextLSN r \<le> durable l" using r0 by auto
    obtain x r1 w1 where p: "position l r0 w = (x, r1, w1)" by (metis prod_cases3)
    note pos = position_ok [OF h m(1) r0(1) p, unfolded r0(2)]
    show ?thesis
    proof (cases x)
      case (Inl e)
      then have "res = Inl e" "r' = r1" "w' = w1"
        using call False p by (simp_all add: readerNext_def r0_def [symmetric])
      then show ?thesis using pos Inl r0(3) by (elim conjE disjE) auto
    next
      case (Inr u)
      then have pl: "placed l w1 pss r1" using pos by auto
      have "\<not> roff r1 + headerSize > vsize (rviews r1 ! ridx r1)" using placed_fits [OF pl] by simp
      then have rr: "readRecord l r1 w1 = (res, r', w')"
        using call False p Inr by (simp add: readerNext_def r0_def [symmetric])
      have h1: "segs_hold l w1 pss" using segs_hold_reads pos h by blast
      note rec = placed_reads [OF h1 m pl rr]
      have rw: "reads w w'" using pos rec reads_trans by blast
      have dd: "rdurable r' \<in> {rdurable r, durable l}" using rec pos r0(3) by auto
      show ?thesis
      proof (cases res)
        case (Inl e)
        then have "os_error w e" "rnextLSN r' = rnextLSN r1" using rec os_error_reads [of w w1] pos by auto
        then show ?thesis using rec pos rw dd Inl by auto
      next
        case (Inr y)
        then obtain q where "res = Inr (rnextLSN r1, q)" "(unat (rnextLSN r1), q) \<in> set (contents (segs l) pss)"
            "unat (rnextLSN r') = unat (rnextLSN r1) + 1"
          using rec by auto
        then show ?thesis using rec pos rw dd d by auto
      qed
    qed
  qed
qed

text \<open>
  A segment that holds no record does not hide what lies behind it as long as it has no gap in front
  of it, or is the last one.
\<close>

definition no_hollow :: "log \<Rightarrow> bool" where
  "no_hollow l \<longleftrightarrow> (\<forall>s \<in> set (butlast (segs l)). 0 < segCount s \<or> unat (prevEnd s) + 1 = unat (baseLSN s))"

lemma nothing_above:
  assumes h: "segs_hold l w pss" and nh: "no_hollow l" and first: "baseLSN (hd (segs l)) \<le> n"
    and nf: "find n (fst (snapshot l)) = None" and ns: "stepOver n (fst (snapshot l)) = None"
    and e: "e \<in> set (contents (segs l) pss)"
  shows "fst e < unat n"
proof (rule ccontr)
  assume ne: "\<not> fst e < unat n"
  let ?has = "\<lambda>j. j < length (segs l) \<and> 0 < length (pss ! j) \<and> unat n < seg_end (segs l ! j)"
  have send: "seg_end (segs l ! j) = unat (baseLSN (segs l ! j)) + length (pss ! j)" if "j < length (segs l)" for j
    using seg_holds_end [OF seg_nth [OF h that]] .
  have "\<exists>j. ?has j"
    using e ne in_contents [OF h, of "fst e" "snd e"] send by fastforce
  define j where "j = (LEAST j. ?has j)"
  have hj: "?has j" and least: "\<And>i. i < j \<Longrightarrow> \<not> ?has i"
    using LeastI_ex [OF \<open>\<exists>j. ?has j\<close>] not_less_Least [of _ ?has] by (auto simp: j_def)
  have view: "fst (snapshot l) ! i = segView_of (segs l ! i)" "length (fst (snapshot l)) = length (segs l)"
    if "i < length (segs l)" for i using that by (simp_all add: snapshot_def)
  have below: "unat n < unat (baseLSN (segs l ! j))"
  proof (rule ccontr)
    assume "\<not> ?thesis"
    moreover have "unat (baseLSN (segs l ! j) + segCount (segs l ! j)) = seg_end (segs l ! j)"
      using unat_plus_no_wrap [of "baseLSN (segs l ! j)" "segCount (segs l ! j)"] seg_nth [OF h] hj
        seg_holds_count [OF seg_nth [OF h]] by (simp add: seg_end_def seg_holds_def)
    ultimately have "vbase (fst (snapshot l) ! j) \<le> n \<and> n < vbase (fst (snapshot l) ! j) + vcount (fst (snapshot l) ! j)"
      using hj view by (simp add: segView_of_def word_le_nat_alt word_less_nat_alt)
    then show False using nf hj view by (auto simp: find_def find_None_iff)
  qed
  have down: "unat n < unat (baseLSN (segs l ! i)) \<and> unat n \<le> unat (prevEnd (segs l ! i))" if "i \<le> j" for i
    using that
  proof (induction rule: inc_induct)
    case base
    have "0 < vcount (fst (snapshot l) ! j)"
      using hj view seg_holds_count [OF seg_nth [OF h]] by (simp add: segView_of_def word_less_nat_alt)
    then have "\<not> gapBefore (fst (snapshot l) ! j) n" using ns hj view by (auto simp: stepOver_def find_None_iff)
    then show ?case using below hj view by (auto simp: gapBefore_def segView_of_def word_less_nat_alt)
  next
    case (step i)
    have il: "i < length (segs l)" "i \<noteq> length (segs l) - 1" using step hj by auto
    have "prevEnd (segs l ! Suc i) = lastLSN (segs l ! i)"
      using chained_nth [of "segs l" i] h step hj by (simp add: segs_hold_def)
    moreover have "unat (lastLSN (segs l ! i)) = seg_end (segs l ! i) - 1" using seg_holds_lastLSN [OF seg_nth [OF h il(1)]] .
    moreover have pos: "0 < unat (baseLSN (segs l ! i))" using seg_nth [OF h il(1)] by (simp add: seg_holds_def)
    ultimately have lt: "unat n < seg_end (segs l ! i)" using step.IH send [OF il(1)] by simp linarith
    then have empty: "length (pss ! i) = 0" using least [of i] step il by auto
    then have b: "unat n < unat (baseLSN (segs l ! i))" using lt send [OF il(1)] by simp
    have "segs l ! i \<in> set (butlast (segs l))"
      using il by (metis in_set_conv_nth length_butlast linorder_neqE_nat nth_butlast not_less_eq Suc_pred' length_pos_if_in_set nth_mem)
    moreover have "segCount (segs l ! i) = 0"
      using empty seg_holds_count [OF seg_nth [OF h il(1)]] by (simp add: unat_eq_zero)
    ultimately have "unat (prevEnd (segs l ! i)) + 1 = unat (baseLSN (segs l ! i))" using nh by (auto simp: no_hollow_def)
    then show ?case using b by simp
  qed
  have "segs l \<noteq> []" using h by (simp add: segs_hold_def)
  then have "unat n < unat (baseLSN (hd (segs l)))" using down [of 0] by (simp add: hd_conv_nth)
  then show False using first by (simp add: word_le_nat_alt)
qed


subsection \<open>A new reader\<close>

lemma newReader_ok:
  assumes h: "segs_hold l w pss" and n: "newReader k l = Inr r"
  shows "rd_ok l w pss r \<and> rdurable r = durable l \<and> rfile r = None \<and> baseLSN (hd (segs l)) \<le> rnextLSN r
     \<and> unat k \<le> unat (rnextLSN r) \<and> vacant l pss (unat k) (unat (rnextLSN r))"
proof -
  have ne: "segs l \<noteq> []" using h by (simp add: segs_hold_def)
  have sn: "fst (snapshot l) \<noteq> []" "hd (fst (snapshot l)) = segView_of (segs l ! 0)" "hd (segs l) = segs l ! 0"
    using ne by (simp_all add: snapshot_def hd_map hd_conv_nth)
  have fields: "rviews r = fst (snapshot l)" "rdurable r = durable l" "rfile r = None"
    using n by (auto simp: newReader_def Let_def refresh_def snapshot_def split: if_splits)
  have ok: "rd_ok l w pss r" using views_ok_snapshot [OF h] fields by (simp add: rd_ok_def)
  have base: "vacant l pss 0 (unat (baseLSN (segs l ! 0)))"
    unfolding vacant_def
  proof
    fix e assume "e \<in> set (contents (segs l) pss)"
    then obtain j m where "j < length (segs l)" "fst e = unat (baseLSN (segs l ! j)) + m"
      using in_contents [OF h, of "fst e" "snd e"] by auto
    moreover have "unat (baseLSN (segs l ! 0)) \<le> unat (baseLSN (segs l ! j))" if "j < length (segs l)" for j
      using ends_before(2) [OF h, of 0 j] that by (cases "j = 0") (auto simp: seg_end_def)
    ultimately show "fst e < 0 \<or> unat (baseLSN (segs l ! 0)) \<le> fst e" by (simp add: trans_le_add1)
  qed
  have "k = 0 \<and> rnextLSN r = baseLSN (segs l ! 0) \<or> rnextLSN r = k \<and> baseLSN (segs l ! 0) \<le> k
      \<or> unat (prevEnd (segs l ! 0)) < unat k \<and> k < baseLSN (segs l ! 0) \<and> rnextLSN r = baseLSN (segs l ! 0)"
    using n sn by (auto simp: newReader_def Let_def segView_of_def gapBefore_def word_less_nat_alt word_le_nat_alt split: if_splits)
  then show ?thesis
    using ok fields base gap_vacant [OF h, of 0 "unat k"] ne
    by (auto simp: sn(3) word_less_nat_alt word_le_nat_alt)
qed


subsection \<open>Reading to the end\<close>

lemma sorted_filter_hd:
  fixes xs :: "(nat \<times> 'b) list"
  assumes "sorted_wrt (<) (map fst xs)" and "filter (\<lambda>e. a \<le> fst e) xs = y # ys"
  shows "y \<in> set xs \<and> a \<le> fst y \<and> (\<forall>e \<in> set xs. a \<le> fst e \<longrightarrow> fst y \<le> fst e)
     \<and> filter (\<lambda>e. Suc (fst y) \<le> fst e) xs = ys"
  using assms
proof (induction xs)
  case (Cons x xs)
  show ?case
  proof (cases "a \<le> fst x")
    case True
    then have y: "y = x" "ys = filter (\<lambda>e. a \<le> fst e) xs" using Cons.prems by auto
    have "\<forall>e \<in> set xs. fst x < fst e" using Cons.prems(1) by simp
    then have "filter (\<lambda>e. a \<le> fst e) xs = xs" "filter (\<lambda>e. Suc (fst x) \<le> fst e) xs = xs"
      using True by (auto simp: filter_id_conv)
    then show ?thesis using y True \<open>\<forall>e \<in> set xs. fst x < fst e\<close> by auto
  next
    case False
    then have "filter (\<lambda>e. a \<le> fst e) xs = y # ys" using Cons.prems by simp
    with Cons show ?thesis using False by fastforce
  qed
qed simp

text \<open>Without I/O errors, a call returns the next record there is, and says so if there is none.\<close>

lemma readerNext_calm:
  assumes h: "segs_hold l w pss" and m: "limit_ok (maxRecord l)" "0 \<le> MaxRecordBytes (opts l)"
    and ok: "rd_ok l w pss r" and calm: "faults w = []" and nh: "no_hollow l"
    and first: "baseLSN (hd (segs l)) \<le> rnextLSN r"
    and dur: "\<forall>e \<in> set (contents (segs l) pss). fst e \<le> unat (durable l)"
    and call: "readerNext l r w = (res, r', w')"
  shows "w' = w \<and> rd_ok l w pss r' \<and> baseLSN (hd (segs l)) \<le> rnextLSN r'
     \<and> (case filter (\<lambda>e. unat (rnextLSN r) \<le> fst e) (contents (segs l) pss) of
          [] \<Rightarrow> res = Inl ErrNoData
        | e # es \<Rightarrow> (\<exists>n. res = Inr (n, snd e) \<and> unat n = fst e)
            \<and> filter (\<lambda>e. unat (rnextLSN r') \<le> fst e) (contents (segs l) pss) = es)"
proof -
  let ?cs = "contents (segs l) pss"
  note nx = readerNext_ok [OF h m ok call]
  have w: "w' = w" using nx calm by (auto simp: reads_def)
  have noerr: "\<not> os_error w e" for e using calm by (simp add: os_error_def)
  have base: "baseLSN (hd (segs l)) \<le> rnextLSN r'" using nx first by (meson order_trans word_le_nat_alt)
  have srt: "sorted_wrt (<) (map fst ?cs)" using contents_sorted [of "maxRecord l" w "segs l" pss] h by (simp add: segs_hold_def)
  have nolow: "\<not> rnextLSN r < baseLSN (hd (segs l))" using first by simp
  have miss: "e \<in> set ?cs \<Longrightarrow> fst e < unat (rnextLSN r)" if "res = Inl x" for x e
  proof -
    assume e: "e \<in> set ?cs"
    have "durable l < rnextLSN r \<or> find (rnextLSN r) (fst (snapshot l)) = None \<and> stepOver (rnextLSN r) (fst (snapshot l)) = None"
      using nx that noerr by blast
    then show ?thesis
      using nothing_above [OF h nh first _ _ e] dur e by (fastforce simp: word_less_nat_alt)
  qed
  show ?thesis
  proof (cases "filter (\<lambda>e. unat (rnextLSN r) \<le> fst e) ?cs")
    case Nil
    then have "\<forall>e \<in> set ?cs. fst e < unat (rnextLSN r)" by (simp add: filter_empty_conv not_le)
    then have "\<nexists>n p. res = Inr (n, p)" using nx by fastforce
    then have "res = Inl ErrNoData" using nx noerr nolow by auto
    then show ?thesis using w base nx Nil by simp
  next
    case (Cons e es)
    note f = sorted_filter_hd [OF srt Cons]
    have "\<nexists>x. res = Inl x" using miss f by fastforce
    then obtain n p where n: "res = Inr (n, p)" "(unat n, p) \<in> set ?cs" "unat (rnextLSN r) \<le> unat n"
        "vacant l pss (unat (rnextLSN r)) (unat n)" "unat (rnextLSN r') = unat n + 1"
      using nx by blast
    have "unat n = fst e" using n(2-4) f unfolding vacant_def by (metis fst_conv le_antisym not_le)
    moreover from this have "p = snd e"
      using n(2) f srt by (metis eq_key_imp_eq_value prod.collapse strict_sorted_iff)
    ultimately show ?thesis using w base nx Cons f n by auto
  qed
qed


subsection \<open>Properties\<close>

text \<open>C30. A reader never shows anything but the log. Whatever I/O errors there are, however old its view of the
  segments is and however far its window reaches, a call that returns a record returns one that the
  log holds, under that record's own number, at or after the cursor; it steps only over numbers that
  name no record; it leaves the cursor behind the record; and it returns only durable records.\<close>

theorem reader_shows_the_log:
  assumes "segs_hold l w pss" and "limit_ok (maxRecord l)" and "0 \<le> MaxRecordBytes (opts l)" and "rd_ok l w pss r"
    and "readerNext l r w = (Inr (n, p), r', w')" and "rdurable r \<le> durable l"
    and "unat (durable l) \<in> fst ` set (contents (segs l) pss)"
  shows "(unat n, p) \<in> set (contents (segs l) pss) \<and> rnextLSN r \<le> n \<and> n \<le> durable l
     \<and> (\<forall>e \<in> set (contents (segs l) pss). fst e < unat (rnextLSN r) \<or> unat n \<le> fst e)
     \<and> unat (rnextLSN r') = unat n + 1 \<and> rd_ok l w' pss r' \<and> rdurable r' \<le> durable l"
proof -
  note nx = readerNext_ok [OF assms(1-5)]
  have n: "(unat n, p) \<in> set (contents (segs l) pss)" "unat (rnextLSN r) \<le> unat n"
      "vacant l pss (unat (rnextLSN r)) (unat n)" "unat (rnextLSN r') = unat n + 1"
      "rnextLSN r \<le> rdurable r \<or> rnextLSN r \<le> durable l"
    using nx by (simp_all only: sum.inject prod.inject sum.distinct) blast+
  then have "rnextLSN r \<le> durable l" using assms(6) by auto
  then have "unat (rnextLSN r) \<le> unat (durable l)" by (simp add: word_le_nat_alt)
  moreover obtain e where "e \<in> set (contents (segs l) pss)" "fst e = unat (durable l)" using assms(7) by auto
  ultimately have "unat n \<le> unat (durable l)" using n(3) unfolding vacant_def by (metis leD)
  then have "n \<le> durable l" by (simp add: word_le_nat_alt)
  moreover have "rnextLSN r \<le> n" using n(2) by (simp add: word_le_nat_alt)
  moreover have "rd_ok l w' pss r'" "rdurable r' \<in> {rdurable r, durable l}" using nx by blast+
  moreover from this have "rdurable r' \<le> durable l" using assms(6) by auto
  ultimately show ?thesis using n(1,3,4) unfolding vacant_def by blast
qed

lemma settled_fields: "durable settled1 = 1" "opts settled1 = small_opts"
    "segs settled1 = [(newSegment 1 0 0)\<lparr>segSize := length (frames [[7]]), segCount := 1\<rparr>]"
  by (simp_all add: settled1_def resolve_def written1_def set_active_def taken1_def newRound_def)
    (simp_all add: fresh_log_def)

lemma settled_contents: "contents (segs settled1) [[[7]]] = [(1, [7])]"
  by (simp add: settled_fields contents_def seg_entries_def newSegment_def)

lemma settled_holds: "segs_hold settled1 written_fs [[[7]]]"
  by (simp add: settled_fields segs_hold_def seg_holds_def newSegment_def written_fs_def staged_fs_def small_opts_def)

definition reader1 :: reader where
  "reader1 = projr (newReader 0 settled1)"

lemma reader1: "newReader 0 settled1 = Inr reader1"
  by (simp add: reader1_def newReader_def Let_def)

lemma reader1_ok: "rd_ok settled1 written_fs [[[7]]] reader1 \<and> rdurable reader1 = 1 \<and> rnextLSN reader1 = 1"
  using newReader_ok [OF settled_holds reader1] settled_fields
  by (simp add: reader1_def newReader_def Let_def snapshot_def segView_of_def newSegment_def)

lemma settled_hollow: "no_hollow settled1"
  by (simp add: no_hollow_def settled_fields)

lemma reader1_next: "\<exists>r'. readerNext settled1 reader1 written_fs = (Inr (1, [7]), r', written_fs)"
proof -
  obtain res r' w' where c: "readerNext settled1 reader1 written_fs = (res, r', w')" by (metis prod_cases3)
  have "faults written_fs = []" by (simp add: written_fs_def staged_fs_def)
  from readerNext_calm [OF settled_holds _ _ _ this settled_hollow _ _ c] small_opts_ok reader1_ok
  have "w' = written_fs \<and> (\<exists>n. res = Inr (n, [7]) \<and> unat n = 1)"
    unfolding settled_contents by (simp add: settled_fields newSegment_def)
  then show ?thesis using c by (auto simp: word_eq_unat)
qed

theorem reader_shows_the_log_witness:
  "\<exists>r'. readerNext settled1 reader1 written_fs = (Inr (1, [7]), r', written_fs)
     \<and> (unat (1 :: u64), [7]) \<in> set (contents (segs settled1) [[[7]]]) \<and> unat (rnextLSN r') = 2"
proof -
  obtain r' where r': "readerNext settled1 reader1 written_fs = (Inr (1, [7]), r', written_fs)" using reader1_next by blast
  have "limit_ok (maxRecord settled1)" "0 \<le> MaxRecordBytes (opts settled1)" using small_opts_ok by (simp_all add: settled_fields)
  from reader_shows_the_log [OF settled_holds this _ r'] reader1_ok show ?thesis
    using r' unfolding settled_contents by (simp add: settled_fields)
qed

text \<open>C31. A reader finds everything. Without I/O errors, when no segment in the middle of the log is empty behind a
  gap, when the cursor is not below the first segment of the log, and when every record of the log is durable, a call
  returns the first record at or above the cursor, and reports that there is none only when there is none. (A segment that
  salvage emptied behind a gap stops the reader: \<open>reader_stuck_at_emptied_segment\<close>.)\<close>

theorem reader_finds_everything:
  assumes "segs_hold l w pss" and "limit_ok (maxRecord l)" and "0 \<le> MaxRecordBytes (opts l)" and "rd_ok l w pss r"
    and "faults w = []" and "no_hollow l" and "baseLSN (hd (segs l)) \<le> rnextLSN r"
    and "\<forall>e \<in> set (contents (segs l) pss). fst e \<le> unat (durable l)"
  shows "\<exists>res r'. readerNext l r w = (res, r', w) \<and>
     (case filter (\<lambda>e. unat (rnextLSN r) \<le> fst e) (contents (segs l) pss) of
          [] \<Rightarrow> res = Inl ErrNoData
        | e # es \<Rightarrow> (\<exists>n. res = Inr (n, snd e) \<and> unat n = fst e)
            \<and> filter (\<lambda>e. unat (rnextLSN r') \<le> fst e) (contents (segs l) pss) = es)"
proof -
  obtain res r' w' where c: "readerNext l r w = (res, r', w')" by (metis prod_cases3)
  from readerNext_calm [OF assms c] show ?thesis using c by blast
qed

theorem reader_finds_everything_witness:
  "\<exists>res r'. readerNext settled1 reader1 written_fs = (res, r', written_fs) \<and> (\<exists>n. res = Inr (n, [7]) \<and> unat n = 1)"
proof -
  have "faults written_fs = []" by (simp add: written_fs_def staged_fs_def)
  from reader_finds_everything [OF settled_holds _ _ _ this settled_hollow, of reader1] small_opts_ok reader1_ok
  show ?thesis unfolding settled_contents by (auto simp: settled_fields newSegment_def)
qed

end
