(* ===== verification/ReaderGrowth.thy ===== *)
theory ReaderGrowth
  imports ReaderProperties
begin

text \<open>
  A reader beside a log that goes on working: records are appended, segments are rotated, rounds fail and are rolled back, and segments in front
  of the cursor are truncated while the reader holds an old list of segments, an open file and a window of bytes read earlier.

  \<open>follows\<close> and \<open>extends\<close> say what such a step leaves alone; \<open>tstep_beside\<close> that the reader stays in step with the log; \<open>follow_inv\<close> that what
  it has returned are the records of the log, in order and without a gap.
\<close>

subsection \<open>A log that keeps its segments\<close>

text \<open>The log afterwards still has every segment, each with the records it had and possibly more, under the same name and in the same file.\<close>

definition follows :: "log \<Rightarrow> fs \<Rightarrow> bytes list list \<Rightarrow> log \<Rightarrow> fs \<Rightarrow> bytes list list \<Rightarrow> bool" where
  "follows l w pss l' w' pss' \<longleftrightarrow> length (segs l) \<le> length (segs l') \<and> (\<forall>j < length (segs l).
     baseLSN (segs l' ! j) = baseLSN (segs l ! j) \<and> prevEnd (segs l' ! j) = prevEnd (segs l ! j) \<and> segPath (segs l' ! j) = segPath (segs l ! j)
     \<and> (\<exists>t. pss' ! j = pss ! j @ t) \<and> map_of (dents w') (segPath (segs l ! j)) = map_of (dents w) (segPath (segs l ! j)))"

lemma win_ok_grows:
  assumes "win_ok d n r" and "take n d' = take n d" and "n \<le> n'"
  shows "win_ok d' n' r"
proof (cases "rwin r = [] \<and> rwinOff r = -1")
  case False
  then have o: "0 \<le> rwinOff r" "nat (rwinOff r) + length (rwin r) \<le> n"
      "rwin r = take (length (rwin r)) (drop (nat (rwinOff r)) d)"
    using assms(1) by (auto simp: win_ok_def)
  have "take (length (rwin r)) (drop (nat (rwinOff r)) x) = take (length (rwin r)) (drop (nat (rwinOff r)) (take n x))" for x :: bytes
    using o(2) by (simp add: drop_take min_def)
  then have "rwin r = take (length (rwin r)) (drop (nat (rwinOff r)) d')" using o(3) assms(2) by metis
  then show ?thesis using o assms(3) by (auto simp: win_ok_def)
qed (simp add: win_ok_def)

lemma bases_ascend: "segs_hold l w pss \<Longrightarrow> i < j \<Longrightarrow> j < length (segs l) \<Longrightarrow> unat (baseLSN (segs l ! i)) < unat (baseLSN (segs l ! j))"
  using chained_sorted [of "segs l"] by (simp add: segs_hold_def sorted_wrt_iff_nth_less)

lemma bases_above: "segs_hold l w pss \<Longrightarrow> j < length (segs l) \<Longrightarrow> unat (baseLSN (hd (segs l))) \<le> unat (baseLSN (segs l ! j))"
  using bases_ascend [of l w pss 0 j] by (cases "j = 0") (auto simp: hd_conv_nth segs_hold_def)

lemma stands_grows:
  assumes st: "stands w r s ps k" and h: "seg_holds m w s ps" and h': "seg_holds m' w' s' (ps @ t)"
    and same: "baseLSN s' = baseLSN s" "segPath s' = segPath s" "map_of (dents w') (segPath s) = map_of (dents w) (segPath s)"
  shows "stands w' r s' (ps @ t) k"
proof -
  obtain i where i: "rfile r = Some i" "map_of (dents w) (segPath s) = Some i" "win_ok (data w i) (length (frames ps)) r"
    using st by (auto simp: stands_def)
  have "take (length (frames ps)) (data w i) = frames ps" using h i(2) by (auto simp: seg_holds_def)
  moreover have "take (length (frames (ps @ t))) (data w' i) = frames (ps @ t)" using h' i(2) same by (auto simp: seg_holds_def)
  then have "take (length (frames ps)) (data w' i) = frames ps"
    by (metis append_eq_conv_conj frames_append length_append le_add1 min.absorb1 take_take)
  ultimately have "win_ok (data w' i) (length (frames (ps @ t))) r"
    using win_ok_grows [OF i(3), of "data w' i"] by simp
  then show ?thesis using st i same unfolding stands_def by auto
qed

lemma view_grows: "view_of v s ps \<Longrightarrow> baseLSN s' = baseLSN s \<Longrightarrow> prevEnd s' = prevEnd s \<Longrightarrow> segPath s' = segPath s \<Longrightarrow> view_of v s' (ps @ t)"
  by (auto simp: view_of_def)

lemma hd_follows:
  assumes "follows l w pss l' w' pss'" and "segs l \<noteq> []"
  shows "baseLSN (hd (segs l')) = baseLSN (hd (segs l))"
  using assms by (cases "segs l"; cases "segs l'") (auto simp: follows_def)

lemma rd_ok_follows:
  assumes h: "segs_hold l w pss" and h': "segs_hold l' w' pss'" and f: "follows l w pss l' w' pss'" and ok: "rd_ok l w pss r"
  shows "rd_ok l' w' pss' r"
proof -
  have len: "length (segs l) \<le> length (segs l')" using f by (simp add: follows_def)
  have j: "baseLSN (segs l' ! j) = baseLSN (segs l ! j)" "prevEnd (segs l' ! j) = prevEnd (segs l ! j)" "segPath (segs l' ! j) = segPath (segs l ! j)"
      "\<exists>t. pss' ! j = pss ! j @ t" "map_of (dents w') (segPath (segs l ! j)) = map_of (dents w) (segPath (segs l ! j))"
    if "j < length (segs l)" for j
    using f that by (auto simp: follows_def)
  have base: "baseLSN (hd (segs l')) = baseLSN (hd (segs l))" using hd_follows [OF f] h by (simp add: segs_hold_def)
  have vs: "views_ok l' pss' (rviews r) (rnextLSN r)"
    unfolding views_ok_def
  proof
    fix v assume "v \<in> set (rviews r)"
    then consider i where "i < length (segs l)" "view_of v (segs l ! i) (pss ! i)" | "unat (vbase v) + unat (vcount v) \<le> unat (rnextLSN r)"
      using rd_ok_views [OF ok] unfolding views_ok_def by blast
    then show "(\<exists>j < length (segs l'). view_of v (segs l' ! j) (pss' ! j)) \<or> unat (vbase v) + unat (vcount v) \<le> unat (rnextLSN r)"
    proof cases
      case 1
      then show ?thesis using j [OF 1(1)] view_grows [OF 1(2)] len by (metis less_le_trans)
    qed simp
  qed
  have home: "rpath r \<in> segPath ` set (segs l') \<or> (\<exists>b p. rpath r = segmentName b p \<and> unat b < unat (baseLSN (hd (segs l'))))" if "rfile r \<noteq> None"
  proof -
    have "segPath s \<in> segPath ` set (segs l')" if s: "s \<in> set (segs l)" for s
    proof -
      obtain i where "i < length (segs l)" "s = segs l ! i" using s by (auto simp: in_set_conv_nth)
      then show ?thesis using j(3) [of i] len by (metis imageI less_le_trans nth_mem)
    qed
    then have "segPath ` set (segs l) \<subseteq> segPath ` set (segs l')" by blast
    then show ?thesis using ok that base unfolding rd_ok_def by auto
  qed
  have st: "\<exists>k. stands w' r (segs l' ! i) (pss' ! i) k" if i: "i < length (segs l')" "rfile r \<noteq> None" "rpath r = segPath (segs l' ! i)" for i
  proof (cases "i < length (segs l)")
    case True
    then obtain k where k: "stands w r (segs l ! i) (pss ! i) k" using ok i j(3) unfolding rd_ok_def by metis
    obtain t where t: "pss' ! i = pss ! i @ t" using j(4) [OF True] by blast
    from stands_grows [OF k seg_nth [OF h True], of "maxRecord l'" w' "segs l' ! i" t] seg_nth [OF h' i(1)] show ?thesis
      using j(1,3,5) [OF True] t by auto
  next
    case False
    then have "rpath r \<notin> segPath ` set (segs l)"
    proof -
      have "segPath (segs l ! k) \<noteq> rpath r" if "k < length (segs l)" for k
        using paths_distinct [OF h' _ i(1), of k] j(3) [OF that] that len False i(3) by auto
      then show ?thesis by (metis imageE in_set_conv_nth)
    qed
    then obtain b p where "rpath r = segmentName b p" "unat b < unat (baseLSN (hd (segs l')))" using ok i(2) base unfolding rd_ok_def by auto
    moreover have "segPath (segs l' ! i) = segmentName (baseLSN (segs l' ! i)) (prevEnd (segs l' ! i))"
      using seg_nth [OF h' i(1)] by (simp add: seg_holds_def)
    ultimately show ?thesis using i(3) bases_above [OF h' i(1)] by auto
  qed
  show ?thesis using vs home st ok unfolding rd_ok_def by blast
qed

text \<open>Segments go from the front of the log, none of which the cursor still needs.\<close>

lemma views_drop:
  assumes h: "segs_hold l w pss" and vs: "views_ok l pss vs n" and k: "segs l' = drop k (segs l)"
    and gone: "\<forall>j < k. seg_end (segs l ! j) \<le> unat n"
  shows "views_ok l' (drop k pss) vs n"
  unfolding views_ok_def
proof
  have lp: "length pss = length (segs l)" using h by (auto simp: segs_hold_def list_all2_lengthD)
  fix v assume "v \<in> set vs"
  then consider i where "i < length (segs l)" "view_of v (segs l ! i) (pss ! i)" | "unat (vbase v) + unat (vcount v) \<le> unat n"
    using vs unfolding views_ok_def by blast
  then show "(\<exists>j < length (segs l'). view_of v (segs l' ! j) (drop k pss ! j)) \<or> unat (vbase v) + unat (vcount v) \<le> unat n"
  proof cases
    case 1
    show ?thesis
    proof (cases "i < k")
      case True
      have "unat (vbase v) + unat (vcount v) \<le> seg_end (segs l ! i)"
        using 1(2) seg_holds_end [OF seg_nth [OF h 1(1)]] by (simp add: view_of_def)
      then show ?thesis using gone True by fastforce
    next
      case False
      then have "i - k < length (segs l')" "segs l' ! (i - k) = segs l ! i" "drop k pss ! (i - k) = pss ! i" using 1(1) k lp by auto
      then show ?thesis using 1(2) by auto
    qed
  qed simp
qed

text \<open>The reader's file was one of the log's, and is one still or was in front of the first.\<close>

definition home :: "log \<Rightarrow> string \<Rightarrow> bool" where
  "home l p \<longleftrightarrow> p \<in> segPath ` set (segs l) \<or> (\<exists>b q. p = segmentName b q \<and> unat b < unat (baseLSN (hd (segs l))))"

lemma home_drop:
  assumes h: "segs_hold l w pss" and k: "k < length (segs l)" "segs l' = drop k (segs l)" and "home l p"
  shows "home l' p"
proof -
  have hk: "hd (segs l') = segs l ! k" using k by (simp add: hd_drop_conv_nth)
  from \<open>home l p\<close> consider j where "j < length (segs l)" "p = segPath (segs l ! j)"
    | b q where "p = segmentName b q" "unat b < unat (baseLSN (hd (segs l)))"
    unfolding home_def by (metis imageE in_set_conv_nth)
  then show ?thesis
  proof cases
    case 1
    show ?thesis
    proof (cases "j < k")
      case True
      have "segPath (segs l ! j) = segmentName (baseLSN (segs l ! j)) (prevEnd (segs l ! j))" using seg_nth [OF h 1(1)] by (simp add: seg_holds_def)
      then show ?thesis using bases_ascend [OF h True k(1)] 1(2) hk by (auto simp: home_def)
    next
      case False
      then have "segs l' ! (j - k) = segs l ! j" "j - k < length (segs l')" using 1(1) k by auto
      then have "segs l ! j \<in> set (segs l')" by (metis nth_mem)
      then show ?thesis using 1(2) by (simp add: home_def)
    qed
  next
    case 2
    then show ?thesis using bases_above [OF h k(1)] hk by (auto simp: home_def)
  qed
qed

lemma rd_ok_drop:
  assumes h: "segs_hold l w pss" and ok: "rd_ok l w pss r" and k: "k < length (segs l)" "segs l' = drop k (segs l)"
    and gone: "\<forall>j < k. seg_end (segs l ! j) \<le> unat (rnextLSN r)"
    and same: "\<forall>s \<in> set (segs l'). map_of (dents w') (segPath s) = map_of (dents w) (segPath s)"
      "\<forall>s \<in> set (segs l'). \<forall>i. map_of (dents w) (segPath s) = Some i \<longrightarrow> data w' i = data w i"
  shows "rd_ok l' w' (drop k pss) r"
proof -
  have lp: "length pss = length (segs l)" using h by (auto simp: segs_hold_def list_all2_lengthD)
  have "\<exists>m. stands w' r (segs l' ! i) (drop k pss ! i) m" if i: "i < length (segs l')" "rfile r \<noteq> None" "rpath r = segPath (segs l' ! i)" for i
  proof -
    have at: "segs l' ! i = segs l ! (k + i)" "drop k pss ! i = pss ! (k + i)" "k + i < length (segs l)" using i(1) k lp by auto
    then obtain m where m: "stands w r (segs l' ! i) (drop k pss ! i) m" using ok i unfolding rd_ok_def by metis
    have "segs l' ! i \<in> set (segs l')" using i(1) by simp
    then show ?thesis using m same unfolding stands_def by metis
  qed
  moreover have "home l' (rpath r)" if "rfile r \<noteq> None" using home_drop [OF h k] ok that unfolding rd_ok_def home_def by blast
  ultimately show ?thesis
    using views_drop [OF h rd_ok_views [OF ok] k(2) gone] ok unfolding rd_ok_def home_def by blast
qed

subsection \<open>What a round does to the segments\<close>

text \<open>What the steps of the log do to its list of segments.\<close>

definition grown :: "log \<Rightarrow> log \<Rightarrow> bool" where
  "grown l l' \<longleftrightarrow> length (segs l) \<le> length (segs l')
     \<and> (\<forall>j < length (segs l). baseLSN (segs l' ! j) = baseLSN (segs l ! j) \<and> prevEnd (segs l' ! j) = prevEnd (segs l ! j)
          \<and> segPath (segs l' ! j) = segPath (segs l ! j))
     \<and> (\<forall>j. length (segs l) \<le> j \<longrightarrow> j < length (segs l') \<longrightarrow> seg_end (active l) \<le> unat (baseLSN (segs l' ! j)))"

lemma grown_refl: "segs l' = segs l \<Longrightarrow> grown l l'"
  by (simp add: grown_def)

lemma grown_set_active:
  assumes "segs l \<noteq> []" and "baseLSN s = baseLSN (active l)" and "prevEnd s = prevEnd (active l)" and "segPath s = segPath (active l)"
  shows "grown l (set_active s l)"
proof -
  have "segs l = butlast (segs l) @ [active l]" using assms(1) by (simp add: active_def)
  then obtain bs where "segs l = bs @ [active l]" "segs (set_active s l) = bs @ [s]" by simp
  then show ?thesis using assms by (auto simp: grown_def nth_append less_Suc_eq)
qed

lemma active_end:
  assumes h: "segs_hold l w pss" and j: "j < length (segs l)"
  shows "seg_end (segs l ! j) \<le> seg_end (active l)"
proof (cases "j = length (segs l) - 1")
  case True
  then show ?thesis using j by (simp add: active_def last_conv_nth flip: length_greater_0_conv)
next
  case False
  then have "seg_end (segs l ! j) \<le> unat (baseLSN (segs l ! (length (segs l) - 1)))" using ends_before(2) [OF h, of j "length (segs l) - 1"] j by simp
  moreover have "segs l ! (length (segs l) - 1) = active l" using j by (simp add: active_def last_conv_nth flip: length_greater_0_conv)
  ultimately show ?thesis by (simp add: seg_end_def)
qed

lemma starts_with:
  assumes "\<And>i. i < length xs \<Longrightarrow> i < length ys \<and> ys ! i = xs ! i"
  shows "\<exists>t. ys = xs @ t"
proof -
  have "length xs \<le> length ys" using assms [of "length ys"] by (meson linorder_not_le order_less_irrefl)
  then have "take (length xs) ys = xs" using assms by (intro nth_equalityI) auto
  then show ?thesis by (metis append_take_drop_id)
qed

lemma follows_contents:
  assumes h: "segs_hold l w pss" and h': "segs_hold l' w' pss'" and g: "grown l l'"
    and cs: "set (contents (segs l) pss) \<subseteq> set (contents (segs l') pss')"
    and nm: "\<forall>s \<in> set (segs l). map_of (dents w') (segPath s) = map_of (dents w) (segPath s)"
  shows "follows l w pss l' w' pss'"
proof -
  have st: "baseLSN (segs l' ! j) = baseLSN (segs l ! j)" if "j < length (segs l)" for j using g that by (simp add: grown_def)
  have len: "length (segs l) \<le> length (segs l')" using g by (simp add: grown_def)
  have "\<exists>t. pss' ! j = pss ! j @ t" if j: "j < length (segs l)" for j
  proof -
    have "i < length (pss' ! j) \<and> pss' ! j ! i = pss ! j ! i" if i: "i < length (pss ! j)" for i
    proof -
      let ?n = "unat (baseLSN (segs l ! j)) + i"
      have lt: "?n < seg_end (segs l ! j)" using i seg_holds_end [OF seg_nth [OF h j]] by simp
      have "(?n, pss ! j ! i) \<in> set (contents (segs l') pss')" using cs in_contents [OF h] i j by blast
      then obtain m q where m: "m < length (segs l')" "q < length (pss' ! m)" "?n = unat (baseLSN (segs l' ! m)) + q" "pss ! j ! i = pss' ! m ! q"
        using in_contents [OF h'] by blast
      have "m = j"
      proof (rule ccontr)
        assume "m \<noteq> j"
        then consider "m < j" | "j < m" "m < length (segs l)" | "length (segs l) \<le> m" by linarith
        then show False
        proof cases
          case 1
          then have "seg_end (segs l' ! m) \<le> unat (baseLSN (segs l' ! j))" using ends_before(2) [OF h', of m j] j len by simp
          then show False using m seg_holds_end [OF seg_nth [OF h' m(1)]] st [OF j] by simp
        next
          case 2
          then have "seg_end (segs l ! j) \<le> unat (baseLSN (segs l ! m))" using ends_before(2) [OF h] by simp
          then show False using lt m(3) st [OF 2(2)] by simp
        next
          case 3
          then have "seg_end (active l) \<le> unat (baseLSN (segs l' ! m))" using g m(1) by (simp add: grown_def)
          then show False using lt m(3) active_end [OF h j] by simp
        qed
      qed
      then show ?thesis using m st [OF j] by simp
    qed
    then show ?thesis by (intro starts_with) blast
  qed
  then show ?thesis using g nm unfolding follows_def grown_def by auto
qed

text \<open>Writing a round.\<close>

lemma on_handle_names:
  assumes "on_handle s call w = (r, w')" and "\<And>i. only_ino i w (snd (call i w))"
  shows "dents w' = dents w"
proof -
  have "dents (snd (call i w)) = dents w" for i using assms(2) [of i] by (simp add: only_ino_def)
  then show ?thesis using assms(1) by (auto simp: on_handle_def split: option.splits if_splits) (metis snd_conv)
qed

lemma appendRound_shape:
  assumes "appendRound buf n l w = (err, l', w')" and "segs l \<noteq> []"
  shows "dents w' = dents w \<and> grown l l'"
proof -
  obtain r1 w1 where a: "on_handle (active l) (\<lambda>i. file_write i buf) w = (r1, w1)" by fastforce
  obtain r2 w2 where b: "on_handle (active l) file_sync w1 = (r2, w2)" by fastforce
  have "dents w1 = dents w" "dents w2 = dents w1" using on_handle_names [OF a] file_write_only on_handle_sync [OF b] by auto
  then show ?thesis
    using assms(1) a b grown_refl [of l l] grown_set_active [OF assms(2)]
    by (auto simp: appendRound_def split: sum.splits if_splits)
qed

lemma rollback_names:
  assumes "rollback l w = (err, w')"
  shows "dents w' = dents w"
proof -
  obtain r1 w1 where a: "on_handle (active l) (\<lambda>i. file_truncate i (segSize (active l))) w = (r1, w1)" by fastforce
  obtain r2 w2 where b: "on_handle (active l) file_sync w1 = (r2, w2)" by fastforce
  have "dents w1 = dents w" "dents w2 = dents w1" using on_handle_names [OF a] file_truncate_only on_handle_sync [OF b] by auto
  then show ?thesis using assms a b by (auto simp: rollback_def split: sum.splits if_splits)
qed

definition names_kept :: "log \<Rightarrow> fs \<Rightarrow> fs \<Rightarrow> bool" where
  "names_kept l w w' \<longleftrightarrow> (\<forall>s \<in> set (segs l). map_of (dents w') (segPath s) = map_of (dents w) (segPath s))"

lemma names_kept_same: "dents w' = dents w \<Longrightarrow> names_kept l w w'"
  by (simp add: names_kept_def)

lemma names_kept_paths:
  assumes "grown l l1" and "names_kept l1 w1 w2"
  shows "names_kept l w1 w2"
  unfolding names_kept_def
proof
  fix s assume "s \<in> set (segs l)"
  then obtain j where j: "j < length (segs l)" "s = segs l ! j" by (auto simp: in_set_conv_nth)
  then have "segPath (segs l1 ! j) = segPath s" "segs l1 ! j \<in> set (segs l1)" using assms(1) by (auto simp: grown_def)
  then show "map_of (dents w2) (segPath s) = map_of (dents w1) (segPath s)" using assms(2) unfolding names_kept_def by metis
qed

lemma names_kept_trans: "names_kept l w w1 \<Longrightarrow> names_kept l w1 w2 \<Longrightarrow> names_kept l w w2"
  by (simp add: names_kept_def)

lemma grown_trans:
  assumes "grown l l1" and "grown l1 l2" and "seg_end (active l) \<le> seg_end (active l1)"
  shows "grown l l2"
  unfolding grown_def
proof (intro conjI allI impI)
  show "length (segs l) \<le> length (segs l2)" using assms(1,2) by (simp add: grown_def)
  show "baseLSN (segs l2 ! j) = baseLSN (segs l ! j)" "prevEnd (segs l2 ! j) = prevEnd (segs l ! j)" "segPath (segs l2 ! j) = segPath (segs l ! j)"
    if "j < length (segs l)" for j using assms(1,2) that by (simp_all add: grown_def)
  show "seg_end (active l) \<le> unat (baseLSN (segs l2 ! j))" if "length (segs l) \<le> j" "j < length (segs l2)" for j
    using assms(1,2) that order_trans [OF assms(3)] by (cases "j < length (segs l1)") (simp_all add: grown_def)
qed

lemma rotateSegment_shape:
  assumes r: "rotateSegment first l w = (err, l', w')" and d: "disk_ok l w cs n"
    and first: "unat (baseLSN (active l)) < unat first" "n = unat first"
  shows "names_kept l w w' \<and> grown l l' \<and> (err = None \<longrightarrow> seg_end (active l') = n)"
proof -
  obtain pss where h: "segs_hold l w pss" and ok: "fs_ok w" "handle_ok l w" and n: "seg_end (active l) = n" using d by (auto simp: disk_ok_def)
  have np: "segPath s \<noteq> segmentName first (first - 1)" if "s \<in> set (segs l)" for s using fresh_path [OF h that first(1)] .
  have ne: "segs l \<noteq> []" using h by (simp add: segs_hold_def)
  then have act: "segPath (active l) \<noteq> segmentName first (first - 1)" using np by (simp add: active_def)
  have "names_kept l w w'"
    using untouched_name [OF rotateSegment_untouched [OF r ok act]] np by (simp add: names_kept_def)
  moreover have "grown l l' \<and> (err = None \<longrightarrow> seg_end (active l') = n)"
  proof (cases err)
    case (Some e)
    then have "l' = l \<or> l' = set_active ((active l)\<lparr>segShut := True\<rparr>) l" using rotateSegment_fail r by blast
    then show ?thesis using Some grown_refl [of l l] grown_set_active [OF ne] by auto
  next
    case None
    then obtain i where l': "l' = l\<lparr>segs := butlast (segs l) @ [(active l)\<lparr>segFile := None\<rparr>, newSegment first (first - 1) i]\<rparr>"
      using rotateSegment_ok [OF _ ok(1) act] r by blast
    have "segs l = butlast (segs l) @ [active l]" using ne by (simp add: active_def)
    then obtain bs where bs: "segs l = bs @ [active l]" "segs l' = bs @ [(active l)\<lparr>segFile := None\<rparr>, newSegment first (first - 1) i]" by (simp add: l')
    then have "grown l l'" using n first by (auto simp: grown_def nth_append less_Suc_eq nth_Cons' newSegment_def)
    moreover have "seg_end (active l') = n" using bs first by (simp add: active_def seg_end_def newSegment_def)
    ultimately show ?thesis by simp
  qed
  ultimately show ?thesis by blast
qed

lemma writeBatch_shape:
  assumes wb: "writeBatch buf first n l w = (err, l', w')" and d: "disk_ok l w cs k" and first: "unat first = k"
  shows "names_kept l w w' \<and> grown l l'"
proof -
  obtain pss where h: "segs_hold l w pss" using d by (auto simp: disk_ok_def)
  have ne: "segs l \<noteq> []" using h by (simp add: segs_hold_def)
  show ?thesis
  proof (cases "segSize (active l) > 0 \<and> int (segSize (active l)) + int (length buf) > MaxSegmentBytes (opts l)")
    case False
    then show ?thesis
      using appendRound_shape [OF wb [unfolded writeBatch_same_segment [OF False]] ne] names_kept_same by blast
  next
    case True
    have lt: "unat (baseLSN (active l)) < unat first"
      using size_pos_count [OF segs_hold_active [OF h]] True first d by (simp add: disk_ok_def)
    obtain e1 l1 w1 where r: "rotateSegment first l w = (e1, l1, w1)" by (metis prod_cases3)
    note sh = rotateSegment_shape [OF r d lt first [symmetric]]
    show ?thesis
    proof (cases e1)
      case (Some e)
      then show ?thesis using wb r True sh by (auto simp: writeBatch_def)
    next
      case None
      then have a: "appendRound buf n l1 w1 = (err, l', w')" using wb r True by (auto simp: writeBatch_def)
      have "length (segs l) \<le> length (segs l1)" using sh by (simp add: grown_def)
      then have "segs l1 \<noteq> []" using ne by auto
      note ar = appendRound_shape [OF a this]
      have "seg_end (active l) \<le> seg_end (active l1)" using sh None d by (simp add: disk_ok_def)
      with sh ar show ?thesis using grown_trans names_kept_trans names_kept_same by blast
    qed
  qed
qed

lemma commitWrite_shape:
  assumes cw: "commitWrite j l w = ((err, rbErr), l', w')" and rel: "lrel (l, Writing j, w) a"
  shows "names_kept l w w' \<and> grown l l'"
proof -
  have d: "disk_ok l w (strip (a_recs a)) (a_base a)" and f: "unat (jfirst j) = a_base a"
    using rel by (auto simp: lrel_def job_ok_def)
  obtain e1 l1 w1 where wb: "writeBatch (jbuf j) (jfirst j) (jlast j - jfirst j + 1) l w = (e1, l1, w1)"
    by (metis prod_cases3)
  note sh = writeBatch_shape [OF wb d f]
  show ?thesis
  proof (cases e1)
    case None
    then show ?thesis using cw wb sh by (auto simp: commitWrite_def)
  next
    case (Some e)
    then obtain rb where rb: "rollback l1 w1 = (rb, w')" "l' = l1" using cw wb by (auto simp: commitWrite_def split: prod.splits)
    then show ?thesis using sh names_kept_trans [OF _ names_kept_same [OF rollback_names [OF rb(1)]]] by blast
  qed
qed

text \<open>The records of a file are determined by its bytes.\<close>

lemma frames_unique:
  assumes "frames ps = frames qs" and "limit_ok m" and "list_all (\<lambda>p. length p \<le> m) ps" and "list_all (\<lambda>p. length p \<le> m) qs"
  shows "ps = qs"
proof (rule rec.concat_enc_inj)
  have "list_all (\<lambda>p. length p \<le> m) xs \<Longrightarrow> list_all frameable xs" for xs
    using assms(2) by (auto simp: list_all_iff limit_ok_def frameable_def headerSize_def)
  then show "list_all frameable ps" "list_all frameable qs" using assms(3,4) by blast+
  show "concat (map frame ps) = concat (map frame qs)" using assms(1) by (simp add: frames_concat)
qed

lemma segs_hold_unique:
  assumes "segs_hold l w pss" and "segs_hold l w qss" and "limit_ok (maxRecord l)"
  shows "pss = qss"
proof (rule nth_equalityI)
  show "length pss = length qss" using assms(1,2) by (metis list_all2_lengthD segs_hold_def)
  fix j assume "j < length pss"
  then have j: "j < length (segs l)" using assms(1) by (metis list_all2_lengthD segs_hold_def)
  show "pss ! j = qss ! j"
    using frames_unique [OF _ assms(3)] seg_nth [OF assms(1) j] seg_nth [OF assms(2) j] by (auto simp: seg_holds_def)
qed

subsection \<open>Steps that remove no segment\<close>

text \<open>A step of the log that keeps its first segment appends to the records.\<close>

definition extends :: "log \<Rightarrow> fs \<Rightarrow> bytes list list \<Rightarrow> log \<Rightarrow> fs \<Rightarrow> bytes list list \<Rightarrow> bool" where
  "extends l w pss l' w' pss' \<longleftrightarrow> segs_hold l' w' pss' \<and> follows l w pss l' w' pss'
     \<and> (\<exists>ps. contents (segs l') pss' = contents (segs l) pss @ numbered (seg_end (active l)) ps
          \<and> seg_end (active l') = seg_end (active l) + length ps)"

lemma extends_same:
  assumes "segs_hold l w' pss" and "segs l' = segs l" and "opts l' = opts l" and "names_kept l w w'"
  shows "extends l w pss l' w' pss"
proof -
  have "follows l w pss l' w' pss" using assms by (auto simp: follows_def names_kept_def)
  moreover have "segs_hold l' w' pss" using assms by (simp add: segs_hold_def)
  ultimately show ?thesis using assms(2) by (simp add: extends_def active_def exI [of _ "[]"])
qed

lemma segs_hold_meta:
  assumes h: "segs_hold l w pss" and mf: "meta_frame name w w'" and nm: "\<And>b p. segmentName b p \<notin> {name, tmpName name}"
  shows "segs_hold l w' pss \<and> names_kept l w w'"
proof -
  note u = meta_frame_untouched [OF mf]
  have np: "segPath s \<notin> {name, tmpName name}" if "s \<in> set (segs l)" for s using segs_path [OF h that] nm by simp
  then show ?thesis using segs_hold_untouched [OF h u np] untouched_name [OF u] by (simp add: names_kept_def)
qed

lemma commitWrite_extends:
  assumes cw: "commitWrite j l w = ((err, rbErr), l', w')" and rel: "lrel (l, Writing j, w) a" and inv: "ainv a"
    and h: "segs_hold l w pss"
  shows "\<exists>pss'. extends l w pss l' w' pss'"
proof -
  have lim: "limit_ok (maxRecord l)" and d: "disk_ok l w (strip (a_recs a)) (a_base a)" using rel by (simp_all add: lrel_def)
  have cs: "contents (segs l) pss = strip (a_recs a)" "seg_end (active l) = a_base a"
    using d segs_hold_unique [OF h _ lim] by (auto simp: disk_ok_def)
  let ?ps = "published (Settling j err rbErr) a"
  have "disk_ok l' w' (strip (a_recs a) @ numbered (a_base a) ?ps) (a_base a + length ?ps)"
    using sim_write [OF rel inv cw] by (simp add: lrel_def)
  then obtain pss' where h': "segs_hold l' w' pss'" and cs': "contents (segs l') pss' = strip (a_recs a) @ numbered (a_base a) ?ps"
      "seg_end (active l') = a_base a + length ?ps"
    by (auto simp: disk_ok_def)
  have "follows l w pss l' w' pss'"
    using commitWrite_shape [OF cw rel] cs cs' by (intro follows_contents [OF h h']) (auto simp: names_kept_def)
  then show ?thesis using h' cs cs' unfolding extends_def by auto
qed

text \<open>Truncation.\<close>

lemma truncate_extends:
  assumes t: "truncateLog lim l w = (err, l', w')" and h: "segs_hold l w pss" and ok: "fs_ok w"
    and f: "firstLSN l = baseLSN (hd (segs l))" "firstLSN l' = firstLSN l"
  shows "extends l w pss l' w' pss"
proof -
  obtain k b where l': "l' = l\<lparr>segs := drop k (segs l), firstLSN := b\<rparr>" "b = firstLSN l \<and> k = 0 \<or> b = baseLSN (hd (drop k (segs l)))"
      and u: "untouched (segPath ` set (take k (segs l))) w w'" and dc: "k \<le> dropCount lim (segs l)"
    using truncateLog_shape [OF t h ok] by blast
  have k: "k \<le> dropCount lim (segs l)" "segs l' = drop k (segs l)" "opts l' = opts l"
      "k = 0 \<or> firstLSN l' = baseLSN (hd (segs l'))" "untouched (segPath ` set (take k (segs l))) w w'"
    using dc u l'(2) by (auto simp: l'(1))
  have lt: "k < length (segs l)" using k(1) dropCount_less h by (meson le_less_trans segs_hold_def)
  have "k = 0"
  proof (rule ccontr)
    assume "k \<noteq> 0"
    then have "unat (baseLSN (hd (segs l))) < unat (baseLSN (hd (segs l')))"
      using bases_ascend [OF h, of 0 k] lt k(2) h by (simp add: hd_drop_conv_nth hd_conv_nth segs_hold_def)
    then show False using k(4) f \<open>k \<noteq> 0\<close> by simp
  qed
  then have "untouched {} w w'" "segs l' = segs l" using k by simp_all
  then show ?thesis
    using segs_hold_untouched [OF h] untouched_name k(3) by (intro extends_same) (auto simp: names_kept_def)
qed

lemma lstep_extends:
  assumes st: "lstep (l, ph, w) (l', ph', w')" and ref: "refined (l, ph, w)" and h: "segs_hold l w pss" and f: "firstLSN l' = firstLSN l"
  shows "\<exists>pss'. extends l w pss l' w' pss'"
proof -
  obtain a where a: "lrel (l, ph, w) a" "ainv a" using ref by (auto simp: refined_def)
  have ok: "fs_ok w" using refined_fs_ok [OF ref] .
  have same: "extends l w pss l' w' pss" if "w' = w \<or> meta_frame reservedName w w' \<or> meta_frame checkpointName w w'" "segs l' = segs l" "opts l' = opts l"
    using that h segs_hold_meta [OF h, of reservedName w'] segs_hold_meta [OF h, of checkpointName w'] names_kept_same [of w w l]
    by (intro extends_same) auto
  from st show ?thesis
  proof (cases rule: lstep.cases)
    case (l_append ps res)
    then show ?thesis using append_frame [OF _ ok] same by blast
  next
    case (l_take j)
    then show ?thesis using same by (auto simp: commitTake_def newRound_def Let_def split: if_splits)
  next
    case (l_write j err rbErr)
    then show ?thesis using commitWrite_extends a h by blast
  next
    case (l_settle j err rbErr res)
    then show ?thesis using same by (auto simp: commitSettle_def newRound_def resolve_def Let_def split: option.splits)
  next
    case (l_truncate lim res)
    have "firstLSN l = baseLSN (hd (segs l))" using a(1) by (simp add: lrel_def)
    then show ?thesis using truncate_extends [OF l_truncate(2) h ok _ f] by blast
  next
    case (l_checkpoint v res)
    then show ?thesis using same cp.write_frame [OF ok] by blast
  qed (use same in auto)
qed

lemma refined_reads:
  assumes "refined (l, ph, w)" and "reads w w'"
  shows "refined (l, ph, w')"
proof -
  obtain fl where w': "w' = w\<lparr>faults := fl\<rparr>" using assms(2) by (auto simp: reads_def)
  have "fs_ok w' = fs_ok w" "\<And>m. seg_holds m w' = seg_holds m w" "seg_exact w' = seg_exact w"
    by (simp_all add: w' fs_ok_def seg_holds_def seg_exact_def fun_eq_iff)
  then have "disk_ok l w' cs n = disk_ok l w cs n" "tail_clean l w' = tail_clean l w" for cs n
    by (simp_all add: w' disk_ok_def handle_ok_def segs_hold_def tail_clean_def tail_prefix_def)
  then have "lrel (l, ph, w') a = lrel (l, ph, w) a" for a by (simp add: lrel_def)
  then show ?thesis using assms(1) by (simp add: refined_def)
qed

subsection \<open>Steps beside a reader\<close>

text \<open>The steps of the log that remove no segment, and the truncations up to a number that is at most \<open>c\<close>.\<close>

inductive tstep :: "nat \<Rightarrow> lstate \<Rightarrow> lstate \<Rightarrow> bool" for c where
  t_log: "lstep (l, ph, w) (l', ph', w') \<Longrightarrow> firstLSN l' = firstLSN l \<Longrightarrow> tstep c (l, ph, w) (l', ph', w')"
| t_truncate: "truncateLog lim l w = (res, l', w') \<Longrightarrow> unat lim \<le> c \<Longrightarrow> tstep c (l, ph, w) (l', ph, w')"

lemma tstep_lstep: "tstep c s s' \<Longrightarrow> lstep s s'"
  by (induction rule: tstep.induct) (auto intro: l_truncate)

lemma refined_limits: "refined (l, ph, w) \<Longrightarrow> limit_ok (maxRecord l) \<and> 0 \<le> MaxRecordBytes (opts l) \<and> firstLSN l = baseLSN (hd (segs l))"
  by (auto simp: refined_def lrel_def)

text \<open>The records afterwards: some went from the front, all of them below \<open>c\<close>, and some were added at the end.\<close>

definition moved_on :: "nat \<Rightarrow> log \<Rightarrow> bytes list list \<Rightarrow> log \<Rightarrow> bytes list list \<Rightarrow> bool" where
  "moved_on c l pss l' pss' \<longleftrightarrow> (\<exists>k ps. contents (segs l') pss' = drop k (contents (segs l) pss) @ numbered (seg_end (active l)) ps
     \<and> (\<forall>e \<in> set (take k (contents (segs l) pss)). fst e < c \<and> fst e < unat (firstLSN l')) \<and> (k = 0 \<or> ps = [])
     \<and> seg_end (active l') = seg_end (active l) + length ps) \<and> unat (firstLSN l) \<le> unat (firstLSN l')"

lemma truncate_beside:
  assumes t: "truncateLog lim l w = (res, l', w')" and c: "unat lim \<le> c" "c \<le> unat (rnextLSN r)"
    and ref: "refined (l, ph, w)" and h: "segs_hold l w pss" and ok: "rd_ok l w pss r"
  shows "\<exists>pss'. segs_hold l' w' pss' \<and> rd_ok l' w' pss' r \<and> moved_on c l pss l' pss'"
proof -
  obtain k b where dc: "k \<le> dropCount lim (segs l)" "l' = l\<lparr>segs := drop k (segs l), firstLSN := b\<rparr>"
      and u: "untouched (segPath ` set (take k (segs l))) w w'" "kept (segPath ` set (take k (segs l))) w w'"
    using truncateLog_shape [OF t h refined_fs_ok [OF ref]] by blast
  have k: "k \<le> dropCount lim (segs l)" "segs l' = drop k (segs l)" "opts l' = opts l" using dc by simp_all
  have lt: "k < length (segs l)" using k(1) dropCount_less h by (meson le_less_trans segs_hold_def)
  have h': "segs_hold l' w' (drop k pss)" and act: "active l' = active l" using segs_hold_drop [OF h lt k(2,3) u] by blast+
  have ref': "refined (l', ph, w')" using refined.step_inv [OF ref l_truncate [OF t]] .
  have low: "seg_end (segs l ! j) \<le> c" if "j < k" for j
  proof -
    have "segs l ! j \<in> set (take (dropCount lim (segs l)) (segs l))"
      using that k(1) lt by (auto simp: in_set_conv_nth intro!: exI [of _ j])
    then have "unat (lastLSN (segs l ! j)) < unat lim" using dropCount_below by (simp add: word_less_unat)
    moreover have "unat (lastLSN (segs l ! j)) = seg_end (segs l ! j) - 1"
      using seg_holds_lastLSN [OF seg_nth [OF h, of j]] that lt by simp
    ultimately show ?thesis using c by simp
  qed
  have np: "segPath s \<notin> segPath ` set (take k (segs l))" if "s \<in> set (segs l')" for s
  proof -
    have "distinct (map segPath (take k (segs l)) @ map segPath (drop k (segs l)))"
      using h chained_paths by (metis append_take_drop_id map_append segs_hold_def)
    then show ?thesis using that k(2) by auto
  qed
  have gone: "\<forall>j < k. seg_end (segs l ! j) \<le> unat (rnextLSN r)" using low c(2) order_trans by blast
  have ok': "rd_ok l' w' (drop k pss) r"
    by (rule rd_ok_drop [OF h ok lt k(2) gone]) (use np untouched_name [OF u(1)] untouched_data [OF u(1)] in blast)+
  have len: "length (segs l) = length pss" using h list_all2_lengthD unfolding segs_hold_def by blast
  let ?gone = "contents (take k (segs l)) (take k pss)"
  have sp: "contents (segs l) pss = ?gone @ contents (segs l') (drop k pss)" using contents_take_drop [OF len, of k] k(2) by simp
  have fl: "firstLSN l' = baseLSN (segs l ! k)" "firstLSN l = baseLSN (hd (segs l))"
    using refined_limits [OF ref'] refined_limits [OF ref] k(2) lt by (simp_all add: hd_drop_conv_nth)
  have "fst e < c \<and> fst e < unat (firstLSN l')" if e: "e \<in> set ?gone" for e
  proof -
    obtain i where i: "i < k" "i < length (segs l)" "e \<in> set (seg_entries (segs l ! i) (pss ! i))"
      using e len by (auto simp: contents_def set_zip)
    then have "fst e < seg_end (segs l ! i)" using seg_entries_below [OF seg_nth [OF h i(2)]] by blast
    then show ?thesis using ends_before(2) [OF h i(1) lt] fl low [OF i(1)] by simp
  qed
  moreover have "unat (firstLSN l) \<le> unat (firstLSN l')" using bases_above [OF h lt] fl by simp
  ultimately have "moved_on c l pss l' (drop k pss)"
    unfolding moved_on_def using sp act by (intro conjI exI [of _ "length ?gone"] exI [of _ "[]"]) auto
  then show ?thesis using h' ok' by blast
qed

lemma tstep_beside:
  assumes st: "tstep c (l, ph, w) (l', ph', w')" and c: "c \<le> unat (rnextLSN r)"
    and ref: "refined (l, ph, w)" and h: "segs_hold l w pss" and ok: "rd_ok l w pss r"
  shows "\<exists>pss'. segs_hold l' w' pss' \<and> rd_ok l' w' pss' r \<and> moved_on c l pss l' pss'"
  using st
proof (cases rule: tstep.cases)
  case t_log
  from lstep_extends [OF t_log(1) ref h t_log(2)] obtain pss' ps where e: "segs_hold l' w' pss'" "follows l w pss l' w' pss'"
      "contents (segs l') pss' = contents (segs l) pss @ numbered (seg_end (active l)) ps" "seg_end (active l') = seg_end (active l) + length ps"
    unfolding extends_def by blast
  then have "moved_on c l pss l' pss'" unfolding moved_on_def using t_log(2) by (intro conjI exI [of _ 0] exI [of _ ps]) auto
  then show ?thesis using e(1) rd_ok_follows [OF h e(1,2) ok] by blast
next
  case (t_truncate lim res)
  then show ?thesis using truncate_beside [OF _ _ c ref h ok] by blast
qed

text \<open>
  A reader beside the log: steps of the log, which may truncate what the cursor has passed, and calls of the reader, whose records are collected.
\<close>

record follower =
  flog :: log
  fphase :: phase
  fdisk :: fs
  freader :: reader
  fgot :: "(nat \<times> bytes) list"

fun got :: "error + u64 \<times> bytes \<Rightarrow> (nat \<times> bytes) list" where
  "got (Inl e) = []"
| "got (Inr (n, p)) = [(unat n, p)]"

inductive rstep :: "follower \<Rightarrow> follower \<Rightarrow> bool" where
  r_log: "tstep (unat (rnextLSN (freader x))) (flog x, fphase x, fdisk x) (l, ph, w) \<Longrightarrow> rstep x (x\<lparr>flog := l, fphase := ph, fdisk := w\<rparr>)"
| r_next: "readerNext (flog x) (freader x) (fdisk x) = (res, r, w) \<Longrightarrow>
    rstep x (x\<lparr>fdisk := w, freader := r, fgot := fgot x @ got res\<rparr>)"

text \<open>From the number \<open>c\<close> on, up to the cursor, all records of the log were returned, in order.\<close>

definition followed :: "nat \<Rightarrow> log \<Rightarrow> fs \<Rightarrow> bytes list list \<Rightarrow> reader \<Rightarrow> (nat \<times> bytes) list \<Rightarrow> bool" where
  "followed c l w pss r out \<longleftrightarrow> segs_hold l w pss \<and> rd_ok l w pss r \<and> unat (rnextLSN r) \<le> seg_end (active l) \<and> c \<le> unat (rnextLSN r)
     \<and> sorted_wrt (<) (map fst out) \<and> (\<forall>e \<in> set out. c \<le> fst e \<and> fst e < unat (rnextLSN r))
     \<and> (\<forall>e \<in> set (contents (segs l) pss). c \<le> fst e \<longrightarrow> fst e < unat (rnextLSN r) \<longrightarrow> e \<in> set out)
     \<and> (\<forall>e \<in> set out. e \<in> set (contents (segs l) pss) \<or> fst e < unat (firstLSN l))"

definition follow_inv :: "nat \<Rightarrow> follower \<Rightarrow> bool" where
  "follow_inv c x \<longleftrightarrow> refined (flog x, fphase x, fdisk x) \<and> (\<exists>pss. followed c (flog x) (fdisk x) pss (freader x) (fgot x))"

lemma follow_invI:
  "refined (flog x, fphase x, fdisk x) \<Longrightarrow> followed c (flog x) (fdisk x) pss (freader x) (fgot x) \<Longrightarrow> follow_inv c x"
  unfolding follow_inv_def by blast

lemma follow_log:
  assumes inv: "follow_inv c x" and st: "tstep (unat (rnextLSN (freader x))) (flog x, fphase x, fdisk x) (l, ph, w)"
  shows "follow_inv c (x\<lparr>flog := l, fphase := ph, fdisk := w\<rparr>)"
proof -
  let ?l = "flog x" and ?n = "unat (rnextLSN (freader x))"
  have ref: "refined (?l, fphase x, fdisk x)" using inv by (simp add: follow_inv_def)
  obtain pss where h: "segs_hold ?l (fdisk x) pss" and ok: "rd_ok ?l (fdisk x) pss (freader x)"
    and cur: "?n \<le> seg_end (active ?l)" "c \<le> ?n"
    and out: "sorted_wrt (<) (map fst (fgot x))" "\<forall>e \<in> set (fgot x). c \<le> fst e \<and> fst e < ?n"
    and all: "\<forall>e \<in> set (contents (segs ?l) pss). c \<le> fst e \<longrightarrow> fst e < ?n \<longrightarrow> e \<in> set (fgot x)"
    and src: "\<forall>e \<in> set (fgot x). e \<in> set (contents (segs ?l) pss) \<or> fst e < unat (firstLSN ?l)"
    using inv unfolding follow_inv_def followed_def by blast
  let ?cs = "contents (segs ?l) pss"
  obtain pss' k ps where h': "segs_hold l w pss'" "rd_ok l w pss' (freader x)"
    and cs: "contents (segs l) pss' = drop k ?cs @ numbered (seg_end (active ?l)) ps" "seg_end (active l) = seg_end (active ?l) + length ps"
    and low: "\<forall>e \<in> set (take k ?cs). fst e < unat (firstLSN l)" "unat (firstLSN ?l) \<le> unat (firstLSN l)"
    using tstep_beside [OF st order_refl ref h ok] unfolding moved_on_def by blast
  have new: "seg_end (active ?l) \<le> fst e" if "e \<in> set (numbered (seg_end (active ?l)) ps)" for e
    using that in_numbered [of "fst e" "snd e"] by simp
  have parts: "e \<in> set ?cs \<Longrightarrow> e \<in> set (take k ?cs) \<or> e \<in> set (drop k ?cs)" for e by (metis append_take_drop_id set_append Un_iff)
  have "e \<in> set (fgot x)" if "e \<in> set (contents (segs l) pss')" "c \<le> fst e" "fst e < ?n" for e
    using that all new [of e] cur(1) in_set_dropD [of e k ?cs] unfolding cs(1) by auto
  moreover have "e \<in> set (contents (segs l) pss') \<or> fst e < unat (firstLSN l)" if "e \<in> set (fgot x)" for e
    using src that low parts less_le_trans unfolding cs(1) set_append by blast
  moreover have "?n \<le> seg_end (active l)" using cur(1) cs(2) by simp
  ultimately have "followed c l w pss' (freader x) (fgot x)" using h' cur(2) out unfolding followed_def by blast
  then show ?thesis using refined.step_inv [OF ref tstep_lstep [OF st]] by (intro follow_invI) simp_all
qed

lemma bases_below_end:
  assumes "segs_hold l w pss" and "s \<in> set (segs l)"
  shows "unat (baseLSN s) \<le> seg_end (active l)"
proof -
  obtain i where "i < length (segs l)" "s = segs l ! i" using assms(2) by (auto simp: in_set_conv_nth)
  then show ?thesis using active_end [OF assms(1)] by (metis le_add1 order_trans seg_end_def)
qed

lemma follow_next:
  assumes inv: "follow_inv c x" and nx: "readerNext (flog x) (freader x) (fdisk x) = (res, r, w)"
  shows "follow_inv c (x\<lparr>fdisk := w, freader := r, fgot := fgot x @ got res\<rparr>)"
proof -
  let ?l = "flog x" and ?n = "unat (rnextLSN (freader x))" and ?n' = "unat (rnextLSN r)"
  have ref: "refined (?l, fphase x, fdisk x)" using inv by (simp add: follow_inv_def)
  obtain pss where h: "segs_hold ?l (fdisk x) pss" and ok: "rd_ok ?l (fdisk x) pss (freader x)"
    and cur: "?n \<le> seg_end (active ?l)" "c \<le> ?n"
    and out: "sorted_wrt (<) (map fst (fgot x))" "\<forall>e \<in> set (fgot x). c \<le> fst e \<and> fst e < ?n"
    and all: "\<forall>e \<in> set (contents (segs ?l) pss). c \<le> fst e \<longrightarrow> fst e < ?n \<longrightarrow> e \<in> set (fgot x)"
    and src: "\<forall>e \<in> set (fgot x). e \<in> set (contents (segs ?l) pss) \<or> fst e < unat (firstLSN ?l)"
    using inv unfolding follow_inv_def followed_def by blast
  let ?cs = "contents (segs ?l) pss"
  have lim: "limit_ok (maxRecord ?l)" "0 \<le> MaxRecordBytes (opts ?l)" using refined_limits [OF ref] by blast+
  note rd = readerNext_ok [OF h lim ok nx]
  have sorted: "sorted_wrt (<) (map fst ?cs)" and below: "e \<in> set ?cs \<Longrightarrow> fst e < seg_end (active ?l)" for e
    using contents_sorted [of "maxRecord ?l" "fdisk x" "segs ?l" pss] h by (auto simp: segs_hold_def active_def)
  have keep: "refined (?l, fphase x, w)" "segs_hold ?l w pss" "rd_ok ?l w pss r" "?n \<le> ?n'"
    using rd refined_reads [OF ref] segs_hold_reads [OF _ h] by blast+
  consider (none) e where "res = Inl e" "vacant ?l pss ?n ?n'" "rnextLSN r = rnextLSN (freader x) \<or> rnextLSN r \<in> baseLSN ` set (segs ?l)"
    | (some) n p where "res = Inr (n, p)" "(unat n, p) \<in> set ?cs" "?n \<le> unat n" "vacant ?l pss ?n (unat n)" "?n' = unat n + 1"
    using rd by (cases res) blast+
  then show ?thesis
  proof cases
    case none
    have "?n' \<le> seg_end (active ?l)" using none(3) cur(1) bases_below_end [OF h] by auto
    moreover have "\<forall>e \<in> set ?cs. c \<le> fst e \<longrightarrow> fst e < ?n' \<longrightarrow> e \<in> set (fgot x)" using all none(2) unfolding vacant_def by fastforce
    moreover have "\<forall>e \<in> set (fgot x). c \<le> fst e \<and> fst e < ?n'" using out(2) keep(4) by fastforce
    moreover have "c \<le> ?n'" using cur(2) keep(4) by simp
    ultimately have "followed c ?l w pss r (fgot x)" using keep out(1) src unfolding followed_def by blast
    then show ?thesis using none(1) keep(1) by (intro follow_invI) simp_all
  next
    case some
    have "?n' \<le> seg_end (active ?l)" using below [OF some(2)] some(5) by simp
    moreover have "e \<in> set (fgot x @ [(unat n, p)])" if e: "e \<in> set ?cs" "c \<le> fst e" "fst e < ?n'" for e
    proof (cases "fst e < ?n")
      case False
      then have "fst e = unat n" using some(4,5) e unfolding vacant_def by fastforce
      then have "e = (unat n, p)"
        using some(2) e(1) sorted by (metis eq_key_imp_eq_value prod.collapse strict_sorted_iff)
      then show ?thesis by simp
    qed (use all e in auto)
    moreover have "\<forall>e \<in> set (fgot x @ [(unat n, p)]). c \<le> fst e \<and> fst e < ?n'" using out(2) some(3,5) cur(2) by fastforce
    moreover have "sorted_wrt (<) (map fst (fgot x @ [(unat n, p)]))" using out some(3) by (fastforce simp: sorted_wrt_append)
    moreover have "c \<le> ?n'" using cur(2) keep(4) by simp
    moreover have "\<forall>e \<in> set (fgot x @ [(unat n, p)]). e \<in> set ?cs \<or> fst e < unat (firstLSN ?l)" using src some(2) by auto
    ultimately have "followed c ?l w pss r (fgot x @ [(unat n, p)])" using keep unfolding followed_def by blast
    then show ?thesis using some(1) keep(1) by (intro follow_invI) simp_all
  qed
qed

interpretation follow: invariant_system rstep "follow_inv c" for c
proof
  fix x y assume "follow_inv c x" and "rstep x y"
  from this(2,1) show "follow_inv c y"
    by (cases rule: rstep.cases) (use follow_log follow_next in blast)+
qed

lemma same_records:
  fixes xs ys :: "(nat \<times> 'b) list"
  assumes "sorted_wrt (<) (map fst xs)" and "sorted_wrt (<) (map fst ys)" and "set xs = set ys"
  shows "xs = ys"
proof -
  have "set (map fst xs) = set (map fst ys)" using assms(3) by simp
  then have "map fst xs = map fst ys" using assms(1,2) strict_sorted_equal by blast
  moreover have "inj_on fst (set xs \<union> set ys)" using assms(1,3) by (simp add: strict_sorted_iff distinct_map)
  ultimately show ?thesis by (rule map_inj_on)
qed

subsection \<open>A run\<close>

text \<open>A reader is opened on an empty log; a record is appended and committed; the reader returns it.\<close>

definition early_reader :: reader where
  "early_reader = projr (newReader 0 (fresh_log small_opts))"

lemma fresh_fields: "segs (fresh_log op) = [newSegment 1 0 0]" "firstLSN (fresh_log op) = 1" "durable (fresh_log op) = 0" "opts (fresh_log op) = op"
  by (simp_all add: fresh_log_def)

lemma early_reader: "newReader 0 (fresh_log small_opts) = Inr early_reader"
  by (simp add: early_reader_def newReader_def Let_def)

lemma fresh_refined: "refined (fresh_log small_opts, Idle, fresh_fs)"
  using start_rel fresh_ainv unfolding refined_def by blast

lemma fresh_holds: "segs_hold (fresh_log small_opts) fresh_fs [[]]"
  by (simp add: segs_hold_def seg_holds_def fresh_fields fresh_fs_def newSegment_def)

lemma early_reader_ok: "rd_ok (fresh_log small_opts) fresh_fs [[]] early_reader \<and> rnextLSN early_reader = 1"
  using newReader_ok [OF fresh_holds early_reader]
  by (simp add: early_reader_def newReader_def Let_def snapshot_def segView_of_def newSegment_def fresh_fields)

definition early :: "log \<Rightarrow> phase \<Rightarrow> fs \<Rightarrow> follower" where
  "early l ph w = \<lparr>flog = l, fphase = ph, fdisk = w, freader = early_reader, fgot = []\<rparr>"

lemma run_firsts: "firstLSN staged1 = 1" "firstLSN taken1 = 1" "firstLSN written1 = 1" "firstLSN settled1 = 1"
  by (simp_all add: settled1_def resolve_def written1_def set_active_def taken1_def newRound_def) (simp_all add: fresh_log_def)

lemma run_tsteps: "(tstep c)\<^sup>*\<^sup>* (fresh_log small_opts, Idle, fresh_fs) (settled1, Idle, written_fs)"
proof -
  note a = t_log [OF l_append [OF run_staged room1, of Idle], of c] and b = t_log [OF l_take [OF run_taken, of staged_fs], of c]
    and c = t_log [OF l_write [OF run_written], of c] and d = t_log [OF l_settle [OF run_settled, of written_fs], of c]
  show ?thesis using a b c d by (simp add: run_firsts fresh_fields)
qed

lemma early_steps: "(tstep (unat (rnextLSN early_reader)))\<^sup>*\<^sup>* s (l', ph', w') \<Longrightarrow> s = (l, ph, w) \<Longrightarrow> rstep\<^sup>*\<^sup>* (early l ph w) (early l' ph' w')"
proof (induction s arbitrary: l ph w rule: converse_rtranclp_induct)
  case base
  then show ?case by simp
next
  case (step y z)
  obtain l1 ph1 w1 where z: "z = (l1, ph1, w1)" by (metis prod_cases3)
  have "rstep (early l ph w) (early l1 ph1 w1)" using r_log [of "early l ph w" l1 ph1 w1] step.hyps(1) step.prems z by (simp add: early_def)
  then show ?case using step.IH [OF z] by (rule converse_rtranclp_into_rtranclp)
qed

lemma early_run: "rstep\<^sup>*\<^sup>* (early (fresh_log small_opts) Idle fresh_fs) (early settled1 Idle written_fs)"
  using early_steps [OF run_tsteps] by blast

lemma early_next: "\<exists>r'. readerNext settled1 early_reader written_fs = (Inr (1, [7]), r', written_fs) \<and> rnextLSN r' = 2"
proof -
  have "follow_inv 1 (early (fresh_log small_opts) Idle fresh_fs)"
    using fresh_refined fresh_holds early_reader_ok
    by (intro follow_invI [where pss = "[[]]"]) (simp_all add: early_def followed_def fresh_fields active_def seg_end_def newSegment_def contents_def seg_entries_def)
  from follow.steps_inv [OF early_run this] obtain pss where ref: "refined (settled1, Idle, written_fs)"
      and h: "segs_hold settled1 written_fs pss" and ok: "rd_ok settled1 written_fs pss early_reader"
    by (auto simp: follow_inv_def followed_def early_def)
  have "pss = [[[7]]]" using segs_hold_unique [OF h settled_holds] refined_limits [OF ref] by blast
  obtain res r' w' where c: "readerNext settled1 early_reader written_fs = (res, r', w')" by (metis prod_cases3)
  have calm: "faults written_fs = []" by (simp add: written_fs_def staged_fs_def)
  from readerNext_calm [OF settled_holds _ _ _ calm settled_hollow _ _ c] small_opts_ok ok \<open>pss = _\<close> early_reader_ok
  have r: "w' = written_fs" "\<exists>n. res = Inr (n, [7]) \<and> unat n = 1"
    unfolding settled_contents by (simp_all add: settled_fields newSegment_def)
  then have "res = Inr (1, [7])" by (auto simp: word_eq_unat)
  moreover have "unat (rnextLSN r') = 2"
    using readerNext_ok [OF settled_holds _ _ _ c] small_opts_ok ok \<open>pss = _\<close> calculation by (simp add: settled_fields)
  ultimately show ?thesis using c r by (auto simp: word_eq_unat)
qed

subsection \<open>Properties\<close>

text \<open>C29. A reader keeps its place in a log that changes. Whatever is appended, committed, rolled back, rotated and truncated below the cursor between its
  calls, and whatever I/O errors there are, it returns each record at most once and in the order of the numbers, and what the log still has of the
  records it returned are exactly the log's records from where it started up to its cursor: it leaves none out, and returns none of a round
  that failed.\<close>

theorem reader_follows_the_log:
  assumes "refined (l, ph, w)" and "segs_hold l w pss" and "rd_ok l w pss r" and "unat (rnextLSN r) \<le> seg_end (active l)"
    and "rstep\<^sup>*\<^sup>* \<lparr>flog = l, fphase = ph, fdisk = w, freader = r, fgot = []\<rparr> x"
  shows "\<exists>pss'. segs_hold (flog x) (fdisk x) pss' \<and> sorted_wrt (<) (map fst (fgot x))
     \<and> filter (\<lambda>e. unat (firstLSN (flog x)) \<le> fst e) (fgot x)
       = filter (\<lambda>e. unat (rnextLSN r) \<le> fst e \<and> fst e < unat (rnextLSN (freader x))) (contents (segs (flog x)) pss')"
proof -
  have "follow_inv (unat (rnextLSN r)) \<lparr>flog = l, fphase = ph, fdisk = w, freader = r, fgot = []\<rparr>"
    using assms(1-4) by (intro follow_invI [where pss = pss]) (auto simp: followed_def)
  from follow.steps_inv [OF assms(5) this] have inv: "follow_inv (unat (rnextLSN r)) x" .
  then obtain pss' where h: "segs_hold (flog x) (fdisk x) pss'" and out: "sorted_wrt (<) (map fst (fgot x))"
    and set: "\<forall>e \<in> set (fgot x). unat (rnextLSN r) \<le> fst e \<and> fst e < unat (rnextLSN (freader x))"
      "\<forall>e \<in> set (contents (segs (flog x)) pss'). unat (rnextLSN r) \<le> fst e \<longrightarrow> fst e < unat (rnextLSN (freader x)) \<longrightarrow> e \<in> set (fgot x)"
      "\<forall>e \<in> set (fgot x). e \<in> set (contents (segs (flog x)) pss') \<or> fst e < unat (firstLSN (flog x))"
    unfolding follow_inv_def followed_def by blast
  let ?cs = "contents (segs (flog x)) pss'"
  have cs: "sorted_wrt (<) (map fst ?cs)" "\<forall>e \<in> set ?cs. unat (firstLSN (flog x)) \<le> fst e"
    using contents_sorted [of "maxRecord (flog x)" "fdisk x" "segs (flog x)" pss'] h inv refined_limits
    by (auto simp: segs_hold_def follow_inv_def)
  have srt: "sorted_wrt (<) (map fst (filter P xs))" if "sorted_wrt (<) (map fst xs)" for P and xs :: "(nat \<times> bytes) list"
    using that by (simp add: sorted_wrt_map sorted_wrt_filter)
  have "filter (\<lambda>e. unat (firstLSN (flog x)) \<le> fst e) (fgot x)
       = filter (\<lambda>e. unat (rnextLSN r) \<le> fst e \<and> fst e < unat (rnextLSN (freader x))) ?cs"
    by (rule same_records [OF srt [OF out] srt [OF cs(1)]]) (use set cs(2) in fastforce)
  then show ?thesis using h out by blast
qed

theorem reader_follows_the_log_witness:
  "\<exists>(x :: follower) pss. flog x = settled1 \<and> fgot x = [(1, [7])] \<and> segs_hold settled1 (fdisk x) pss
     \<and> [(1, [7])] = filter (\<lambda>e. unat (rnextLSN early_reader) \<le> fst e \<and> fst e < unat (rnextLSN (freader x))) (contents (segs settled1) pss)"
proof -
  obtain r' where r': "readerNext settled1 early_reader written_fs = (Inr (1, [7]), r', written_fs)" "rnextLSN r' = 2" using early_next by blast
  define x where "x = (early settled1 Idle written_fs)\<lparr>freader := r', fgot := [(1, [7])]\<rparr>"
  have "rstep (early settled1 Idle written_fs) x"
    using r_next [of "early settled1 Idle written_fs" "Inr (1, [7])" r' written_fs] r'(1) by (simp add: early_def x_def)
  then have run: "rstep\<^sup>*\<^sup>* \<lparr>flog = fresh_log small_opts, fphase = Idle, fdisk = fresh_fs, freader = early_reader, fgot = []\<rparr> x"
    using early_run by (simp add: early_def [of "fresh_log small_opts"])
  have x: "flog x = settled1" "fgot x = [(1, [7])]" by (simp_all add: x_def early_def)
  have "unat (rnextLSN early_reader) \<le> seg_end (active (fresh_log small_opts))"
    using early_reader_ok by (simp add: fresh_fields active_def seg_end_def newSegment_def)
  from reader_follows_the_log [OF fresh_refined fresh_holds _ this run] early_reader_ok obtain pss where
    p: "segs_hold settled1 (fdisk x) pss" "filter (\<lambda>e. unat (firstLSN settled1) \<le> fst e) [(1, [7])]
       = filter (\<lambda>e. unat (rnextLSN early_reader) \<le> fst e \<and> fst e < unat (rnextLSN (freader x))) (contents (segs settled1) pss)"
    unfolding x by blast
  have one: "filter (\<lambda>e. unat (firstLSN settled1) \<le> fst e) [(1, [7 :: byte])] = [(1, [7])]" by (simp add: run_firsts)
  show ?thesis using x p(1) trans [OF one [symmetric] p(2)] by blast
qed

end
