(* ===== verification/ReaderStuck.thy ===== *)
theory ReaderStuck
  imports ReaderGrowth Recovery
begin

text \<open>
  Where a reader cannot pass. \<^verbatim>\<open>position\<close> in \<^verbatim>\<open>reader.go\<close> steps over a gap only to a segment that has records, and
  the gap in front of the segment behind an empty one starts above the cursor.
\<close>

subsection \<open>An empty segment behind a gap\<close>

text \<open>The cursor \<open>n\<close> lies in the gap in front of segment \<open>j\<close>, which has no records and is not the last.\<close>

definition before_empty :: "log \<Rightarrow> nat \<Rightarrow> nat \<Rightarrow> bool" where
  "before_empty l j n \<longleftrightarrow> Suc j < length (segs l) \<and> segCount (segs l ! j) = 0
     \<and> unat (prevEnd (segs l ! j)) < n \<and> n < unat (baseLSN (segs l ! j))"

lemma nothing_covers:
  assumes h: "segs_hold l w pss" and e: "before_empty l j (unat n)" and i: "i < length (segs l)"
  shows "\<not> (baseLSN (segs l ! i) \<le> n \<and> unat n < seg_end (segs l ! i))"
    and "\<not> (prevEnd (segs l ! i) < n \<and> n < baseLSN (segs l ! i) \<and> 0 < segCount (segs l ! i))"
proof -
  have j: "Suc j < length (segs l)" "segCount (segs l ! j) = 0" "unat (prevEnd (segs l ! j)) < unat n"
      "unat n < unat (baseLSN (segs l ! j))"
    using e by (auto simp: before_empty_def)
  have ej: "seg_end (segs l ! j) = unat (baseLSN (segs l ! j))" using j(2) by (simp add: seg_end_def)
  consider "i < j" | "i = j" | "j < i" by linarith
  then have "\<not> (baseLSN (segs l ! i) \<le> n \<and> unat n < seg_end (segs l ! i))
     \<and> \<not> (prevEnd (segs l ! i) < n \<and> n < baseLSN (segs l ! i) \<and> 0 < segCount (segs l ! i))"
  proof cases
    case 1
    then have "seg_end (segs l ! i) \<le> unat n" using ends_before(1) [OF h 1] j by simp
    moreover have "unat (baseLSN (segs l ! i)) \<le> seg_end (segs l ! i)" by (simp add: seg_end_def)
    ultimately show ?thesis by (simp add: word_less_nat_alt)
  next
    case 2
    then show ?thesis using j by (simp add: word_le_nat_alt)
  next
    case 3
    have "unat n < unat (baseLSN (segs l ! i))" using ends_before(2) [OF h 3 i] ej j(4) by simp
    moreover have "unat n \<le> unat (prevEnd (segs l ! i))" using ends_before(1) [OF h 3 i] ej j(4) by simp
    ultimately show ?thesis by (simp add: word_le_nat_alt word_less_nat_alt)
  qed
  then show "\<not> (baseLSN (segs l ! i) \<le> n \<and> unat n < seg_end (segs l ! i))"
    and "\<not> (prevEnd (segs l ! i) < n \<and> n < baseLSN (segs l ! i) \<and> 0 < segCount (segs l ! i))" by blast+
qed

lemma find_none:
  assumes h: "segs_hold l w pss" and v: "views_ok l pss vs n" and e: "before_empty l j (unat n)"
  shows "find n vs = None"
proof (rule ccontr)
  assume "find n vs \<noteq> None"
  then obtain i where "find n vs = Some i" by blast
  then have i: "i < length vs" "vbase (vs ! i) \<le> n" "n < vbase (vs ! i) + vcount (vs ! i)" using find_hit by blast+
  have lt: "unat n < unat (vbase (vs ! i)) + unat (vcount (vs ! i))"
  proof (rule ccontr)
    assume a: "\<not> unat n < unat (vbase (vs ! i)) + unat (vcount (vs ! i))"
    then have "unat (vbase (vs ! i)) + unat (vcount (vs ! i)) \<le> unat n" by simp
    from le_less_trans [OF this unat_u64_bound]
    have "unat (vbase (vs ! i) + vcount (vs ! i)) = unat (vbase (vs ! i)) + unat (vcount (vs ! i))"
      using unat_plus_no_wrap [of "vbase (vs ! i)" "vcount (vs ! i)"] by simp
    then show False using a i(3) by (simp add: word_less_nat_alt)
  qed
  moreover have "(\<exists>k < length (segs l). view_of (vs ! i) (segs l ! k) (pss ! k)) \<or> unat (vbase (vs ! i)) + unat (vcount (vs ! i)) \<le> unat n"
    using v i(1) nth_mem unfolding views_ok_def by blast
  ultimately obtain k where k: "k < length (segs l)" "view_of (vs ! i) (segs l ! k) (pss ! k)" by auto
  then have "vbase (vs ! i) = baseLSN (segs l ! k)" "unat (vcount (vs ! i)) \<le> length (pss ! k)" by (auto simp: view_of_def)
  then have "baseLSN (segs l ! k) \<le> n" "unat n < seg_end (segs l ! k)"
    using i(2) lt seg_holds_end [OF seg_nth [OF h k(1)]] by simp_all
  then show False using nothing_covers(1) [OF h e k(1)] by blast
qed

lemma stepOver_none:
  assumes h: "segs_hold l w pss" and e: "before_empty l j (unat n)"
  shows "stepOver n (fst (snapshot l)) = None"
proof -
  have "\<not> (gapBefore (fst (snapshot l) ! i) n \<and> vcount (fst (snapshot l) ! i) > 0)" if "i < length (segs l)" for i
    using nothing_covers(2) [OF h e that] that by (simp add: snapshot_def segView_of_def gapBefore_def)
  then show ?thesis by (auto simp: stepOver_def find_None_iff snapshot_def)
qed

lemma stuck_call:
  assumes h: "segs_hold l w pss" and ok: "rd_ok l w pss r" and e: "before_empty l j (unat (rnextLSN r))"
    and call: "readerNext l r w = (res, r', w')"
  shows "w' = w \<and> rnextLSN r' = rnextLSN r \<and> rd_ok l w pss r' \<and> (res = Inl ErrNoData \<or> res = Inl ErrTruncated)"
proof -
  define r0 where "r0 = (if rnextLSN r > rdurable r then refresh l r else r)"
  have n0: "rnextLSN r0 = rnextLSN r" and ok0: "rd_ok l w pss r0" using rd_ok_refresh [OF h ok] ok by (simp_all add: r0_def)
  have f: "find (rnextLSN r) (rviews r0) = None" "find (rnextLSN r) (fst (snapshot l)) = None"
      "stepOver (rnextLSN r) (fst (snapshot l)) = None"
    using find_none [OF h rd_ok_views [OF ok0]] find_none [OF h views_ok_snapshot [OF h]] stepOver_none [OF h] e n0 by auto
  have v: "rviews (refresh l r0) = fst (snapshot l)" "rnextLSN (refresh l r0) = rnextLSN r" using n0 by (simp_all add: refresh_def)
  have p: "position l r0 w = (if rviews (refresh l r0) \<noteq> [] \<and> rnextLSN r < vbase (hd (rviews (refresh l r0)))
      then (Inl ErrTruncated, refresh l r0, w) else (Inl ErrNoData, refresh l r0, w))"
    using f v n0 by (simp add: position_def Let_def)
  have "readerNext l r w = (if rnextLSN r > rdurable r0 then (Inl ErrNoData, r0, w)
      else case position l r0 w of (Inl e, r1, w1) \<Rightarrow> (Inl e, r1, w1) | (Inr _, r1, w1) \<Rightarrow> (Inl ErrNoData, r1, w1))"
    by (simp add: readerNext_def r0_def [symmetric] Let_def n0 p)
  then show ?thesis using call ok0 n0 rd_ok_refresh [OF h ok0] v by (auto simp: p split: if_splits)
qed


text \<open>An empty segment that is not the last stays empty, and a truncation below the cursor stops in front of it.\<close>

lemma stays_empty:
  assumes ex: "extends l w pss l' w' pss'" and h: "segs_hold l w pss" and e: "before_empty l j n"
  shows "before_empty l' j n"
proof -
  have j: "Suc j < length (segs l)" "segCount (segs l ! j) = 0" using e by (auto simp: before_empty_def)
  have h': "segs_hold l' w' pss'" and f: "follows l w pss l' w' pss'" using ex by (auto simp: extends_def)
  have eq: "baseLSN (segs l' ! j) = baseLSN (segs l ! j)" "prevEnd (segs l' ! j) = prevEnd (segs l ! j)" and len: "Suc j < length (segs l')"
    using f j(1) by (auto simp: follows_def)
  have "pss' ! j = []"
  proof (rule ccontr)
    assume ne: "pss' ! j \<noteq> []"
    then have "(unat (baseLSN (segs l ! j)), pss' ! j ! 0) \<in> set (contents (segs l') pss')"
      unfolding in_contents [OF h'] using eq len by (intro exI [of _ j] conjI exI [of _ 0]) simp_all
    moreover have "(unat (baseLSN (segs l ! j)), q) \<notin> set (contents (segs l) pss)" for q
    proof
      assume "(unat (baseLSN (segs l ! j)), q) \<in> set (contents (segs l) pss)"
      then obtain i k where i: "i < length (segs l)" "k < length (pss ! i)" "unat (baseLSN (segs l ! j)) = unat (baseLSN (segs l ! i)) + k"
        unfolding in_contents [OF h] by blast
      have "i \<noteq> j" using i(2) j(2) seg_holds_count [OF seg_nth [OF h i(1)]] by auto
      then consider "i < j" | "j < i" by linarith
      then show False
      proof cases
        case 1
        then show ?thesis using ends_before(2) [OF h 1] j(1) i seg_holds_end [OF seg_nth [OF h i(1)]] by simp
      next
        case 2
        then show ?thesis using bases_ascend [OF h 2 i(1)] i(3) by simp
      qed
    qed
    moreover have "unat (baseLSN (segs l ! j)) < seg_end (active l)"
    proof -
      have "unat (baseLSN (segs l ! j)) < unat (baseLSN (segs l ! Suc j))" using bases_ascend [OF h _ j(1)] by simp
      moreover have "unat (baseLSN (segs l ! Suc j)) \<le> seg_end (active l)" using bases_below_end [OF h] j(1) nth_mem by blast
      ultimately show ?thesis by simp
    qed
    ultimately show False using ex by (auto simp: extends_def in_numbered)
  qed
  then have "segCount (segs l' ! j) = 0"
    using seg_nth [OF h' Suc_lessD [OF len]] by (simp add: seg_holds_def)
  then show ?thesis using e eq len by (simp add: before_empty_def)
qed

lemma truncate_keeps_empty:
  assumes t: "truncateLog lim l w = (res, l', w')" and lim: "unat lim \<le> n" and h: "segs_hold l w pss" and ok: "fs_ok w"
    and e: "before_empty l j n"
  shows "\<exists>j'. before_empty l' j' n"
proof -
  obtain k b where k: "k \<le> dropCount lim (segs l)" "l' = l\<lparr>segs := drop k (segs l), firstLSN := b\<rparr>"
    using truncateLog_shape [OF t h ok] by blast
  have j: "Suc j < length (segs l)" "segCount (segs l ! j) = 0" "n < unat (baseLSN (segs l ! j))"
    using e by (auto simp: before_empty_def)
  have "k \<le> j"
  proof (rule ccontr)
    assume "\<not> k \<le> j"
    then have "segs l ! j \<in> set (take (dropCount lim (segs l)) (segs l))"
      using k(1) j(1) by (auto simp: in_set_conv_nth intro!: exI [of _ j])
    then have "unat (lastLSN (segs l ! j)) < unat lim" using dropCount_below by (simp add: word_less_unat)
    moreover have "unat (lastLSN (segs l ! j)) = unat (baseLSN (segs l ! j)) - 1"
      using seg_holds_lastLSN [OF seg_nth [OF h, of j]] j by (simp add: seg_end_def)
    ultimately show False using j(3) lim by simp
  qed
  then show ?thesis using e k(2) by (intro exI [of _ "j - k"]) (simp add: before_empty_def less_diff_conv)
qed

text \<open>A reader that is stuck in front of such a segment.\<close>

definition stuck :: "u64 \<Rightarrow> follower \<Rightarrow> bool" where
  "stuck n x \<longleftrightarrow> refined (flog x, fphase x, fdisk x) \<and> rnextLSN (freader x) = n \<and> fgot x = []
     \<and> (\<exists>pss j. segs_hold (flog x) (fdisk x) pss \<and> rd_ok (flog x) (fdisk x) pss (freader x) \<and> before_empty (flog x) j (unat n))"

interpretation stuck: invariant_system rstep "stuck n" for n
proof
  fix x y assume inv: "stuck n x" and st: "rstep x y"
  obtain pss j where ref: "refined (flog x, fphase x, fdisk x)" and n: "rnextLSN (freader x) = n" "fgot x = []"
    and h: "segs_hold (flog x) (fdisk x) pss" and ok: "rd_ok (flog x) (fdisk x) pss (freader x)" and e: "before_empty (flog x) j (unat n)"
    using inv unfolding stuck_def by blast
  from st show "stuck n y"
  proof (cases rule: rstep.cases)
    case (r_log l ph w)
    have ref': "refined (l, ph, w)" using refined.step_inv [OF ref tstep_lstep [OF r_log(2)]] .
    obtain pss' where h': "segs_hold l w pss'" "rd_ok l w pss' (freader x)" using tstep_beside [OF r_log(2) order_refl ref h ok] by blast
    from r_log(2) have "\<exists>j'. before_empty l j' (unat n)"
    proof (cases rule: tstep.cases)
      case t_log
      from lstep_extends [OF t_log(1) ref h t_log(2)] stays_empty [OF _ h e] show ?thesis by blast
    next
      case (t_truncate lim res)
      from truncate_keeps_empty [OF t_truncate(2) _ h refined_fs_ok [OF ref] e] t_truncate n(1) show ?thesis by blast
    qed
    then show ?thesis using ref' h' n r_log(1) unfolding stuck_def by auto
  next
    case (r_next res r w)
    have c: "w = fdisk x" "rnextLSN r = n" "rd_ok (flog x) (fdisk x) pss r" "got res = []"
      using stuck_call [OF h ok _ r_next(2), of j] e n by auto
    then show ?thesis using ref h e n r_next(1) unfolding stuck_def by auto
  qed
qed

subsection \<open>Where such segments come from\<close>

lemma recoverSegs_appends:
  "recoverSegs op now names segs0 r reps w = (Inr (ss, r', reps'), w') \<Longrightarrow> \<exists>more. ss = segs0 @ more"
proof (induction op now names segs0 r reps arbitrary: w rule: recoverSegs.induct)
  case (1 op now segs0 r reps)
  then show ?case by simp
next
  case (2 op now name rest segs0 r reps)
  then obtain cnt good r1 nxt reps1 w1 where
      e: "examineSegment op now name rest r reps w = (Inr (cnt, good, r1, nxt, reps1), w1)"
    by (auto simp: io_bind_Inr)
  show ?case using "2.prems" e "2.IH" by (fastforce simp: io_bind_def Let_def split: if_splits)
qed

text \<open>Salvage makes such segments: where the first record of a segment is damaged, it keeps the segment with no records.\<close>

lemma salvage_empties:
  assumes rec: "recoverSegs op now ((b, p) # rest) segs0 r reps w = (Inr (ss, r', reps'), w')" and calm: "faults w = []"
    and f: "file_at w (segmentName b p) = Some ((frame q)[i := v] @ t)" and t: "t \<noteq> []"
    and q: "limit_ok (nat (MaxRecordBytes op))" "length q \<le> nat (MaxRecordBytes op)" "4 \<le> i" "i < length (frame q)" "v \<noteq> frame q ! i"
  shows "length segs0 < length ss \<and> baseLSN (ss ! length segs0) = b \<and> prevEnd (ss ! length segs0) = p \<and> segCount (ss ! length segs0) = 0"
proof -
  obtain ino where ino: "map_of (dents w) (segmentName b p) = Some ino" "data w ino = (frame q)[i := v] @ t"
    using f by (auto simp: file_at_def lookup_name_def)
  have sc: "scanSegment (segmentName b p) (nat (MaxRecordBytes op)) w
      = ((0, 0, False, Some (Wrap ''record fails its checksum'' [ErrCorrupt])), w)"
    using scanSegment_calm [OF calm ino(1)] scan_interior_damage [OF q(1) _ q(2) t q(3-5), of "[]"] ino(2) by simp
  obtain cnt good r1 nxt reps1 w1 where ex: "examineSegment op now (b, p) rest r reps w = (Inr (cnt, good, r1, nxt, reps1), w1)"
    using rec by (auto simp: io_bind_Inr)
  have cnt: "cnt = 0" using ex by (auto simp: examineSegment_def sc Let_def split: if_splits prod.splits sum.splits)
  let ?s = "\<lparr>baseLSN = b, segPath = segmentName b p, prevEnd = p, segFile = None, segShut = False, segSize = good, segCount = cnt\<rparr>"
  have "recoverSegs op now (relink rest nxt) (segs0 @ [?s]) r1 reps1 w1 = (Inr (ss, r', reps'), w')"
    using rec ex by (auto simp: io_bind_def Let_def split: if_splits)
  then have "\<exists>more. ss = (segs0 @ [?s]) @ more" by (rule recoverSegs_appends)
  then show ?thesis using cnt by auto
qed


subsection \<open>A log with one\<close>

text \<open>
  A log of three segments: one record, numbered 1; then, behind a gap, a segment that salvage has cut
  back to nothing; then one with a record again, linked to the end of the empty one.
\<close>

definition hollow_segs :: "segment list" where
  "hollow_segs = [
     \<lparr>baseLSN = 1, segPath = segmentName 1 0, prevEnd = 0, segFile = None, segShut = False,
       segSize = length (frames [[7]]), segCount = 1\<rparr>,
     \<lparr>baseLSN = 5, segPath = segmentName 5 1, prevEnd = 1, segFile = None, segShut = False, segSize = 0, segCount = 0\<rparr>,
     \<lparr>baseLSN = 9, segPath = segmentName 9 4, prevEnd = 4, segFile = Some 2, segShut = False,
       segSize = length (frames [[8]]), segCount = 1\<rparr>]"

definition hollow_log :: log where
  "hollow_log = openedLog small_opts 0 ''ID'' hollow_segs 9"

definition hollow_fs :: fs where
  "hollow_fs = \<lparr>dents = [(segmentName 1 0, 0), (segmentName 5 1, 1), (segmentName 9 4, 2)],
     sdents = [(segmentName 1 0, 0), (segmentName 5 1, 1), (segmentName 9 4, 2)], subdirs = [],
     data = (\<lambda>_. [])(0 := frames [[7]], 2 := frames [[8]]), stable = (\<lambda>_. [])(0 := frames [[7]], 2 := frames [[8]]),
     nextIno = 3, faults = []\<rparr>"

lemma hollow_holds: "segs_hold hollow_log hollow_fs [[[7]], [], [[8]]]"
  by (simp add: segs_hold_def hollow_log_def openedLog_def hollow_segs_def seg_end_def lastLSN_def seg_holds_def hollow_fs_def seg_exact_def)
    (simp add: small_opts_def)

lemma hollow_refined: "refined (hollow_log, Idle, hollow_fs)"
proof -
  have "tail_clean hollow_log hollow_fs"
    by (simp add: tail_clean_def active_def hollow_log_def openedLog_def hollow_segs_def hollow_fs_def)
  moreover have "fs_ok hollow_fs" by (simp add: fs_ok_def hollow_fs_def is_tmp_def is_meta_def) 
  moreover have "seg_end (active hollow_log) = 10"
    by (simp add: seg_end_def active_def hollow_log_def openedLog_def hollow_segs_def)
  ultimately show ?thesis
    using opened_refines [OF hollow_holds _ _ hollow_log_def small_opts_ok, of 10] unfolding refined_def by auto
qed

definition hollow_reader :: reader where
  "hollow_reader = projr (newReader 2 hollow_log)"

lemma hollow_reader_ok: "rd_ok hollow_log hollow_fs [[[7]], [], [[8]]] hollow_reader \<and> rnextLSN hollow_reader = 2"
proof -
  have "newReader 2 hollow_log = Inr hollow_reader"
    by (simp add: hollow_reader_def newReader_def Let_def snapshot_def segView_of_def hollow_log_def openedLog_def hollow_segs_def)
  from newReader_ok [OF hollow_holds this] show ?thesis
    by (simp add: hollow_reader_def newReader_def Let_def snapshot_def segView_of_def hollow_log_def openedLog_def hollow_segs_def)
qed

subsection \<open>Properties\<close>

text \<open>C32. An emptied segment behind a gap stops a reader for good. The cursor is in the gap in front of a segment that
  has no records and is not the log's last; salvage leaves one when the first record of a segment is
  damaged (\<open>salvage_empties\<close>). Then, whatever is appended, committed, rotated and truncated below the cursor
  from then on, and whatever records follow the empty segment, the reader never returns a record again:
  every call reports that there is no data, or, once the segments in front of the gap are truncated
  away, that the cursor's records are gone, and the cursor stays where it is.\<close>

theorem reader_stuck_at_emptied_segment:
  assumes "refined (l, ph, w)" and "segs_hold l w pss" and "rd_ok l w pss r" and "before_empty l j (unat (rnextLSN r))"
    and "rstep\<^sup>*\<^sup>* \<lparr>flog = l, fphase = ph, fdisk = w, freader = r, fgot = []\<rparr> x"
  shows "fgot x = [] \<and> rnextLSN (freader x) = rnextLSN r
     \<and> (\<exists>e r'. readerNext (flog x) (freader x) (fdisk x) = (Inl e, r', fdisk x) \<and> rnextLSN r' = rnextLSN r \<and> e \<in> {ErrNoData, ErrTruncated})"
proof -
  have "stuck (rnextLSN r) \<lparr>flog = l, fphase = ph, fdisk = w, freader = r, fgot = []\<rparr>" using assms(1-4) unfolding stuck_def by auto
  from stuck.steps_inv [OF assms(5) this] obtain pss' j' where
      n: "rnextLSN (freader x) = rnextLSN r" "fgot x = []" and h: "segs_hold (flog x) (fdisk x) pss'"
      "rd_ok (flog x) (fdisk x) pss' (freader x)" "before_empty (flog x) j' (unat (rnextLSN (freader x)))"
    unfolding stuck_def by metis
  obtain res r' w' where c: "readerNext (flog x) (freader x) (fdisk x) = (res, r', w')" by (metis prod_cases3)
  from stuck_call [OF h c] n c show ?thesis by auto
qed

theorem reader_stuck_at_emptied_segment_witness:
  "(9, [8]) \<in> set (contents (segs hollow_log) [[[7]], [], [[8]]]) \<and> durable hollow_log = 9
   \<and> (\<exists>e r'. readerNext hollow_log hollow_reader hollow_fs = (Inl e, r', hollow_fs) \<and> rnextLSN r' = 2 \<and> e \<in> {ErrNoData, ErrTruncated})"
proof -
  have "before_empty hollow_log 1 (unat (rnextLSN hollow_reader))"
    using hollow_reader_ok by (simp add: before_empty_def hollow_log_def openedLog_def hollow_segs_def)
  from reader_stuck_at_emptied_segment [OF hollow_refined hollow_holds _ this rtranclp.rtrancl_refl] hollow_reader_ok
  have "\<exists>e r'. readerNext hollow_log hollow_reader hollow_fs = (Inl e, r', hollow_fs) \<and> rnextLSN r' = 2 \<and> e \<in> {ErrNoData, ErrTruncated}"
    by simp
  moreover have "(9, [8]) \<in> set (contents (segs hollow_log) [[[7]], [], [[8]]])" "durable hollow_log = 9"
    by (simp_all add: hollow_log_def openedLog_def hollow_segs_def contents_def seg_entries_def lastLSN_def lastRecordLSN_def)
  ultimately show ?thesis by blast
qed

end
