(* ===== verification/Support.thy ===== *)
theory Support
  imports Complex_Main Prelude
begin

text \<open>
  Three small parts of \<^verbatim>\<open>internal_support.go\<close>: recovering from a panic in code the buffer calls, the
  broadcast gate, and the retry ladder.

  A \<^verbatim>\<open>float64\<close> is a real number here: the rounding of the hardware, infinities and NaN are not
  modelled. The random number that jitter draws is an argument, from the half-open unit interval.
\<close>

subsection \<open>Panics\<close>

text \<open>What a call into foreign code comes to: it returns, or it panics with a message.\<close>

datatype 'a outcome = Returns 'a | Panics string

definition protect :: "'a outcome \<Rightarrow> error option" where
  "protect r = (case r of Returns _ \<Rightarrow> None | Panics v \<Rightarrow> Some (Wrap v [BErrPanic]))"

lemma protect_simps [simp]: "protect (Returns x) = None" "protect (Panics v) = Some (Wrap v [BErrPanic])"
  by (simp_all add: protect_def)

subsection \<open>The gate\<close>

text \<open>
  Channels are numbered in the order in which they are made; the gate holds the newest, and the ones
  before it are closed.
\<close>

record gate =
  gch :: nat

definition newGate :: gate where
  "newGate = \<lparr>gch = 0\<rparr>"

definition gateWait :: "gate \<Rightarrow> nat" where
  "gateWait g = gch g"

definition signal :: "gate \<Rightarrow> gate" where
  "signal g = g\<lparr>gch := Suc (gch g)\<rparr>"

definition isClosed :: "nat \<Rightarrow> gate \<Rightarrow> bool" where
  "isClosed c g \<longleftrightarrow> c < gch g"

lemma gate_no_lost_wakeup: "isClosed (gateWait g) ((signal ^^ n) g) \<longleftrightarrow> 0 < n"
  by (induction n) (auto simp: isClosed_def gateWait_def signal_def)

subsection \<open>Backoff\<close>

record backoff =
  Initial :: duration
  MaxDelay :: duration
  Factor :: real
  Jitter :: real

definition millis :: "int \<Rightarrow> duration" where
  "millis k = k * 1000000"

definition seconds :: "int \<Rightarrow> duration" where
  "seconds k = k * 1000000000"

definition backoffDefaults :: "backoff \<Rightarrow> backoff" where
  "backoffDefaults b =
     (let b1 = (if Initial b \<le> 0 then b\<lparr>Initial := millis 100\<rparr> else b);
          b2 = (if MaxDelay b1 \<le> 0 then b1\<lparr>MaxDelay := seconds 30\<rparr> else b1);
          b3 = (if Factor b2 \<le> 1 then b2\<lparr>Factor := 2\<rparr> else b2)
      in b3\<lparr>Jitter := min (max (Jitter b3) 0) 1\<rparr>)"

text \<open>The loop of \<^verbatim>\<open>delay\<close>, and the conversion from a float to an integer, which cuts off the fraction.\<close>

primrec ladder :: "nat \<Rightarrow> real \<Rightarrow> backoff \<Rightarrow> real" where
  "ladder 0 d b = d"
| "ladder (Suc k) d b =
     (let d' = d * Factor b in if d' \<ge> of_int (MaxDelay b) then of_int (MaxDelay b) else ladder k d' b)"

definition truncReal :: "real \<Rightarrow> int" where
  "truncReal x = (if x \<ge> 0 then \<lfloor>x\<rfloor> else \<lceil>x\<rceil>)"

definition delay :: "real \<Rightarrow> int \<Rightarrow> backoff \<Rightarrow> duration" where
  "delay u attempt b =
     (let d = ladder (nat (attempt - 1)) (of_int (Initial b)) b;
          d' = (if Jitter b > 0 then d * (1 - Jitter b + 2 * Jitter b * u) else d)
      in truncReal d')"

definition backoff_ok :: "backoff \<Rightarrow> bool" where
  "backoff_ok b \<longleftrightarrow> 0 < Initial b \<and> 0 < MaxDelay b \<and> 1 < Factor b \<and> 0 \<le> Jitter b \<and> Jitter b \<le> 1"

lemma backoffDefaults_ok: "backoff_ok (backoffDefaults b)"
  by (auto simp: backoff_ok_def backoffDefaults_def Let_def millis_def seconds_def)

lemma ladder_bounds:
  assumes "backoff_ok b" and "0 < d"
  shows "0 < ladder k d b \<and> ladder k d b \<le> max d (of_int (MaxDelay b))"
  using assms(2)
proof (induction k arbitrary: d)
  case (Suc k)
  have "0 < d * Factor b" using Suc.prems assms(1) by (simp add: backoff_ok_def)
  from Suc.IH [OF this] show ?case using assms(1) by (auto simp: Let_def backoff_ok_def)
qed auto

lemma ladder_mono:
  assumes "backoff_ok b" and "0 < d" and "d \<le> of_int (MaxDelay b)"
  shows "ladder k d b \<le> ladder (Suc k) d b"
  using assms(2,3)
proof (induction k arbitrary: d)
  case 0
  have "d * 1 \<le> d * Factor b" using 0 assms(1) by (intro mult_left_mono) (auto simp: backoff_ok_def)
  then show ?case using 0 by (simp add: Let_def)
next
  case (Suc k)
  have "0 < d * Factor b" using Suc.prems assms(1) by (simp add: backoff_ok_def)
  then show ?case using Suc.IH [of "d * Factor b"] by (simp add: Let_def)
qed

text \<open>The ladder reaches its ceiling, and stays there.\<close>

lemma ladder_grows:
  assumes "backoff_ok b" and "0 < d"
  shows "ladder k d b = of_int (MaxDelay b) \<or> ladder k d b = d * Factor b ^ k"
  using assms(2)
proof (induction k arbitrary: d)
  case (Suc k)
  have "0 < d * Factor b" using Suc.prems assms(1) by (simp add: backoff_ok_def)
  from Suc.IH [OF this] show ?case by (auto simp: Let_def mult.assoc)
qed simp

lemma ladder_ceiling:
  assumes ok: "backoff_ok b" and d: "0 < d" "d \<le> of_int (MaxDelay b)"
  shows "\<exists>n. \<forall>k \<ge> n. ladder k d b = of_int (MaxDelay b)"
proof -
  obtain n where n: "of_int (MaxDelay b) / d < Factor b ^ n"
    using ok real_arch_pow [of "Factor b" "of_int (MaxDelay b) / d"] by (auto simp: backoff_ok_def)
  have "ladder k d b = of_int (MaxDelay b)" if "n \<le> k" for k
  proof -
    have "Factor b ^ n \<le> Factor b ^ k" using that ok by (intro power_increasing) (auto simp: backoff_ok_def)
    then have "of_int (MaxDelay b) < d * Factor b ^ k"
      using n d(1) by (metis divide_less_eq less_le_trans mult.commute)
    moreover have "ladder k d b \<le> of_int (MaxDelay b)" using ladder_bounds [OF ok d(1), of k] d(2) by simp
    ultimately show ?thesis using ladder_grows [OF ok d(1), of k] by linarith
  qed
  then show ?thesis by blast
qed

subsection \<open>Properties\<close>

text \<open>A retry delay is never negative and never unbounded: with any settings, after defaults, and any
  random draw, it lies between zero and the larger of \<^verbatim>\<open>Initial\<close> and \<^verbatim>\<open>Max\<close>, stretched by at most the
  jitter.\<close>

theorem delay_bounds:
  assumes "0 \<le> u" and "u < 1"
  shows "0 \<le> delay u attempt (backoffDefaults b)
     \<and> of_int (delay u attempt (backoffDefaults b)) \<le>
         of_int (max (Initial (backoffDefaults b)) (MaxDelay (backoffDefaults b))) * (1 + Jitter (backoffDefaults b))"
proof -
  let ?b = "backoffDefaults b"
  define d where "d = ladder (nat (attempt - 1)) (of_int (Initial ?b)) ?b"
  define j where "j = (if Jitter ?b > 0 then 1 - Jitter ?b + 2 * Jitter ?b * u else 1)"
  have ok: "0 \<le> Jitter ?b" "Jitter ?b \<le> 1" "0 < Initial ?b" using backoffDefaults_ok by (auto simp: backoff_ok_def)
  have d: "0 < d" "d \<le> of_int (max (Initial ?b) (MaxDelay ?b))"
    using ladder_bounds [OF backoffDefaults_ok, of "of_int (Initial ?b)"] ok(3) by (simp_all add: d_def of_int_max)
  have "0 \<le> Jitter ?b * u" "Jitter ?b * u \<le> Jitter ?b * 1"
    using ok(1) assms by (simp, intro mult_left_mono) simp_all
  then have j: "0 \<le> j" "j \<le> 1 + Jitter ?b" using ok by (auto simp: j_def)
  have "delay u attempt ?b = truncReal (d * j)" by (simp add: delay_def d_def j_def Let_def)
  moreover have "0 \<le> d * j" using d j by simp
  moreover have "d * j \<le> of_int (max (Initial ?b) (MaxDelay ?b)) * (1 + Jitter ?b)"
    using d j by (intro mult_mono) auto
  ultimately show ?thesis by (simp add: truncReal_def) linarith
qed

theorem delay_bounds_witness:
  "0 \<le> delay (1/2) 3 (backoffDefaults \<lparr>Initial = 0, MaxDelay = 0, Factor = 0, Jitter = 0\<rparr>)"
  using delay_bounds [of "1/2" 3 "\<lparr>Initial = 0, MaxDelay = 0, Factor = 0, Jitter = 0\<rparr>"] by simp

text \<open>Without jitter the ladder climbs and then stands still: each delay is at least the one before, and
  from some attempt on every delay is exactly the ceiling.\<close>

theorem delay_climbs_to_ceiling:
  assumes "Jitter b = 0" and "Initial (backoffDefaults b) \<le> MaxDelay (backoffDefaults b)"
  shows "(\<forall>a. delay u a (backoffDefaults b) \<le> delay u (a + 1) (backoffDefaults b))
       \<and> (\<exists>n. \<forall>a \<ge> n. delay u a (backoffDefaults b) = MaxDelay (backoffDefaults b))"
proof -
  let ?b = "backoffDefaults b"
  let ?l = "\<lambda>k. ladder k (of_int (Initial ?b)) ?b"
  have ok: "0 < Initial ?b" using backoffDefaults_ok by (simp add: backoff_ok_def)
  have d: "(0 :: real) < of_int (Initial ?b)" "of_int (Initial ?b) \<le> (of_int (MaxDelay ?b) :: real)" using ok assms(2) by simp_all
  have "Jitter ?b = 0" using assms(1) by (simp add: backoffDefaults_def Let_def)
  then have e: "delay u a ?b = \<lfloor>?l (nat (a - 1))\<rfloor>" for a
    using ladder_bounds [OF backoffDefaults_ok d(1), of "nat (a - 1)" b] by (simp add: delay_def truncReal_def)
  have "?l (nat (a - 1)) \<le> ?l (nat a)" for a
  proof (cases "a \<le> 0")
    case False
    then have "nat a = Suc (nat (a - 1))" by simp
    then show ?thesis using ladder_mono [OF backoffDefaults_ok d, of "nat (a - 1)"] by simp
  qed simp
  then have "delay u a ?b \<le> delay u (a + 1) ?b" for a unfolding e by (simp add: floor_mono)
  moreover obtain n where n: "\<forall>k \<ge> n. ?l k = of_int (MaxDelay ?b)" using ladder_ceiling [OF backoffDefaults_ok d] by blast
  then have "\<forall>a \<ge> int n + 1. delay u a ?b = MaxDelay ?b" unfolding e by (simp add: nat_le_iff le_nat_iff)
  ultimately show ?thesis by blast
qed

theorem delay_climbs_to_ceiling_witness:
  "delay 0 1 (backoffDefaults \<lparr>Initial = 1, MaxDelay = 8, Factor = 2, Jitter = 0\<rparr>)
     \<le> delay 0 2 (backoffDefaults \<lparr>Initial = 1, MaxDelay = 8, Factor = 2, Jitter = 0\<rparr>)"
  using delay_climbs_to_ceiling [of "\<lparr>Initial = 1, MaxDelay = 8, Factor = 2, Jitter = 0\<rparr>" 0]
  by (simp add: backoffDefaults_def Let_def) (metis one_add_one)

text \<open>The ceiling does not hold for the first retry: with an initial delay above it, the first delay is
  the initial one, and only the second is cut down to the ceiling.\<close>

theorem first_delay_ignores_ceiling:
  "delay u 1 (backoffDefaults \<lparr>Initial = seconds 60, MaxDelay = 0, Factor = 0, Jitter = 0\<rparr>) = seconds 60
   \<and> delay u 2 (backoffDefaults \<lparr>Initial = seconds 60, MaxDelay = 0, Factor = 0, Jitter = 0\<rparr>) = seconds 30"
  by (simp add: delay_def backoffDefaults_def truncReal_def seconds_def Let_def)

end
