(* ===== verification/Config.thy ===== *)
theory Config
  imports Wal Support
begin

text \<open>
  What a caller configures: the policies of \<^verbatim>\<open>policy.go\<close>, the vocabulary of sinks, codecs and failure
  handlers of \<^verbatim>\<open>sink.go\<close>, and the options of \<^verbatim>\<open>options.go\<close> with their validation.

  Handlers, policies and hooks are the caller's code: functions whose outcome may be a panic. A
  context is known to them only by whether it is done. Codecs have an interface, the locale \<open>codec\<close>;
  \<^verbatim>\<open>BytesCodec\<close> and \<^verbatim>\<open>StringCodec\<close> are shown to keep it.
\<close>

subsection \<open>Policies\<close>

datatype decision = DecisionBlock | DecisionReject | DecisionDropNewest | DecisionDropOldest

fun decisionString :: "decision \<Rightarrow> string" where
  "decisionString DecisionBlock = ''block''"
| "decisionString DecisionReject = ''reject''"
| "decisionString DecisionDropNewest = ''drop_newest''"
| "decisionString DecisionDropOldest = ''drop_oldest''"

record bstate =
  sRecords :: int
  sBytes :: int
  sMaxRecords :: int
  sMaxBytes :: int
  sOldestAge :: duration
  sSinkFailures :: int
  sDiskFull :: bool
  sAttempt :: int
  sWaited :: duration

type_synonym policy = "bool \<Rightarrow> bstate \<Rightarrow> decision"

definition constantPolicy :: "decision \<Rightarrow> policy" where
  "constantPolicy d = (\<lambda>_ _. d)"

definition Block :: policy where "Block = constantPolicy DecisionBlock"

definition Reject :: policy where "Reject = constantPolicy DecisionReject"

definition DropNewest :: policy where "DropNewest = constantPolicy DecisionDropNewest"

definition DropOldest :: policy where "DropOldest = constantPolicy DecisionDropOldest"

definition BlockThenDropOldest :: "duration \<Rightarrow> policy" where
  "BlockThenDropOldest grace = (\<lambda>_ s. if sOldestAge s > grace then DecisionDropOldest else DecisionBlock)"

subsection \<open>Sinks, failures and verdicts\<close>

record 'a batch =
  bID :: u64
  bLogID :: string
  bRecords :: "'a list"
  bAttempt :: nat

definition batchLen :: "'a batch \<Rightarrow> nat" where
  "batchLen b = length (bRecords b)"

record decodeFailureInfo =
  dfLSN :: u64
  dfPayload :: bytes
  dfErr :: error

datatype decodeAction = DropRecord | StopBuffer

record sinkFailure =
  sfID :: u64
  sfRecords :: int
  sfBytes :: int
  sfAttempt :: nat
  sfDeadLetter :: bool
  sfErr :: "error option"

datatype retryAction = RetryBatch | DeadLetterBatch | FailBuffer

fun retryActionString :: "retryAction \<Rightarrow> string" where
  "retryActionString RetryBatch = ''retry''"
| "retryActionString DeadLetterBatch = ''dead_letter''"
| "retryActionString FailBuffer = ''fail''"

record retryDecision =
  rdAction :: retryAction
  rdAfter :: duration

definition zeroDecision :: retryDecision where
  "zeroDecision = \<lparr>rdAction = RetryBatch, rdAfter = 0\<rparr>"

definition RetryAfter :: "duration \<Rightarrow> error option \<Rightarrow> error option" where
  "RetryAfter d err = (case err of None \<Rightarrow> None | Some e \<Rightarrow> Some (RetryAfterError d e))"

text \<open>\<^verbatim>\<open>errors.As\<close> for the delay a sink asked for: the first in the order in which errors are unwrapped.\<close>

fun retryDelayOf :: "error \<Rightarrow> duration option"
  and retryDelayIn :: "error list \<Rightarrow> duration option" where
  "retryDelayOf (RetryAfterError d e) = Some d"
| "retryDelayOf (Wrap s es) = retryDelayIn es"
| "retryDelayOf e = None"
| "retryDelayIn [] = None"
| "retryDelayIn (e # es) = (case retryDelayOf e of Some d \<Rightarrow> Some d | None \<Rightarrow> retryDelayIn es)"

subsection \<open>What happened\<close>

datatype dropReason = ReasonPolicy | ReasonDecode | ReasonRetriesExhausted

fun dropReasonString :: "dropReason \<Rightarrow> string" where
  "dropReasonString ReasonPolicy = ''policy''"
| "dropReasonString ReasonDecode = ''decode''"
| "dropReasonString ReasonRetriesExhausted = ''retries_exhausted''"

record flushInfo =
  fiID :: u64
  fiRecords :: int
  fiBytes :: int
  fiAttempt :: nat
  fiDeadLetter :: bool
  fiAction :: retryAction
  fiErr :: "error option"

text \<open>The hooks, each with what a call of it comes to; a hook may be missing.\<close>

record observer =
  OnWrite :: "(int \<Rightarrow> int \<Rightarrow> unit outcome) option"
  OnFlush :: "(flushInfo \<Rightarrow> unit outcome) option"
  OnDrop :: "(int \<Rightarrow> dropReason \<Rightarrow> unit outcome) option"
  OnDeadLetter :: "(int \<Rightarrow> unit outcome) option"
  OnBackpressure :: "(bstate \<Rightarrow> decision \<Rightarrow> unit outcome) option"
  OnCheckpoint :: "(u64 \<Rightarrow> unit outcome) option"

definition noObserver :: observer where
  "noObserver = \<lparr>OnWrite = None, OnFlush = None, OnDrop = None, OnDeadLetter = None, OnBackpressure = None, OnCheckpoint = None\<rparr>"

subsection \<open>Configuration\<close>

text \<open>
  The public \<^verbatim>\<open>SyncMode\<close> is an integer, so that a caller can pass one that means nothing. \<open>deadLetter\<close> says
  whether a dead-letter sink was given and, if so, whether it is one for the buffer's record type.
\<close>

record config =
  walOpts :: options
  syncModeInt :: int
  maxRecords :: int
  maxBytes :: int
  flushRecords :: int
  flushBytes :: int
  flushInterval :: duration
  maxInFlight :: int
  onFull :: policy
  backoffC :: backoff
  maxAttempts :: int
  deadLetterGiven :: "bool option"
  dlqBackoff :: "backoff option"
  dlqAttempts :: int
  onDecodeFailure :: "(decodeFailureInfo \<Rightarrow> decodeAction outcome) option"
  onSinkError :: "(sinkFailure \<Rightarrow> retryDecision outcome) option"
  checkpointInterval :: duration
  observerC :: observer
  observerQueue :: int

definition deadLetterBackoff :: "config \<Rightarrow> backoff" where
  "deadLetterBackoff c = (case dlqBackoff c of Some b \<Rightarrow> b | None \<Rightarrow> backoffC c)"

definition zeroOptions :: options where
  "zeroOptions = \<lparr>SyncMode = SyncPeriodic, SyncInterval = 0, MaxSegmentBytes = 0, MaxRecordBytes = 0,
     CommitBytes = 0, SalvageSet = False\<rparr>"

definition defaults :: config where
  "defaults = \<lparr>walOpts = zeroOptions, syncModeInt = 0, maxRecords = 1000000, maxBytes = 2 ^ 30, flushRecords = 1000,
     flushBytes = 4 * 2 ^ 20, flushInterval = seconds 1, maxInFlight = 1, onFull = Block,
     backoffC = backoffDefaults \<lparr>Initial = 0, MaxDelay = 0, Factor = 0, Jitter = 1 / 5\<rparr>, maxAttempts = 0,
     deadLetterGiven = None, dlqBackoff = None, dlqAttempts = 3, onDecodeFailure = None, onSinkError = None,
     checkpointInterval = millis 200, observerC = noObserver, observerQueue = 0\<rparr>"

definition walSyncMode :: "int \<Rightarrow> syncMode option" where
  "walSyncMode m = (if m = 0 then Some SyncPeriodic else if m = 1 then Some SyncAlways
     else if m = 2 then Some SyncNever else None)"

definition bad :: "string \<Rightarrow> error" where
  "bad option = Wrap option [BErrInvalidOption]"

definition invalidOptions :: "config \<Rightarrow> error list" where
  "invalidOptions c =
     (if walSyncMode (syncModeInt c) = None then [bad ''WithSync''] else [])
   @ (if SyncInterval (walOpts c) < 0 then [bad ''WithSync''] else [])
   @ (if MaxSegmentBytes (walOpts c) < 0 then [bad ''WithSegmentBytes''] else [])
   @ (if MaxRecordBytes (walOpts c) < 0 \<or> MaxRecordBytes (walOpts c) > MaxRecordLimit then [bad ''WithMaxRecordBytes''] else [])
   @ (if maxRecords c < 0 \<or> maxBytes c < 0 then [bad ''WithCapacity''] else [])
   @ (if flushRecords c < 0 \<or> flushBytes c < 0 \<or> flushInterval c < 0 then [bad ''WithFlush''] else [])
   @ (if maxInFlight c < 0 then [bad ''WithMaxInFlight''] else [])
   @ (if maxAttempts c < 0 then [bad ''WithRetry''] else [])
   @ (if dlqAttempts c < 0 then [bad ''WithDeadLetterRetry''] else [])
   @ (if checkpointInterval c < 0 then [bad ''WithCheckpointInterval''] else [])"

text \<open>\<^verbatim>\<open>errors.Join\<close> of no errors is nil.\<close>

definition validate :: "config \<Rightarrow> error option" where
  "validate c = (if invalidOptions c = [] then None else Some (Wrap ''join'' (invalidOptions c)))"

subsection \<open>Options\<close>

type_synonym option_fn = "config \<Rightarrow> config"

definition WithSync :: "int \<Rightarrow> duration \<Rightarrow> option_fn" where
  "WithSync mode interval c = c\<lparr>syncModeInt := mode, walOpts := (walOpts c)\<lparr>SyncInterval := interval\<rparr>\<rparr>"

definition WithSegmentBytes :: "int \<Rightarrow> option_fn" where
  "WithSegmentBytes n c = c\<lparr>walOpts := (walOpts c)\<lparr>MaxSegmentBytes := n\<rparr>\<rparr>"

definition WithMaxRecordBytes :: "int \<Rightarrow> option_fn" where
  "WithMaxRecordBytes n c = c\<lparr>walOpts := (walOpts c)\<lparr>MaxRecordBytes := n\<rparr>\<rparr>"

definition WithCapacity :: "int \<Rightarrow> int \<Rightarrow> option_fn" where
  "WithCapacity n b c = c\<lparr>maxRecords := n, maxBytes := b\<rparr>"

definition WithFlush :: "int \<Rightarrow> int \<Rightarrow> duration \<Rightarrow> option_fn" where
  "WithFlush n b interval c =
     (let c1 = (if n \<noteq> 0 then c\<lparr>flushRecords := n\<rparr> else c);
          c2 = (if b \<noteq> 0 then c1\<lparr>flushBytes := b\<rparr> else c1)
      in if interval \<noteq> 0 then c2\<lparr>flushInterval := interval\<rparr> else c2)"

definition WithMaxInFlight :: "int \<Rightarrow> option_fn" where
  "WithMaxInFlight n c = (if n \<noteq> 0 then c\<lparr>maxInFlight := n\<rparr> else c)"

definition WithOnFull :: "policy option \<Rightarrow> option_fn" where
  "WithOnFull p c = (case p of Some f \<Rightarrow> c\<lparr>onFull := f\<rparr> | None \<Rightarrow> c)"

definition WithRetry :: "backoff \<Rightarrow> int \<Rightarrow> option_fn" where
  "WithRetry b n c = c\<lparr>backoffC := backoffDefaults b, maxAttempts := n\<rparr>"

definition WithDeadLetter :: "bool \<Rightarrow> option_fn" where
  "WithDeadLetter typed c = c\<lparr>deadLetterGiven := Some typed\<rparr>"

definition WithDeadLetterRetry :: "backoff \<Rightarrow> int \<Rightarrow> option_fn" where
  "WithDeadLetterRetry b n c = c\<lparr>dlqBackoff := Some (backoffDefaults b), dlqAttempts := n\<rparr>"

definition WithOnDecodeFailure :: "(decodeFailureInfo \<Rightarrow> decodeAction outcome) option \<Rightarrow> option_fn" where
  "WithOnDecodeFailure f c = c\<lparr>onDecodeFailure := f\<rparr>"

definition WithOnSinkError :: "(sinkFailure \<Rightarrow> retryDecision outcome) option \<Rightarrow> option_fn" where
  "WithOnSinkError f c = c\<lparr>onSinkError := f\<rparr>"

definition WithObserver :: "observer \<Rightarrow> option_fn" where
  "WithObserver o0 c = c\<lparr>observerC := o0, observerQueue := 0\<rparr>"

definition defaultObserverQueue :: int where
  "defaultObserverQueue = 1024"

definition WithAsyncObserver :: "observer \<Rightarrow> int \<Rightarrow> option_fn" where
  "WithAsyncObserver o0 queue c =
     (let q = (if queue \<le> 0 then defaultObserverQueue else queue) in c\<lparr>observerC := o0, observerQueue := q\<rparr>)"

definition WithSalvage :: option_fn where
  "WithSalvage c = c\<lparr>walOpts := (walOpts c)\<lparr>SalvageSet := True\<rparr>\<rparr>"

definition WithCheckpointInterval :: "duration \<Rightarrow> option_fn" where
  "WithCheckpointInterval d c = (if d \<noteq> 0 then c\<lparr>checkpointInterval := d\<rparr> else c)"

subsection \<open>Codecs\<close>

text \<open>
  What the buffer asks of a codec: encoding appends to what it is given, and decoding what was
  appended gives the record back.
\<close>

locale codec =
  fixes enc :: "bytes \<Rightarrow> 'a \<Rightarrow> error + bytes"
    and dec :: "bytes \<Rightarrow> (error + 'a) outcome"
  assumes enc_appends: "enc dst v = Inr b \<Longrightarrow> \<exists>e. b = dst @ e \<and> dec e = Returns (Inr v)"
begin

text \<open>A record that encodes can be read back from the bytes that encoding it added.\<close>

lemma enc_split: "enc dst v = Inr b \<Longrightarrow> take (length dst) b = dst \<and> dec (drop (length dst) b) = Returns (Inr v)"
  using enc_appends by fastforce

end

definition bytesEncode :: "bytes \<Rightarrow> bytes \<Rightarrow> error + bytes" where
  "bytesEncode dst v = Inr (dst @ v)"

definition bytesDecode :: "bytes \<Rightarrow> (error + bytes) outcome" where
  "bytesDecode src = Returns (Inr src)"

text \<open>A Go string holds arbitrary bytes; here it is the characters with those codes.\<close>

definition stringEncode :: "bytes \<Rightarrow> string \<Rightarrow> error + bytes" where
  "stringEncode dst v = Inr (dst @ bytesOf v)"

definition stringDecode :: "bytes \<Rightarrow> (error + string) outcome" where
  "stringDecode src = Returns (Inr (stringOf src))"

text \<open>\<^verbatim>\<open>JSONCodec\<close>, with \<^verbatim>\<open>json.Marshal\<close> and \<^verbatim>\<open>json.Unmarshal\<close> as parameters.\<close>

definition jsonEncode :: "('a \<Rightarrow> error + bytes) \<Rightarrow> bytes \<Rightarrow> 'a \<Rightarrow> error + bytes" where
  "jsonEncode marshal dst v = (case marshal v of Inl e \<Rightarrow> Inl e | Inr b \<Rightarrow> Inr (dst @ b))"

definition jsonDecode :: "(bytes \<Rightarrow> error + 'a) \<Rightarrow> bytes \<Rightarrow> (error + 'a) outcome" where
  "jsonDecode unmarshal src = Returns (unmarshal src)"

interpretation bytesCodec: codec bytesEncode bytesDecode
  by unfold_locales (auto simp: bytesEncode_def bytesDecode_def)

interpretation stringCodec: codec stringEncode stringDecode
  by unfold_locales (auto simp: stringEncode_def stringDecode_def)

text \<open>A type whose values survive a round trip through JSON has the contract too.\<close>

lemma jsonCodec:
  assumes "\<And>v b. marshal v = Inr b \<Longrightarrow> unmarshal b = Inr v"
  shows "codec (jsonEncode marshal) (jsonDecode unmarshal)"
  using assms by unfold_locales (auto simp: jsonEncode_def jsonDecode_def split: sum.splits)

subsection \<open>What validation gives\<close>

lemma validate_errors:
  assumes "validate c = Some e"
  shows "errors_is e BErrInvalidOption"
proof -
  have "list_ex (\<lambda>x. errors_is x BErrInvalidOption) (invalidOptions c)"
    using assms by (auto simp: validate_def invalidOptions_def bad_def split: if_splits)
  then show ?thesis using assms by (auto simp: validate_def split: if_splits)
qed

text \<open>The options the log is opened with.\<close>

definition openOptions :: "config \<Rightarrow> options" where
  "openOptions c = (walOpts c)\<lparr>SyncMode := (case walSyncMode (syncModeInt c) of Some m \<Rightarrow> m | None \<Rightarrow> SyncPeriodic)\<rparr>"

lemma validate_limits:
  assumes "validate c = None"
  shows "0 < MaxRecordBytes (withDefaults (openOptions c)) \<and> MaxRecordBytes (withDefaults (openOptions c)) \<le> MaxRecordLimit
     \<and> limit_ok (nat (MaxRecordBytes (withDefaults (openOptions c)))) \<and> 0 \<le> maxRecords c \<and> 0 \<le> maxBytes c
     \<and> 0 \<le> maxAttempts c \<and> 0 \<le> dlqAttempts c"
proof -
  have v: "invalidOptions c = []" using assms by (auto simp: validate_def split: if_splits)
  then have "0 \<le> MaxRecordBytes (walOpts c)" "MaxRecordBytes (walOpts c) \<le> MaxRecordLimit"
      "0 \<le> maxRecords c" "0 \<le> maxBytes c" "0 \<le> maxAttempts c" "0 \<le> dlqAttempts c"
    by (auto simp: invalidOptions_def split: if_splits)
  then show ?thesis
    by (auto simp: withDefaults_def openOptions_def MaxRecordLimit_def limit_ok_def headerSize_def Let_def)
qed

end
