(* ===== verification/Observer.thy ===== *)
theory Observer
  imports Config "HOL-Library.Sublist"
begin

text \<open>
  Observer callbacks off the buffer's goroutines: the dispatcher of \<^verbatim>\<open>observer.go\<close>.

  An event is what a hook is called with. The dispatcher's channel is a bounded queue; its goroutine
  takes events off it one at a time. The channel is closed by \<^verbatim>\<open>Close\<close> after the last event has been raised, so
  that a post on a closed channel does not occur. \<open>dcalled\<close> remembers the events whose hooks were called, in order.
\<close>

datatype event =
    EvWrite int int | EvFlush flushInfo | EvDrop int dropReason | EvDeadLetter int
  | EvBackpressure bstate decision | EvCheckpoint u64

text \<open>What calling the hook for an event comes to; \<open>None\<close> when there is no such hook.\<close>

fun hookOf :: "observer \<Rightarrow> event \<Rightarrow> unit outcome option" where
  "hookOf ob (EvWrite n b) = map_option (\<lambda>f. f n b) (OnWrite ob)"
| "hookOf ob (EvFlush i) = map_option (\<lambda>f. f i) (OnFlush ob)"
| "hookOf ob (EvDrop n r) = map_option (\<lambda>f. f n r) (OnDrop ob)"
| "hookOf ob (EvDeadLetter n) = map_option (\<lambda>f. f n) (OnDeadLetter ob)"
| "hookOf ob (EvBackpressure s d) = map_option (\<lambda>f. f s d) (OnBackpressure ob)"
| "hookOf ob (EvCheckpoint n) = map_option (\<lambda>f. f n) (OnCheckpoint ob)"

definition panics :: "observer \<Rightarrow> event \<Rightarrow> bool" where
  "panics ob e \<longleftrightarrow> (case hookOf ob e of Some r \<Rightarrow> protect r \<noteq> None | None \<Rightarrow> False)"

record dispatcher =
  dqueue :: "event list"
  dcap :: nat
  ddropped :: u64
  dstopped :: bool
  ddone :: bool
  dcalled :: "event list"

definition newDispatcher :: "nat \<Rightarrow> dispatcher" where
  "newDispatcher queue = \<lparr>dqueue = [], dcap = queue, ddropped = 0, dstopped = False, ddone = False, dcalled = []\<rparr>"

definition post :: "event \<Rightarrow> dispatcher \<Rightarrow> dispatcher" where
  "post e d = (if length (dqueue d) < dcap d then d\<lparr>dqueue := dqueue d @ [e]\<rparr> else d\<lparr>ddropped := ddropped d + 1\<rparr>)"

definition dispatcherCall :: "observer \<Rightarrow> event \<Rightarrow> dispatcher \<Rightarrow> dispatcher" where
  "dispatcherCall ob e d =
     (let d1 = d\<lparr>dcalled := dcalled d @ [e]\<rparr> in if panics ob e then d1\<lparr>ddropped := ddropped d1 + 1\<rparr> else d1)"

text \<open>One turn of the goroutine's loop: it takes an event, waits, or ends once the channel is closed and empty.\<close>

definition dispatcherTurn :: "observer \<Rightarrow> dispatcher \<Rightarrow> dispatcher" where
  "dispatcherTurn ob d = (case dqueue d of
      e # es \<Rightarrow> dispatcherCall ob e (d\<lparr>dqueue := es\<rparr>)
    | [] \<Rightarrow> if dstopped d then d\<lparr>ddone := True\<rparr> else d)"

definition stopDispatcher :: "dispatcher \<Rightarrow> dispatcher" where
  "stopDispatcher d = d\<lparr>dstopped := True\<rparr>"

subsection \<open>Who is calling\<close>

text \<open>
  \<^verbatim>\<open>runtime.Callers\<close> fills a slice with as much of the stack as fits; the loop doubles the slice until it
  was not filled to the end.
\<close>

function wholeStack :: "string list \<Rightarrow> nat \<Rightarrow> string list" where
  "wholeStack stack k =
     (let n = min (length stack) k in
      if n < k \<or> k = 0 then take n stack else wholeStack stack (2 * k))"
  by pat_completeness auto
termination
  by (relation "measure (\<lambda>(stack, k). Suc (length stack) - k)") (auto simp: min_def split: if_splits)

declare wholeStack.simps [simp del]

definition inDispatcher :: "string \<Rightarrow> string list \<Rightarrow> bool" where
  "inDispatcher callee stack = list_ex (\<lambda>f. f = callee) (wholeStack stack 64)"

lemma wholeStack_all: "0 < k \<Longrightarrow> wholeStack stack k = stack"
proof (induction stack k rule: wholeStack.induct)
  case (1 stack k)
  then show ?case by (cases "length stack < k") (simp_all add: wholeStack.simps [of stack k] Let_def)
qed

subsection \<open>Histories\<close>

datatype dispatcherEvent = Posted event | Turn | Stopped

definition dispatcherDo :: "observer \<Rightarrow> dispatcherEvent \<Rightarrow> dispatcher \<Rightarrow> dispatcher" where
  "dispatcherDo ob x d = (case x of Posted e \<Rightarrow> post e d | Turn \<Rightarrow> dispatcherTurn ob d | Stopped \<Rightarrow> stopDispatcher d)"

definition posted :: "dispatcherEvent list \<Rightarrow> event list" where
  "posted xs = concat (map (\<lambda>x. case x of Posted e \<Rightarrow> [e] | _ \<Rightarrow> []) xs)"

lemma posted_snoc [simp]:
  "posted [] = []" "posted (xs @ [Posted e]) = posted xs @ [e]" "posted (xs @ [Turn]) = posted xs" "posted (xs @ [Stopped]) = posted xs"
  by (simp_all add: posted_def)

text \<open>
  Every event posted was called, waits, or was counted as dropped; calls are made in the order of the
  posts; and a call that panicked is counted too.
\<close>

definition dispatcher_ok :: "observer \<Rightarrow> nat \<Rightarrow> dispatcherEvent list \<Rightarrow> dispatcher \<Rightarrow> bool" where
  "dispatcher_ok ob cap xs d \<longleftrightarrow> dcap d = cap \<and> length (dqueue d) \<le> cap \<and> subseq (dcalled d @ dqueue d) (posted xs)
     \<and> ddropped d = of_nat (length (posted xs) - length (dcalled d @ dqueue d)) + of_nat (length (filter (panics ob) (dcalled d)))"

lemma dispatcher_step:
  assumes "dispatcher_ok ob cap xs d"
  shows "dispatcher_ok ob cap (xs @ [x]) (dispatcherDo ob x d)"
proof -
  have le: "length (dcalled d) + length (dqueue d) \<le> length (posted xs)"
    using assms list_emb_length [of "(=)" "dcalled d @ dqueue d" "posted xs"] by (simp add: dispatcher_ok_def)
  have old: "subseq (dcalled d @ dqueue d) (posted xs @ [e])" for e
    using assms subseq_rev_drop_many [of "dcalled d @ dqueue d" "posted xs" "[e]"] by (simp add: dispatcher_ok_def)
  have new: "subseq (dcalled d @ dqueue d @ [e]) (posted xs @ [e])" for e
    using assms list_emb_append_mono [of "(=)" "dcalled d @ dqueue d" "posted xs" "[e]" "[e]"]
    by (simp add: dispatcher_ok_def)
  have sub: "Suc n - Suc m = n - m" "Suc n - m = Suc (n - m)" if "m \<le> n" for n m :: nat using that by auto
  show ?thesis
  proof (cases x)
    case (Posted e)
    then show ?thesis
      using assms le old new sub(2) [OF le]
      by (auto simp: dispatcher_ok_def dispatcherDo_def post_def)
  next
    case Turn
    then show ?thesis
      using assms by (cases "dqueue d") (auto simp: dispatcher_ok_def dispatcherDo_def dispatcherTurn_def dispatcherCall_def Let_def)
  next
    case Stopped
    then show ?thesis using assms by (simp add: dispatcher_ok_def dispatcherDo_def stopDispatcher_def)
  qed
qed

subsection \<open>Properties\<close>

text \<open>C38. The asynchronous observer loses nothing silently. In any interleaving of posts and of the goroutine's
  turns, the queue stays within its bound, hooks are called in the order of the events, each at most
  once, and every event that is neither called nor waiting is in the count of dropped events, along
  with every hook that panicked.\<close>

theorem dispatcher_accounts_for_every_event:
  "let d = fold (dispatcherDo ob) xs (newDispatcher cap) in
     length (dqueue d) \<le> cap \<and> subseq (dcalled d @ dqueue d) (posted xs)
   \<and> ddropped d = of_nat (length (posted xs) - length (dcalled d @ dqueue d)) + of_nat (length (filter (panics ob) (dcalled d)))"
proof -
  have "dispatcher_ok ob cap xs (fold (dispatcherDo ob) xs (newDispatcher cap))"
  proof (induction xs rule: rev_induct)
    case Nil
    then show ?case by (simp add: dispatcher_ok_def newDispatcher_def)
  next
    case (snoc x xs)
    then show ?case using dispatcher_step by simp
  qed
  then show ?thesis by (simp add: dispatcher_ok_def Let_def)
qed

text \<open>\<^verbatim>\<open>inDispatcher\<close> is exact at any depth of the stack: the doubling loop ends, and the answer is whether
  the dispatcher's frame is anywhere on the caller's stack.\<close>

theorem inDispatcher_exact: "inDispatcher callee stack \<longleftrightarrow> callee \<in> set stack"
  by (auto simp: inDispatcher_def wholeStack_all list_ex_iff)

end
