(* ===== verification/Acks.thy ===== *)
theory Acks
  imports Prelude
begin

text \<open>
  The low-water mark: \<^verbatim>\<open>ackTracker\<close> of \<^verbatim>\<open>internal_support.go\<close>.

  Batches complete in any order; the checkpoint may only move over a prefix. The tracker keeps the
  mark and the completed ranges that wait above it. Its interface is the locale \<open>low_water_mark\<close>,
  over the set of LSNs handled so far; what the flusher relies on (a whole run of completions, in any
  order, takes the mark to its end and gives all capacity back) is proved there once.
\<close>

record acked =
  alast :: u64
  acount :: int
  abytes :: int

record ackTracker =
  low :: u64
  doneR :: "u64 \<rightharpoonup> acked"

definition newAckTracker :: "u64 \<Rightarrow> ackTracker" where
  "newAckTracker m = \<lparr>low = m, doneR = Map.empty\<rparr>"

text \<open>The loop of \<^verbatim>\<open>ack\<close>; each turn takes one range out of the map.\<close>

function ackLoop :: "u64 \<Rightarrow> (u64 \<rightharpoonup> acked) \<Rightarrow> int \<Rightarrow> int \<Rightarrow> u64 \<times> (u64 \<rightharpoonup> acked) \<times> int \<times> int" where
  "ackLoop m d freedCount freedBytes =
     (case d (m + 1) of
        None \<Rightarrow> (m, d, freedCount, freedBytes)
      | Some a \<Rightarrow> ackLoop (alast a) (d(m + 1 := None)) (freedCount + acount a) (freedBytes + abytes a))"
  by pat_completeness auto
termination
proof (relation "measure (\<lambda>(m, d, _, _). card (dom d))", simp)
  fix m :: u64 and d :: "u64 \<rightharpoonup> acked" and c b a
  assume "d (m + 1) = Some a"
  then show "((alast a, d(m + 1 := None), c + acount a, b + abytes a), m, d, c, b) \<in> measure (\<lambda>(m, d, _, _). card (dom d))"
    using card_Diff1_less [of "dom d" "m + 1"] by (auto simp: domI)
qed

declare ackLoop.simps [simp del]

definition ack :: "u64 \<Rightarrow> u64 \<Rightarrow> int \<Rightarrow> int \<Rightarrow> ackTracker \<Rightarrow> (u64 \<times> int \<times> int) \<times> ackTracker" where
  "ack first lst cnt byt t =
     (if first \<noteq> low t + 1 then
        ((low t, 0, 0), t\<lparr>doneR := (doneR t)(first := Some \<lparr>alast = lst, acount = cnt, abytes = byt\<rparr>)\<rparr>)
      else case ackLoop lst (doneR t) cnt byt of (m, d, fc, fb) \<Rightarrow> ((m, fc, fb), t\<lparr>low := m, doneR := d\<rparr>))"

definition mark :: "ackTracker \<Rightarrow> u64" where
  "mark t = low t"

subsection \<open>The interface\<close>

text \<open>
  \<open>inv t h\<close>: the tracker \<open>t\<close> has been told of exactly the LSNs in \<open>h\<close> (those up to the mark it started
  with included). \<open>held\<close> is the capacity of the completed ranges still above the mark.
\<close>

locale low_water_mark =
  fixes ackOp :: "u64 \<Rightarrow> u64 \<Rightarrow> int \<Rightarrow> int \<Rightarrow> 't \<Rightarrow> (u64 \<times> int \<times> int) \<times> 't"
    and markOf :: "'t \<Rightarrow> u64"
    and inv :: "'t \<Rightarrow> nat set \<Rightarrow> bool"
    and held :: "'t \<Rightarrow> int \<times> int"
  assumes mark_low: "inv t h \<Longrightarrow> {0..unat (markOf t)} \<subseteq> h \<and> Suc (unat (markOf t)) \<notin> h"
    and ack_inv: "\<lbrakk>inv t h; ackOp f l c b t = (r, t'); f \<le> l; unat l + 1 < 2 ^ 64; {unat f..unat l} \<inter> h = {}\<rbrakk>
        \<Longrightarrow> inv t' (h \<union> {unat f..unat l}) \<and> fst r = markOf t'"
    and ack_held: "\<lbrakk>inv t h; ackOp f l c b t = (r, t'); f \<le> l; unat l + 1 < 2 ^ 64; {unat f..unat l} \<inter> h = {}\<rbrakk>
        \<Longrightarrow> fst (snd r) + fst (held t') = fst (held t) + c \<and> snd (snd r) + snd (held t') = snd (held t) + b"
    and held_none: "inv t {0..unat (markOf t)} \<Longrightarrow> held t = (0, 0)"
begin

text \<open>A run of completions, with what it frees in all.\<close>

primrec ackAll :: "(u64 \<times> u64 \<times> int \<times> int) list \<Rightarrow> 't \<Rightarrow> (int \<times> int) \<times> 't" where
  "ackAll [] t = ((0, 0), t)"
| "ackAll (x # xs) t = (case x of (f, l, c, b) \<Rightarrow> case ackOp f l c b t of ((m, fc, fb), t') \<Rightarrow>
     case ackAll xs t' of ((tc, tb), t'') \<Rightarrow> ((fc + tc, fb + tb), t''))"

definition covers :: "(u64 \<times> u64 \<times> int \<times> int) list \<Rightarrow> nat set" where
  "covers xs = (\<Union>(f, l, _, _) \<in> set xs. {unat f..unat l})"

primrec apart :: "(u64 \<times> u64 \<times> int \<times> int) list \<Rightarrow> nat set \<Rightarrow> bool" where
  "apart [] h \<longleftrightarrow> True"
| "apart (x # xs) h \<longleftrightarrow> (case x of (f, l, _, _) \<Rightarrow> f \<le> l \<and> unat l + 1 < 2 ^ 64 \<and> {unat f..unat l} \<inter> h = {}
     \<and> apart xs (h \<union> {unat f..unat l}))"

lemma covers_simps [simp]: "covers [] = {}" "covers ((f, l, c, b) # xs) = {unat f..unat l} \<union> covers xs"
  by (auto simp: covers_def)

lemma ackAll_inv:
  assumes "inv t h" and "apart xs h" and "ackAll xs t = (r, t')"
  shows "inv t' (h \<union> covers xs)
    \<and> fst r + fst (held t') = fst (held t) + (\<Sum>(f, l, c, b) \<leftarrow> xs. c)
    \<and> snd r + snd (held t') = snd (held t) + (\<Sum>(f, l, c, b) \<leftarrow> xs. b)"
  using assms
proof (induction xs arbitrary: t h r)
  case Nil
  then show ?case by auto
next
  case (Cons x xs)
  obtain f l c b where x: "x = (f, l, c, b)" using prod_cases4 by blast
  obtain m fc fb t1 where a: "ackOp f l c b t = ((m, fc, fb), t1)" by (metis prod_cases3 surj_pair)
  obtain tc tb where r: "ackAll xs t1 = ((tc, tb), t')" "r = (fc + tc, fb + tb)"
    using Cons.prems(3) by (auto simp: x a split: prod.splits)
  have d: "f \<le> l" "unat l + 1 < 2 ^ 64" "{unat f..unat l} \<inter> h = {}" "apart xs (h \<union> {unat f..unat l})"
    using Cons.prems(2) by (auto simp: x)
  have "inv t1 (h \<union> {unat f..unat l})" using ack_inv [OF Cons.prems(1) a d(1-3)] by blast
  from Cons.IH [OF this d(4) r(1)] ack_held [OF Cons.prems(1) a d(1-3)] show ?case
    by (simp add: x r(2) Un_assoc)
qed

text \<open>Completions of disjoint ranges that together fill the LSNs up to \<open>n\<close>, in any order.\<close>

lemma ackAll_complete:
  assumes "inv t {0..unat (markOf t)}" and "apart xs {0..unat (markOf t)}" and "ackAll xs t = (r, t')"
    and "covers xs = {unat (markOf t)<..n}" and "unat (markOf t) \<le> n"
  shows "unat (markOf t') = n \<and> r = ((\<Sum>(f, l, c, b) \<leftarrow> xs. c), (\<Sum>(f, l, c, b) \<leftarrow> xs. b)) \<and> held t' = (0, 0)"
proof -
  have u: "{0..unat (markOf t)} \<union> covers xs = {0..n}" using assms(4,5) by auto
  then have i: "inv t' {0..n}" using ackAll_inv [OF assms(1-3)] by simp
  have s: "{0..unat (markOf t')} \<subseteq> {0..n}" "Suc (unat (markOf t')) \<notin> {0..n}" using mark_low [OF i] by blast+
  then have m: "unat (markOf t') = n"
    by (metis Suc_leI atLeastAtMost_iff atLeastatMost_subset_iff le0 le_neq_implies_less)
  then have "held t' = (0, 0)" using held_none i by simp
  then show ?thesis using ackAll_inv [OF assms(1-3)] held_none [OF assms(1)] m by (auto simp: prod_eq_iff)
qed

text \<open>At every moment of such a run the mark stands below the first LSN not handled.\<close>

lemma ackAll_safe:
  assumes "inv t h" and "apart xs h" and "ackAll xs t = (r, t')" and "x \<notin> h" and "x \<notin> covers xs"
  shows "unat (markOf t') < x"
proof -
  have "inv t' (h \<union> covers xs)" using ackAll_inv [OF assms(1-3)] by blast
  then have "{0..unat (markOf t')} \<subseteq> h \<union> covers xs" using mark_low by blast
  then show ?thesis using assms(4,5) by (meson Un_iff atLeastAtMost_iff le0 linorder_not_less subset_iff)
qed

end

subsection \<open>The tracker keeps its contract\<close>

definition ranges :: "(u64 \<rightharpoonup> acked) \<Rightarrow> nat set" where
  "ranges d = {x. \<exists>f a. d f = Some a \<and> unat f \<le> x \<and> x \<le> unat (alast a)}"

text \<open>The waiting ranges lie above \<open>m\<close>, end before the top of the numbering, and do not overlap.\<close>

definition waiting :: "nat \<Rightarrow> (u64 \<rightharpoonup> acked) \<Rightarrow> bool" where
  "waiting m d \<longleftrightarrow> (\<forall>f a. d f = Some a \<longrightarrow> m < unat f \<and> f \<le> alast a \<and> unat (alast a) + 1 < 2 ^ 64)
     \<and> (\<forall>f a g b. d f = Some a \<longrightarrow> d g = Some b \<longrightarrow> f \<noteq> g \<longrightarrow> {unat f..unat (alast a)} \<inter> {unat g..unat (alast b)} = {})"

definition tracks :: "ackTracker \<Rightarrow> nat set \<Rightarrow> bool" where
  "tracks t h \<longleftrightarrow> waiting (Suc (unat (low t))) (doneR t) \<and> h = {0..unat (low t)} \<union> ranges (doneR t) \<and> unat (low t) + 1 < 2 ^ 64"

definition heldIn :: "(u64 \<rightharpoonup> acked) \<Rightarrow> int \<times> int" where
  "heldIn d = ((\<Sum>f \<in> dom d. acount (the (d f))), (\<Sum>f \<in> dom d. abytes (the (d f))))"

lemma unat_succ_u64: "unat m + 1 < 2 ^ 64 \<Longrightarrow> unat (m + 1) = unat m + 1" for m :: u64
  using unat_plus_no_wrap [of m 1] by simp

lemma waitingD:
  assumes "waiting m d" and "d f = Some a"
  shows "m < unat f" "f \<le> alast a" "unat (alast a) + 1 < 2 ^ 64"
    "d g = Some b \<Longrightarrow> f \<noteq> g \<Longrightarrow> {unat f..unat (alast a)} \<inter> {unat g..unat (alast b)} = {}"
  using assms unfolding waiting_def by blast+

lemma waiting_above:
  assumes "waiting m d" and "d f = Some a" and "unat f = Suc m"
  shows "waiting (unat (alast a)) (d(f := None))"
proof -
  have "unat (alast a) < unat g" if "d g = Some b" "g \<noteq> f" for g b
  proof -
    have "{unat f..unat (alast a)} \<inter> {unat g..unat (alast b)} = {}" "m < unat g" "g \<le> alast b" "f \<le> alast a"
      using waitingD [OF assms(1)] assms(2) that by blast+
    moreover from this have "unat g \<in> {unat g..unat (alast b)}" by (simp add: word_le_nat_alt)
    ultimately have "unat g \<notin> {unat f..unat (alast a)}" by blast
    then show ?thesis using \<open>m < unat g\<close> assms(3) by simp
  qed
  moreover have "d g = Some b \<and> g \<noteq> f" if "(d(f := None)) g = Some b" for g b
    using that by (simp split: if_splits)
  ultimately show ?thesis using waitingD [OF assms(1)] unfolding waiting_def by metis
qed

lemma ranges_Union: "ranges d = (\<Union>f \<in> dom d. {unat f..unat (alast (the (d f)))})"
  by (force simp: ranges_def dom_def)

lemma ranges_split:
  assumes "d f = Some a"
  shows "ranges d = {unat f..unat (alast a)} \<union> ranges (d(f := None))"
proof -
  have "dom d = insert f (dom d - {f})" using assms by auto
  then have "ranges d = {unat f..unat (alast a)} \<union> (\<Union>g \<in> dom d - {f}. {unat g..unat (alast (the (d g)))})"
    unfolding ranges_Union using assms by (metis (no_types, lifting) UN_insert option.sel)
  then show ?thesis by (simp add: ranges_Union [of "d(f := None)"])
qed

lemma ranges_above: "waiting m d \<Longrightarrow> x \<in> ranges d \<Longrightarrow> m < x"
  unfolding ranges_def waiting_def by fastforce

lemma heldIn_remove:
  assumes "d f = Some a"
  shows "fst (heldIn d) = acount a + fst (heldIn (d(f := None)))" "snd (heldIn d) = abytes a + snd (heldIn (d(f := None)))"
  using assms by (simp_all add: heldIn_def sum.remove [of "dom d" f] domI)

lemma heldIn_insert:
  assumes "d f = None"
  shows "fst (heldIn (d(f := Some a))) = acount a + fst (heldIn d)" "snd (heldIn (d(f := Some a))) = abytes a + snd (heldIn d)"
  using heldIn_remove [of "d(f := Some a)" f a] assms by (simp_all add: fun_upd_idem)

lemma ackLoop_inv:
  assumes "ackLoop m d fc fb = (m', d', fc', fb')" and "waiting (unat m) d" and "unat m + 1 < 2 ^ 64"
  shows "waiting (Suc (unat m')) d' \<and> {0..unat m} \<union> ranges d = {0..unat m'} \<union> ranges d' \<and> unat m' + 1 < 2 ^ 64
     \<and> fc' + fst (heldIn d') = fc + fst (heldIn d) \<and> fb' + snd (heldIn d') = fb + snd (heldIn d)"
  using assms
proof (induction m d fc fb rule: ackLoop.induct)
  case (1 m d fc fb)
  note s = unat_succ_u64 [OF "1.prems"(3)]
  show ?case
  proof (cases "d (m + 1)")
    case None
    then have "f \<noteq> m + 1" if "d f = Some a" for f a using that by auto
    then have "waiting (Suc (unat m)) d"
      using "1.prems"(2) s unfolding waiting_def by (metis Suc_eq_plus1 Suc_lessI word_unat_eq_iff)
    then show ?thesis using None "1.prems" by (simp add: ackLoop.simps)
  next
    case (Some a)
    have w: "m + 1 \<le> alast a" "unat (alast a) + 1 < 2 ^ 64" using "1.prems"(2) Some unfolding waiting_def by blast+
    have "waiting (unat (alast a)) (d(m + 1 := None))" using waiting_above "1.prems"(2) Some s by simp
    moreover have "ackLoop (alast a) (d(m + 1 := None)) (fc + acount a) (fb + abytes a) = (m', d', fc', fb')"
      using "1.prems"(1) Some by (simp add: ackLoop.simps [of m])
    ultimately have ih: "waiting (Suc (unat m')) d'" "{0..unat (alast a)} \<union> ranges (d(m + 1 := None)) = {0..unat m'} \<union> ranges d'"
        "unat m' + 1 < 2 ^ 64" "fc' + fst (heldIn d') = fc + acount a + fst (heldIn (d(m + 1 := None)))"
        "fb' + snd (heldIn d') = fb + abytes a + snd (heldIn (d(m + 1 := None)))"
      using "1.IH" [OF Some _ _ w(2)] by blast+
    have "{0..unat m} \<union> {unat (m + 1)..unat (alast a)} = {0..unat (alast a)}"
      using w(1) s by (auto simp: word_le_nat_alt)
    then have "{0..unat m} \<union> ranges d = {0..unat (alast a)} \<union> ranges (d(m + 1 := None))"
      using ranges_split [of d "m + 1" a] Some by (simp add: Un_assoc [symmetric])
    then show ?thesis using ih heldIn_remove [of d "m + 1" a] Some by simp
  qed
qed

lemma tracks_fresh:
  assumes "tracks t h" and "{unat f..unat l} \<inter> h = {}" and "f \<le> l"
  shows "doneR t f = None" "unat (low t) < unat f"
proof -
  have "unat f \<in> {unat f..unat l}" using assms(3) by (simp add: word_le_nat_alt)
  then have f: "unat f \<notin> h" using assms(2) by blast
  then show "unat (low t) < unat f" using assms(1) by (auto simp: tracks_def)
  show "doneR t f = None"
  proof (rule ccontr)
    assume "doneR t f \<noteq> None"
    then obtain a where "doneR t f = Some a" by auto
    moreover from this have "f \<le> alast a" using assms(1) unfolding tracks_def waiting_def by blast
    ultimately have "unat f \<in> ranges (doneR t)" by (auto simp: ranges_def word_le_nat_alt)
    then show False using f assms(1) by (simp add: tracks_def)
  qed
qed

lemma waiting_weaken: "waiting m d \<Longrightarrow> n \<le> m \<Longrightarrow> waiting n d"
  unfolding waiting_def by (meson order_le_less_trans)

lemma waiting_insert:
  assumes "waiting m d" and "m < unat f" and "f \<le> alast a" and "unat (alast a) + 1 < 2 ^ 64"
    and "{unat f..unat (alast a)} \<inter> ranges d = {}"
  shows "waiting m (d(f := Some a))"
proof -
  have "{unat g..unat (alast b)} \<subseteq> ranges d" if "d g = Some b" for g b
    using ranges_split [of d g b] that by blast
  then have "{unat f..unat (alast a)} \<inter> {unat g..unat (alast b)} = {}" if "d g = Some b" for g b
    using that assms(5) by blast
  then show ?thesis using assms unfolding waiting_def by (auto split: if_splits)
qed

lemma ranges_insert: "d f = None \<Longrightarrow> ranges (d(f := Some a)) = {unat f..unat (alast a)} \<union> ranges d"
  using ranges_split [of "d(f := Some a)" f a] by (simp add: fun_upd_idem)

lemma ack_tracks:
  assumes t: "tracks t h" and a: "ack f l c b t = (r, t')" and fl: "f \<le> l" and top: "unat l + 1 < 2 ^ 64"
    and new: "{unat f..unat l} \<inter> h = {}"
  shows "tracks t' (h \<union> {unat f..unat l}) \<and> fst r = mark t'
    \<and> fst (snd r) + fst (heldIn (doneR t')) = fst (heldIn (doneR t)) + c
    \<and> snd (snd r) + snd (heldIn (doneR t')) = snd (heldIn (doneR t)) + b"
proof (cases "f = low t + 1")
  case False
  note fr = tracks_fresh [OF t new fl]
  have "unat (low t) + 1 < 2 ^ 64" using t by (simp add: tracks_def)
  then have "unat f \<noteq> Suc (unat (low t))" using False unat_succ_u64 [of "low t"] word_unat_eq_iff by (metis Suc_eq_plus1)
  then have "Suc (unat (low t)) < unat f" using fr(2) by simp
  moreover have "{unat f..unat l} \<inter> ranges (doneR t) = {}" using t new by (auto simp: tracks_def)
  ultimately show ?thesis
    using False a t fl top fr(1) waiting_insert [of "Suc (unat (low t))" "doneR t" f "\<lparr>alast = l, acount = c, abytes = b\<rparr>"]
      ranges_insert [of "doneR t" f "\<lparr>alast = l, acount = c, abytes = b\<rparr>"]
      heldIn_insert [of "doneR t" f "\<lparr>alast = l, acount = c, abytes = b\<rparr>"]
    by (auto simp: ack_def tracks_def mark_def)
next
  case True
  note fr = tracks_fresh [OF t new fl]
  have lo: "unat f = Suc (unat (low t))" using t True unat_succ_u64 [of "low t"] by (simp add: tracks_def)
  obtain m' d' fc fb where k: "ackLoop l (doneR t) c b = (m', d', fc, fb)" by (metis prod_cases4)
  have "unat l < unat g" if "doneR t g = Some e" for g e
  proof -
    have "Suc (unat (low t)) < unat g" "g \<le> alast e" using t that unfolding tracks_def waiting_def by blast+
    moreover from this have "unat g \<in> h" using t that by (auto simp: tracks_def ranges_def word_le_nat_alt)
    ultimately show ?thesis using new lo by (metis IntI atLeastAtMost_iff empty_iff less_imp_le_nat not_less)
  qed
  then have "waiting (unat l) (doneR t)" using t unfolding tracks_def waiting_def by blast
  from ackLoop_inv [OF k this top]
  have out: "waiting (Suc (unat m')) d'" "{0..unat l} \<union> ranges (doneR t) = {0..unat m'} \<union> ranges d'" "unat m' + 1 < 2 ^ 64"
      "fc + fst (heldIn d') = c + fst (heldIn (doneR t))" "fb + snd (heldIn d') = b + snd (heldIn (doneR t))"
    by simp_all
  have "{0..unat (low t)} \<union> {unat f..unat l} = {0..unat l}" using lo fl by (auto simp: word_le_nat_alt)
  then have "h \<union> {unat f..unat l} = {0..unat m'} \<union> ranges d'"
    using t out(2) unfolding tracks_def by blast
  then show ?thesis using a k True out by (auto simp: ack_def tracks_def mark_def)
qed

lemma tracks_mark: "tracks t h \<Longrightarrow> {0..unat (mark t)} \<subseteq> h \<and> Suc (unat (mark t)) \<notin> h"
  using ranges_above [of "Suc (unat (low t))" "doneR t" "Suc (unat (low t))"] by (auto simp: tracks_def mark_def)

lemma tracks_none: "tracks t {0..unat (mark t)} \<Longrightarrow> heldIn (doneR t) = (0, 0)"
proof -
  assume t: "tracks t {0..unat (mark t)}"
  have "doneR t f = None" for f
  proof (rule ccontr)
    assume "doneR t f \<noteq> None"
    then obtain a where a: "doneR t f = Some a" by auto
    then have "Suc (unat (low t)) < unat f" "f \<le> alast a" using t unfolding tracks_def waiting_def by blast+
    moreover from this have "unat f \<in> {0..unat (mark t)}" using t a by (auto simp: tracks_def ranges_def word_le_nat_alt)
    ultimately show False by (simp add: mark_def)
  qed
  then have "dom (doneR t) = {}" by auto
  then show ?thesis by (simp add: heldIn_def)
qed

interpretation acks: low_water_mark ack mark tracks "\<lambda>t. heldIn (doneR t)"
proof
  fix t h f l c b r t'
  show "tracks t h \<Longrightarrow> {0..unat (mark t)} \<subseteq> h \<and> Suc (unat (mark t)) \<notin> h" by (rule tracks_mark)
  show "tracks t {0..unat (mark t)} \<Longrightarrow> heldIn (doneR t) = (0, 0)" by (rule tracks_none)
  assume a: "tracks t h" "ack f l c b t = (r, t')" "f \<le> l" "unat l + 1 < 2 ^ 64" "{unat f..unat l} \<inter> h = {}"
  show "tracks t' (h \<union> {unat f..unat l}) \<and> fst r = mark t'" using ack_tracks [OF a] by blast
  show "fst (snd r) + fst (heldIn (doneR t')) = fst (heldIn (doneR t)) + c
      \<and> snd (snd r) + snd (heldIn (doneR t')) = snd (heldIn (doneR t)) + b"
    using ack_tracks [OF a] by blast
qed

lemma tracks_new: "unat m + 1 < 2 ^ 64 \<Longrightarrow> tracks (newAckTracker m) {0..unat m}"
  by (simp add: tracks_def newAckTracker_def waiting_def ranges_def)

subsection \<open>Properties\<close>

text \<open>C33. The mark is exactly the low-water mark. Whatever ranges complete and in whatever order, as long as
  no LSN completes twice, every LSN up to the mark has completed, and the one after the mark has not:
  a crash loses nothing that was still in flight, and nothing completed is held back needlessly.\<close>

theorem ack_low_water:
  assumes "unat m + 1 < 2 ^ 64" and "acks.apart xs {0..unat m}" and "acks.ackAll xs (newAckTracker m) = (r, t')"
  shows "{0..unat (mark t')} \<subseteq> {0..unat m} \<union> acks.covers xs \<and> Suc (unat (mark t')) \<notin> {0..unat m} \<union> acks.covers xs"
  using acks.mark_low acks.ackAll_inv [OF tracks_new [OF assms(1)] assms(2,3)] by blast

definition sample_acks :: "(u64 \<times> u64 \<times> int \<times> int) list" where
  "sample_acks = [(9, 12, 4, 40), (6, 8, 3, 30)]"

lemma sample_run: "acks.ackAll sample_acks (newAckTracker 5) = ((7, 70), \<lparr>low = 12, doneR = Map.empty\<rparr>)"
  by (simp add: sample_acks_def newAckTracker_def ack_def ackLoop.simps fun_upd_idem)

lemma sample_apart: "acks.apart sample_acks {0..5}"
  by (auto simp: sample_acks_def)

theorem ack_low_water_witness:
  "{0..unat (mark \<lparr>low = 12, doneR = Map.empty\<rparr>)} \<subseteq> {0..5} \<union> acks.covers sample_acks
     \<and> Suc (unat (mark \<lparr>low = 12, doneR = Map.empty\<rparr>)) \<notin> {0..5} \<union> acks.covers sample_acks"
  using ack_low_water [of 5 sample_acks _ "\<lparr>low = 12, doneR = Map.empty\<rparr>"] sample_run sample_apart by simp

text \<open>When a run of batches has completed, in any order, the mark stands at its end and the capacity it
  gave back is exactly what the batches held: none is leaked in ranges that waited, none returned
  twice.\<close>

theorem acks_free_everything:
  assumes "unat m + 1 < 2 ^ 64" and "acks.apart xs {0..unat m}" and "acks.ackAll xs (newAckTracker m) = (r, t')"
    and "acks.covers xs = {unat m<..n}" and "unat m \<le> n"
  shows "unat (mark t') = n \<and> r = ((\<Sum>(f, l, c, b) \<leftarrow> xs. c), (\<Sum>(f, l, c, b) \<leftarrow> xs. b))"
  using acks.ackAll_complete [of "newAckTracker m" xs r t' n] assms tracks_new [OF assms(1)]
  by (simp add: mark_def newAckTracker_def)

theorem acks_free_everything_witness:
  "unat (mark \<lparr>low = 12, doneR = Map.empty\<rparr>) = 12
     \<and> ((7, 70) :: int \<times> int) = ((\<Sum>(f, l, c, b) \<leftarrow> sample_acks. c), (\<Sum>(f, l, c, b) \<leftarrow> sample_acks. b))"
proof -
  have "acks.covers sample_acks = {5<..12}" by (auto simp: sample_acks_def)
  then show ?thesis
    using acks_free_everything [of 5 sample_acks "(7, 70)" "\<lparr>low = 12, doneR = Map.empty\<rparr>" 12] sample_run sample_apart
    by simp
qed

end
