(* ===== verification/Ages.thy ===== *)
theory Ages
  imports Prelude
begin

text \<open>
  How long the oldest record has been waiting: \<^verbatim>\<open>ageTracker\<close> of \<^verbatim>\<open>internal_support.go\<close>.

  The tracker is run on sequences of its two operations; the invariant bounds the queue and orders
  it, and the properties say that an age is never understated and that nothing lingers once every
  record has been delivered. The in-place loop that halves the queue is shown equal to a reference
  definition on lists.
\<close>

record ageMark =
  glsn :: u64
  gat :: int

record ageTracker =
  marks :: "ageMark list"
  trimmed :: u64

definition ageGranularity :: int where
  "ageGranularity = 100 * 1000000"

definition ageMaxMarks :: nat where
  "ageMaxMarks = 512"

text \<open>The loop that merges adjacent pairs in place: it reads at \<open>i\<close> and \<open>i + 1\<close> and writes at \<open>k\<close>.\<close>

function mergeLoop :: "nat \<Rightarrow> nat \<Rightarrow> ageMark list \<Rightarrow> ageMark list" where
  "mergeLoop i k ms =
     (if i < length ms then
        (let m = ms ! i;
             m' = (if i + 1 < length ms then m\<lparr>glsn := glsn (ms ! (i + 1))\<rparr> else m)
         in mergeLoop (i + 2) (k + 1) (ms[k := m']))
      else take k ms)"
  by pat_completeness auto
termination
  by (relation "measure (\<lambda>(i, _, ms). length ms - i)") auto

declare mergeLoop.simps [simp del]

definition appendMark :: "u64 \<Rightarrow> int \<Rightarrow> ageTracker \<Rightarrow> ageTracker" where
  "appendMark n now t =
     (let ms = (if length (marks t) \<ge> ageMaxMarks then mergeLoop 0 0 (marks t) else marks t)
      in t\<lparr>marks := ms @ [\<lparr>glsn = n, gat = now\<rparr>]\<rparr>)"

definition ageNote :: "u64 \<Rightarrow> int \<Rightarrow> ageTracker \<Rightarrow> ageTracker" where
  "ageNote n now t =
     (if n \<le> trimmed t then t
      else if marks t \<noteq> [] then
        (let m = last (marks t) in
         if n \<le> glsn m then t
         else if now - gat m < ageGranularity then t\<lparr>marks := butlast (marks t) @ [m\<lparr>glsn := n\<rparr>]\<rparr>
         else appendMark n now t)
      else appendMark n now t)"

definition trim :: "u64 \<Rightarrow> ageTracker \<Rightarrow> ageTracker" where
  "trim m t = t\<lparr>trimmed := max (trimmed t) m, marks := dropWhile (\<lambda>a. glsn a \<le> m) (marks t)\<rparr>"

definition oldest :: "int \<Rightarrow> ageTracker \<Rightarrow> duration" where
  "oldest now t = (case marks t of [] \<Rightarrow> 0 | m # _ \<Rightarrow> now - gat m)"

definition newAgeTracker :: ageTracker where
  "newAgeTracker = \<lparr>marks = [], trimmed = 0\<rparr>"

subsection \<open>Merging pairs\<close>

fun pairs :: "ageMark list \<Rightarrow> ageMark list" where
  "pairs (a # b # ms) = a\<lparr>glsn := glsn b\<rparr> # pairs ms"
| "pairs ms = ms"

lemma mergeLoop_pairs: "k \<le> i \<Longrightarrow> mergeLoop i k ms = take k ms @ pairs (drop i ms)"
proof (induction i k ms rule: mergeLoop.induct)
  case (1 i k ms)
  show ?case
  proof (cases "i < length ms")
    case False
    then show ?thesis by (simp add: mergeLoop.simps)
  next
    case True
    let ?m = "if i + 1 < length ms then (ms ! i)\<lparr>glsn := glsn (ms ! (i + 1))\<rparr> else ms ! i"
    have "mergeLoop i k ms = take (k + 1) (ms[k := ?m]) @ pairs (drop (i + 2) (ms[k := ?m]))"
      using 1 True by (simp add: mergeLoop.simps [of i] Let_def)
    also have "drop (i + 2) (ms[k := ?m]) = drop (i + 2) ms" using 1(2) by simp
    also have "take (k + 1) (ms[k := ?m]) = take k ms @ [?m]"
      using True 1(2) by (simp add: take_Suc_conv_app_nth)
    finally have e: "mergeLoop i k ms = take k ms @ ?m # pairs (drop (i + 2) ms)" by simp
    show ?thesis
    proof (cases "i + 1 < length ms")
      case True
      then have "drop i ms = ms ! i # ms ! (i + 1) # drop (i + 2) ms"
        by (metis Cons_nth_drop_Suc Suc_eq_plus1 Suc_lessD add_2_eq_Suc')
      then show ?thesis using e True by simp
    next
      case False
      then have "drop i ms = [ms ! i]" "drop (i + 2) ms = []"
        using True Cons_nth_drop_Suc [of i ms] by simp_all
      then show ?thesis using e False by simp
    qed
  qed
qed

lemma pairs_origin: "m \<in> set (pairs ms) \<Longrightarrow> (\<exists>a \<in> set ms. gat m = gat a) \<and> (\<exists>b \<in> set ms. glsn m = glsn b)"
  by (induction ms rule: pairs.induct) auto

lemma length_pairs: "length (pairs ms) = (length ms + 1) div 2"
  by (induction ms rule: pairs.induct) auto

subsection \<open>The invariant\<close>

definition spaced :: "ageMark list \<Rightarrow> bool" where
  "spaced ms \<longleftrightarrow> sorted_wrt (\<lambda>a b. glsn a < glsn b \<and> gat a + ageGranularity \<le> gat b) ms"

definition ages_ok :: "ageTracker \<Rightarrow> bool" where
  "ages_ok t \<longleftrightarrow> spaced (marks t) \<and> length (marks t) \<le> ageMaxMarks \<and> (\<forall>m \<in> set (marks t). trimmed t < glsn m)"

lemma spaced_pairs: "spaced ms \<Longrightarrow> spaced (pairs ms)"
proof (induction ms rule: pairs.induct)
  case (1 a b ms)
  have "glsn b < glsn m \<and> gat a + ageGranularity \<le> gat m" if "m \<in> set (pairs ms)" for m
    using 1(2) pairs_origin [OF that] by (fastforce simp: spaced_def)
  then show ?case using 1 by (auto simp: spaced_def)
qed (simp_all add: spaced_def)

text \<open>The two operations as steps.\<close>

inductive agestep :: "ageTracker \<Rightarrow> ageTracker \<Rightarrow> bool" where
  age_note: "agestep t (ageNote n now t)"
| age_trim: "agestep t (trim m t)"

lemma spaced_snoc: "spaced (ms @ [m]) \<longleftrightarrow> spaced ms \<and> (\<forall>a \<in> set ms. glsn a < glsn m \<and> gat a + ageGranularity \<le> gat m)"
  by (simp add: spaced_def sorted_wrt_append)

lemma appendMark_ok:
  assumes ok: "ages_ok t" and n: "trimmed t < n" and above: "\<forall>m \<in> set (marks t). glsn m < n \<and> gat m + ageGranularity \<le> now"
  shows "ages_ok (appendMark n now t)"
proof -
  have "\<forall>m \<in> set (pairs (marks t)). glsn m < n \<and> gat m + ageGranularity \<le> now \<and> trimmed t < glsn m"
    using above ok pairs_origin [of _ "marks t"] unfolding ages_ok_def by metis
  then show ?thesis
    using assms spaced_pairs [of "marks t"]
    by (auto simp: appendMark_def ages_ok_def spaced_snoc mergeLoop_pairs length_pairs ageMaxMarks_def Let_def)
qed

lemma spaced_last: "spaced ms \<Longrightarrow> m \<in> set ms \<Longrightarrow> glsn m \<le> glsn (last ms) \<and> gat m \<le> gat (last ms)"
proof (induction ms rule: rev_induct)
  case (snoc x xs)
  then show ?case by (auto simp: spaced_snoc ageGranularity_def)
qed simp

lemma note_ok:
  assumes ok: "ages_ok t"
  shows "ages_ok (ageNote n now t)"
proof (cases "trimmed t < n \<and> (marks t \<noteq> [] \<longrightarrow> glsn (last (marks t)) < n)")
  case False
  then have "ageNote n now t = t" by (auto simp: ageNote_def not_less)
  then show ?thesis using ok by simp
next
  case True
  show ?thesis
  proof (cases "marks t \<noteq> [] \<and> now - gat (last (marks t)) < ageGranularity")
    case True
    let ?m = "last (marks t)"
    have e: "ageNote n now t = t\<lparr>marks := butlast (marks t) @ [?m\<lparr>glsn := n\<rparr>]\<rparr>"
      using True \<open>trimmed t < n \<and> _\<close> by (simp add: ageNote_def Let_def not_le [symmetric])
    have "marks t = butlast (marks t) @ [?m]" using True by simp
    then have "spaced (butlast (marks t) @ [?m])" "length (butlast (marks t) @ [?m]) \<le> ageMaxMarks"
        "\<forall>a \<in> set (butlast (marks t)). trimmed t < glsn a"
      using ok by (metis ages_ok_def, metis ages_ok_def, metis ages_ok_def in_set_butlastD)
    moreover from this have "\<forall>a \<in> set (butlast (marks t)). glsn a < n \<and> gat a + ageGranularity \<le> gat ?m"
      using True \<open>trimmed t < n \<and> _\<close> unfolding spaced_snoc by (metis order_less_trans)
    ultimately show ?thesis
      using \<open>trimmed t < n \<and> _\<close> unfolding e by (simp add: ages_ok_def spaced_snoc)
  next
    case False
    have e: "ageNote n now t = appendMark n now t"
      using False True by (auto simp: ageNote_def Let_def not_le [symmetric])
    have "\<forall>m \<in> set (marks t). glsn m < n \<and> gat m + ageGranularity \<le> now"
    proof
      fix m assume m: "m \<in> set (marks t)"
      then have "glsn m \<le> glsn (last (marks t))" "gat m \<le> gat (last (marks t))"
        using spaced_last ok by (auto simp: ages_ok_def)
      moreover have "marks t \<noteq> []" using m by auto
      ultimately show "glsn m < n \<and> gat m + ageGranularity \<le> now" using True False by force
    qed
    then show ?thesis unfolding e using appendMark_ok ok True by blast
  qed
qed

lemma spaced_dropWhile:
  assumes "spaced ms" and "m \<in> set (dropWhile (\<lambda>a. glsn a \<le> k) ms)"
  shows "k < glsn m"
  using assms
proof (induction ms)
  case (Cons a ms)
  then show ?case by (fastforce simp: spaced_def split: if_splits)
qed simp

lemma trim_ok: "ages_ok t \<Longrightarrow> ages_ok (trim m t)"
proof -
  assume ok: "ages_ok t"
  have "spaced (dropWhile (\<lambda>a. glsn a \<le> m) (marks t))"
    using ok sorted_wrt_dropWhile unfolding ages_ok_def spaced_def by blast
  moreover have "length (dropWhile (\<lambda>a. glsn a \<le> m) (marks t)) \<le> ageMaxMarks"
    using ok length_dropWhile_le [of _ "marks t"] unfolding ages_ok_def by (meson order_trans)
  ultimately show ?thesis
    using ok spaced_dropWhile [of "marks t" _ m] by (auto simp: ages_ok_def trim_def dest: set_dropWhileD)
qed

interpretation age: invariant_system agestep ages_ok
proof
  fix t t' assume "ages_ok t" "agestep t t'"
  then show "ages_ok t'" by (auto elim: agestep.cases intro: note_ok trim_ok)
qed


subsection \<open>Histories\<close>

datatype ageEvent = Note u64 int | Trim u64

primrec ageDo :: "ageEvent \<Rightarrow> ageTracker \<Rightarrow> ageTracker" where
  "ageDo (Note n now) t = ageNote n now t"
| "ageDo (Trim m) t = trim m t"

definition ageRun :: "ageEvent list \<Rightarrow> ageTracker \<Rightarrow> ageTracker" where
  "ageRun evs t = fold ageDo evs t"

lemma ageRun_steps: "agestep\<^sup>*\<^sup>* t (ageRun evs t)"
proof (induction evs arbitrary: t)
  case (Cons ev evs)
  have "agestep t (ageDo ev t)" by (cases ev) (auto intro: agestep.intros)
  then show ?case using Cons [of "ageDo ev t"] by (simp add: ageRun_def)
qed (simp add: ageRun_def)

lemma new_ok: "ages_ok newAgeTracker"
  by (simp add: ages_ok_def newAgeTracker_def spaced_def)

text \<open>The clock readings of the notes, in the order in which they are made.\<close>

definition noteTimes :: "ageEvent list \<Rightarrow> int list" where
  "noteTimes evs = concat (map (\<lambda>ev. case ev of Note n now \<Rightarrow> [now] | Trim m \<Rightarrow> []) evs)"

text \<open>
  Every noted record that is not delivered yet is covered by a mark that is at least as old; and every
  mark stands for a note that was made.
\<close>

definition covered :: "ageEvent list \<Rightarrow> ageTracker \<Rightarrow> bool" where
  "covered evs t \<longleftrightarrow>
     (\<forall>n at. Note n at \<in> set evs \<longrightarrow> n \<le> trimmed t \<or> (\<exists>m \<in> set (marks t). n \<le> glsn m \<and> gat m \<le> at))
   \<and> (\<forall>m \<in> set (marks t). gat m \<in> set (noteTimes evs) \<and> (\<exists>at. Note (glsn m) at \<in> set evs))"

lemma noteTimes_snoc [simp]:
  "noteTimes (evs @ [Note n now]) = noteTimes evs @ [now]" "noteTimes (evs @ [Trim m]) = noteTimes evs"
  by (simp_all add: noteTimes_def)

lemma covered_pairs:
  assumes "\<forall>n at. Note n at \<in> E \<longrightarrow> n \<le> k \<or> (\<exists>m \<in> set ms. n \<le> glsn m \<and> gat m \<le> at)" and "spaced ms"
  shows "\<forall>n at. Note n at \<in> E \<longrightarrow> n \<le> k \<or> (\<exists>m \<in> set (pairs ms). n \<le> glsn m \<and> gat m \<le> at)"
proof -
  have "\<exists>m' \<in> set (pairs ms). glsn m \<le> glsn m' \<and> gat m' \<le> gat m" if "m \<in> set ms" for m
    using assms(2) that
  proof (induction ms rule: pairs.induct)
    case (1 a b ms)
    then show ?case by (fastforce simp: spaced_def ageGranularity_def less_imp_le)
  qed auto
  then show ?thesis using assms(1) by (meson order_trans)
qed

lemma appendMark_covered:
  assumes c: "covered evs t" and ok: "ages_ok t"
  shows "covered (evs @ [Note n now]) (appendMark n now t)"
proof -
  have "\<forall>n at. Note n at \<in> set evs \<longrightarrow> n \<le> trimmed t \<or> (\<exists>m \<in> set (pairs (marks t)). n \<le> glsn m \<and> gat m \<le> at)"
    using c ok covered_pairs [of "set evs" "trimmed t" "marks t"] by (simp add: covered_def ages_ok_def)
  moreover have "\<forall>m \<in> set (pairs (marks t)). gat m \<in> set (noteTimes evs) \<and> (\<exists>at. Note (glsn m) at \<in> set evs)"
    using c pairs_origin [of _ "marks t"] unfolding covered_def by metis
  ultimately show ?thesis
    using c by (auto simp: covered_def appendMark_def mergeLoop_pairs Let_def)
qed

lemma note_covered:
  assumes c: "covered evs t" and ok: "ages_ok t" and mono: "\<forall>at \<in> set (noteTimes evs). at \<le> now"
  shows "covered (evs @ [Note n now]) (ageNote n now t)"
proof -
  have old: "gat m \<le> now" if "m \<in> set (marks t)" for m using c mono that by (auto simp: covered_def)
  consider (same) "ageNote n now t = t" "n \<le> trimmed t \<or> (\<exists>m \<in> set (marks t). n \<le> glsn m)"
    | (grown) "ageNote n now t = t\<lparr>marks := butlast (marks t) @ [(last (marks t))\<lparr>glsn := n\<rparr>]\<rparr>" "marks t \<noteq> []"
        "glsn (last (marks t)) < n"
    | (added) "ageNote n now t = appendMark n now t"
    unfolding ageNote_def Let_def by (metis last_in_set not_le)
  then show ?thesis
  proof cases
    case same
    then show ?thesis using c old by (auto simp: covered_def)
  next
    case grown
    have "m \<in> set (butlast (marks t)) \<or> m = last (marks t)" if "m \<in> set (marks t)" for m
      using that grown(2) by (metis append_butlast_last_id rotate1.simps(2) set_ConsD set_rotate1)
    then show ?thesis
      using c old [of "last (marks t)"] grown unfolding grown(1) covered_def
      by (fastforce dest: in_set_butlastD)
  next
    case added
    then show ?thesis using appendMark_covered c ok by simp
  qed
qed

lemma dropWhile_mem: "x \<in> set xs \<Longrightarrow> x \<in> set (dropWhile P xs) \<or> P x"
  by (induction xs) auto

lemma trim_covered:
  assumes c: "covered evs t"
  shows "covered (evs @ [Trim k]) (trim k t)"
proof -
  let ?d = "dropWhile (\<lambda>a. glsn a \<le> k) (marks t)"
  have "n \<le> max (trimmed t) k \<or> (\<exists>m \<in> set ?d. n \<le> glsn m \<and> gat m \<le> at)" if n: "Note n at \<in> set evs" for n at
  proof (cases "n \<le> trimmed t")
    case False
    then obtain m where m: "m \<in> set (marks t)" "n \<le> glsn m" "gat m \<le> at" using c n unfolding covered_def by blast
    then show ?thesis using dropWhile_mem [OF m(1), of "\<lambda>a. glsn a \<le> k"] by (auto simp: le_max_iff_disj intro: order_trans)
  qed (simp add: le_max_iff_disj)
  then show ?thesis using c by (auto simp: covered_def trim_def dest: set_dropWhileD)
qed

lemma ageRun_covered:
  "sorted (noteTimes evs) \<Longrightarrow> covered evs (ageRun evs newAgeTracker)"
proof (induction evs rule: rev_induct)
  case Nil
  then show ?case by (simp add: covered_def ageRun_def newAgeTracker_def)
next
  case (snoc ev evs)
  let ?t = "ageRun evs newAgeTracker"
  have ok: "ages_ok ?t" using age.steps_inv [OF ageRun_steps new_ok] .
  have "ageRun (evs @ [ev]) newAgeTracker = ageDo ev ?t" by (simp add: ageRun_def)
  moreover have "covered evs ?t" using snoc by (cases ev) (simp_all add: sorted_append)
  ultimately show ?case
    using snoc.prems note_covered [OF _ ok] trim_covered by (cases ev) (simp_all add: sorted_append)
qed

subsection \<open>Properties\<close>

text \<open>The queue of marks is bounded and ordered in every run, whatever the clock does: at most 512 marks,
  strictly increasing in LSN, at least the granularity apart in time, and none at or below what has
  been delivered.\<close>

theorem age_queue_bounded:
  "length (marks (ageRun evs newAgeTracker)) \<le> 512
   \<and> sorted_wrt (\<lambda>a b. glsn a < glsn b \<and> gat a + ageGranularity \<le> gat b) (marks (ageRun evs newAgeTracker))
   \<and> list_all (\<lambda>m. trimmed (ageRun evs newAgeTracker) < glsn m) (marks (ageRun evs newAgeTracker))"
  using age.steps_inv [OF ageRun_steps new_ok, of evs]
  by (simp add: ages_ok_def spaced_def ageMaxMarks_def list_all_iff)

text \<open>An age is never understated: when the notes reach the tracker in the order of their clock readings,
  the reported age of the backlog is at least that of every record that was noted and is not yet
  delivered, however often marks were coalesced; and a backlog is reported at all only if one is
  there, also when a note arrives after the delivery that should have removed it.\<close>

theorem age_never_understated:
  assumes "sorted (noteTimes evs)"
  shows "(\<forall>n at now. Note n at \<in> set evs \<longrightarrow> trimmed (ageRun evs newAgeTracker) < n
            \<longrightarrow> now - at \<le> oldest now (ageRun evs newAgeTracker))
       \<and> ((\<forall>n at. Note n at \<in> set evs \<longrightarrow> n \<le> trimmed (ageRun evs newAgeTracker)) \<longrightarrow> marks (ageRun evs newAgeTracker) = [])"
proof -
  let ?t = "ageRun evs newAgeTracker"
  have c: "covered evs ?t" using ageRun_covered [OF assms] .
  have ok: "ages_ok ?t" using age.steps_inv [OF ageRun_steps new_ok] .
  have head: "gat (hd (marks ?t)) \<le> gat m" if "m \<in> set (marks ?t)" for m
    using ok that by (cases "marks ?t") (auto simp: ages_ok_def spaced_def ageGranularity_def)
  have "now - at \<le> oldest now ?t" if n: "Note n at \<in> set evs" "trimmed ?t < n" for n at now
  proof -
    obtain m where m: "m \<in> set (marks ?t)" "gat m \<le> at" using c n by (force simp: covered_def)
    then show ?thesis using head [OF m(1)] by (cases "marks ?t") (auto simp: oldest_def)
  qed
  moreover have "marks ?t = []" if "\<forall>n at. Note n at \<in> set evs \<longrightarrow> n \<le> trimmed ?t"
  proof (rule ccontr)
    assume "marks ?t \<noteq> []"
    then have "hd (marks ?t) \<in> set (marks ?t)" by simp
    then show False using c ok that by (metis ages_ok_def covered_def not_le)
  qed
  ultimately show ?thesis by blast
qed

definition sample_ages :: "ageEvent list" where
  "sample_ages = [Note 4 0, Note 6 50000000, Note 9 200000000, Trim 6, Note 5 300000000]"

lemma sample_ages_run: "ageRun sample_ages newAgeTracker = \<lparr>marks = [\<lparr>glsn = 9, gat = 200000000\<rparr>], trimmed = 6\<rparr>"
  by (simp add: ageRun_def sample_ages_def newAgeTracker_def ageNote_def appendMark_def trim_def ageMaxMarks_def
      ageGranularity_def)

theorem age_never_understated_witness:
  "sorted (noteTimes sample_ages) \<and> 300000000 - 200000000 \<le> oldest 300000000 (ageRun sample_ages newAgeTracker)"
proof -
  have s: "sorted (noteTimes sample_ages)" by (simp add: sample_ages_def noteTimes_def)
  have "Note 9 200000000 \<in> set sample_ages" by (simp add: sample_ages_def)
  moreover have "trimmed (ageRun sample_ages newAgeTracker) < 9" by (simp add: sample_ages_run)
  ultimately show ?thesis using age_never_understated [OF s] s by blast
qed

end
