(* ===== verification/Buffer.thy ===== *)
theory Buffer
  imports Observer Acks Ages Wal
begin

text \<open>
  The buffer's own state and the operations on it: \<^verbatim>\<open>batch.go\<close>, and the accounting half of \<^verbatim>\<open>flush.go\<close>.

  The buffer is shared by the writers, the flusher, the deliveries and the checkpointer. Each
  definition is one critical section, or the body of one call; where a call waits or reads the shared
  state again, what the other goroutines have done in the meantime is an argument, a function on the
  state. A loop takes a list of such moments, one for each of its turns, and returns \<open>None\<close> while it is
  still waiting at the end of the list. Atomic counters of records and bytes are integers; the
  cumulative \<^verbatim>\<open>uint64\<close> counters wrap.
\<close>

subsection \<open>State\<close>

record buf =
  cfg :: config
  hasDlq :: bool
  ackT :: ackTracker
  pendingRecords :: int
  pendingBytes :: int
  ages :: ageTracker
  sinkFailures :: int
  observerPanics :: u64
  failingBatches :: int
  dropFloor :: u64
  cWritten :: u64
  cFlushed :: u64
  cDropped :: u64
  cDeadLettered :: u64
  cRetries :: u64
  cDiskFull :: u64
  space :: gate
  progress :: gate
  floors :: gate
  wake :: bool
  semUsed :: nat
  sealed :: bool
  writers :: nat
  closing :: bool
  drainNow :: bool
  aborted :: bool
  drained :: bool
  cpStop :: bool
  cpDone :: bool
  deliverCancelled :: bool
  closingCancelled :: bool
  closedOnce :: bool
  bufCloseErr :: "error option"
  lastCP :: u64
  fatalErr :: "error option"
  cpErr :: "error option"
  forceFlush :: bool
  obs :: "dispatcher option"

definition isDiskFull :: "error \<Rightarrow> bool" where
  "isDiskFull e \<longleftrightarrow> errors_is e (Errno ENOSPC) \<or> errors_is e (Errno EDQUOT)"

subsection \<open>Telling the observer\<close>

text \<open>A hook runs inline, and a panic in it is counted; or it is queued.\<close>

definition emit :: "event \<Rightarrow> buf \<Rightarrow> buf" where
  "emit ev b = (case hookOf (observerC (cfg b)) ev of
      None \<Rightarrow> b
    | Some r \<Rightarrow> (case obs b of
         None \<Rightarrow> (if protect r \<noteq> None then b\<lparr>observerPanics := observerPanics b + 1\<rparr> else b)
       | Some d \<Rightarrow> b\<lparr>obs := Some (post ev d)\<rparr>))"

definition dropped :: "int \<Rightarrow> dropReason \<Rightarrow> buf \<Rightarrow> buf" where
  "dropped n reason b = emit (EvDrop n reason) (b\<lparr>cDropped := cDropped b + of_int n\<rparr>)"

definition wrote :: "int \<Rightarrow> int \<Rightarrow> buf \<Rightarrow> buf" where
  "wrote n byt b = emit (EvWrite n byt) (b\<lparr>cWritten := cWritten b + of_int n\<rparr>)"

definition observeFlush :: "flushInfo \<Rightarrow> buf \<Rightarrow> buf" where
  "observeFlush info = emit (EvFlush info)"

definition observeBackpressure :: "bstate \<Rightarrow> decision \<Rightarrow> buf \<Rightarrow> buf" where
  "observeBackpressure s d = emit (EvBackpressure s d)"

definition deadLettered :: "int \<Rightarrow> buf \<Rightarrow> buf" where
  "deadLettered n b = emit (EvDeadLetter n) (b\<lparr>cDeadLettered := cDeadLettered b + of_int n\<rparr>)"

definition checkpointed :: "u64 \<Rightarrow> buf \<Rightarrow> buf" where
  "checkpointed n = emit (EvCheckpoint n)"

definition observerDropped :: "buf \<Rightarrow> u64" where
  "observerDropped b = observerPanics b + (case obs b of Some d \<Rightarrow> ddropped d | None \<Rightarrow> 0)"

subsection \<open>Failing\<close>

definition bufFail :: "error \<Rightarrow> buf \<Rightarrow> buf" where
  "bufFail e b = b\<lparr>fatalErr := (case fatalErr b of None \<Rightarrow> Some e | Some e0 \<Rightarrow> Some e0), space := signal (space b)\<rparr>"

definition failure :: "buf \<Rightarrow> error option" where
  "failure b = (case fatalErr b of Some e \<Rightarrow> Some (Wrap ''failed'' [BErrFailed, e]) | None \<Rightarrow> None)"

definition noteRetryable :: "error \<Rightarrow> buf \<Rightarrow> buf" where
  "noteRetryable e b = b\<lparr>cpErr := Some e\<rparr>"

definition clearRetryable :: "buf \<Rightarrow> buf" where
  "clearRetryable b = b\<lparr>cpErr := None\<rparr>"

subsection \<open>Capacity\<close>

definition nudge :: "buf \<Rightarrow> buf" where
  "nudge b = b\<lparr>wake := True\<rparr>"

definition enter :: "buf \<Rightarrow> error option \<times> buf" where
  "enter b = (case failure b of
      Some e \<Rightarrow> (Some e, b)
    | None \<Rightarrow> if sealed b then (Some BErrClosed, b) else (None, b\<lparr>writers := Suc (writers b)\<rparr>))"

definition writersDone :: "buf \<Rightarrow> buf" where
  "writersDone b = b\<lparr>writers := writers b - 1\<rparr>"

definition fits :: "int \<Rightarrow> int \<Rightarrow> buf \<Rightarrow> error option" where
  "fits n sz b =
     (if maxRecords (cfg b) > 0 \<and> n > maxRecords (cfg b) then Some (Wrap ''records'' [BErrTooLarge])
      else if maxBytes (cfg b) > 0 \<and> sz > maxBytes (cfg b) then Some (Wrap ''bytes'' [BErrTooLarge])
      else None)"

text \<open>
  Two atomic additions, each of which returns the new value, and the two that take them back.
\<close>

definition addRecords :: "int \<Rightarrow> buf \<Rightarrow> buf" where
  "addRecords n b = b\<lparr>pendingRecords := pendingRecords b + n\<rparr>"

definition addBytes :: "int \<Rightarrow> buf \<Rightarrow> buf" where
  "addBytes sz b = b\<lparr>pendingBytes := pendingBytes b + sz\<rparr>"

definition exceeds :: "config \<Rightarrow> int \<Rightarrow> int \<Rightarrow> bool" where
  "exceeds c records bytes \<longleftrightarrow> maxRecords c > 0 \<and> records > maxRecords c \<or> maxBytes c > 0 \<and> bytes > maxBytes c"

type_synonym bufEnv = "buf \<Rightarrow> buf"

text \<open>
  \<^verbatim>\<open>reserve\<close>, one atomic operation at a time. A value is the place a writer has reached, with the local
  variables it has there: what it asked for, and what its two additions returned.
\<close>

datatype reserving =
    RAddRecords int int
  | RAddBytes int int int
  | RCheck int int int int
  | RUndoRecords int int int int
  | RUndoBytes int int int int
  | RGranted int int int int
  | RRefused

fun reserveStep :: "reserving \<Rightarrow> buf \<Rightarrow> reserving \<times> buf" where
  "reserveStep (RAddRecords n sz) b = (let b' = addRecords n b in (RAddBytes n sz (pendingRecords b'), b'))"
| "reserveStep (RAddBytes n sz records) b = (let b' = addBytes sz b in (RCheck n sz records (pendingBytes b'), b'))"
| "reserveStep (RCheck n sz records bytes) b =
     (if exceeds (cfg b) records bytes then (RUndoRecords n sz records bytes, b) else (RGranted n sz records bytes, b))"
| "reserveStep (RUndoRecords n sz records bytes) b = (RUndoBytes n sz records bytes, addRecords (- n) b)"
| "reserveStep (RUndoBytes n sz records bytes) b = (RRefused, addBytes (- sz) b)"
| "reserveStep (RGranted n sz records bytes) b = (RGranted n sz records bytes, b)"
| "reserveStep RRefused b = (RRefused, b)"

text \<open>The whole call. The functions are what others do between its additions.\<close>

definition reserve :: "bufEnv \<times> bufEnv \<times> bufEnv \<Rightarrow> int \<Rightarrow> int \<Rightarrow> buf \<Rightarrow> bool \<times> buf" where
  "reserve envs n sz b =
     (case envs of (env1, env2, env3) \<Rightarrow>
      case reserveStep (RAddRecords n sz) b of (p1, b1) \<Rightarrow>
      case reserveStep p1 (env1 b1) of (p2, b2) \<Rightarrow>
      case reserveStep p2 b2 of
        (RGranted _ _ _ _, b3) \<Rightarrow> (True, b3)
      | (p3, b3) \<Rightarrow>
          case reserveStep p3 (env2 b3) of (p4, b4) \<Rightarrow>
          case reserveStep p4 (env3 b4) of (_, b5) \<Rightarrow> (False, b5))"

lemma reserve_eq:
  "reserve (env1, env2, env3) n sz b =
     (let b1 = addRecords n b; b2 = addBytes sz (env1 b1)
      in if exceeds (cfg b2) (pendingRecords b1) (pendingBytes b2)
         then (False, addBytes (- sz) (env3 (addRecords (- n) (env2 b2)))) else (True, b2))"
  by (simp add: reserve_def Let_def)

definition release :: "int \<Rightarrow> int \<Rightarrow> buf \<Rightarrow> buf" where
  "release n sz b = (let b1 = addBytes (- sz) (addRecords (- n) b) in b1\<lparr>space := signal (space b1)\<rparr>)"

definition accept :: "int \<Rightarrow> u64 \<Rightarrow> int \<Rightarrow> int \<Rightarrow> buf \<Rightarrow> buf" where
  "accept now lst n sz b = nudge (wrote n sz (b\<lparr>ages := ageNote lst now (ages b)\<rparr>))"

subsection \<open>Shedding the backlog\<close>

text \<open>The compare-and-swap loop. Each function is what happens between a load and the swap behind it.\<close>

fun raiseFloor :: "bufEnv list \<Rightarrow> u64 \<Rightarrow> buf \<Rightarrow> buf" where
  "raiseFloor [] new b = (if new \<le> dropFloor b then b else b\<lparr>dropFloor := new, floors := signal (floors b)\<rparr>)"
| "raiseFloor (env # envs) new b =
     (if new \<le> dropFloor b then b
      else if dropFloor (env b) = dropFloor b then (env b)\<lparr>dropFloor := new, floors := signal (floors (env b))\<rparr>
      else raiseFloor envs new (env b))"

text \<open>Go's integer division cuts off towards zero.\<close>

definition goDiv :: "int \<Rightarrow> int \<Rightarrow> int" where
  "goDiv a d = (if a \<ge> 0 then a div d else - ((- a) div d))"

text \<open>The three numbers are loaded one after the other; the first component says what others do in between.\<close>

definition dropOldest :: "(bufEnv \<times> bufEnv) \<times> bufEnv list \<Rightarrow> int \<Rightarrow> int \<Rightarrow> buf \<Rightarrow> buf" where
  "dropOldest envs n sz b =
     (case envs of ((env1, env2), swaps) \<Rightarrow>
      let records = pendingRecords b in
      if records \<le> 0 then b
      else
        let b1 = env1 b;
            avg = max (goDiv (pendingBytes b1) records) 1;
            want = min (max (n + goDiv n 4 + 1) (goDiv sz avg)) records;
            b2 = env2 b1
        in nudge (raiseFloor swaps (mark (ackT b2) + 1 + of_int want) b2))"

subsection \<open>Asking the policy\<close>

definition stateOf :: "int \<Rightarrow> duration \<Rightarrow> int \<Rightarrow> buf \<Rightarrow> bstate" where
  "stateOf attempt waited now b = \<lparr>sRecords = pendingRecords b, sBytes = pendingBytes b, sMaxRecords = maxRecords (cfg b),
     sMaxBytes = maxBytes (cfg b), sOldestAge = oldest now (ages b), sSinkFailures = sinkFailures b, sDiskFull = False,
     sAttempt = attempt, sWaited = waited\<rparr>"

text \<open>\<open>env\<close> is what happens while the policy runs.\<close>

definition decide :: "bool \<Rightarrow> bufEnv \<Rightarrow> bstate \<Rightarrow> buf \<Rightarrow> (decision \<times> error option) \<times> buf" where
  "decide ctxDone env st b =
     (let d = onFull (cfg b) (ctxDone \<or> closingCancelled b) st;
          b1 = observeBackpressure st d (env b)
      in ((d, if closing b1 then Some BErrClosed else None), b1))"

datatype selected = Signalled | TimerFired | CtxDone error | ClosingSeen

text \<open>One turn of a waiting writer: what it reads, and what the others do before, while and after the policy decides.\<close>

record moment =
  mBefore :: bufEnv
  mReserve :: "bufEnv \<times> bufEnv \<times> bufEnv"
  mCtxErr :: "error option"
  mCtxDone :: bool
  mNow :: int
  mWaited :: duration
  mPolicy :: bufEnv
  mShed :: "(bufEnv \<times> bufEnv) \<times> bufEnv list"
  mWait :: bufEnv
  mSlept :: duration
  mSelect :: selected

text \<open>Which cases of the \<^verbatim>\<open>select\<close> are ready: \<open>parked\<close> is the channel taken from the gate, \<open>wait\<close> what the timer was set to.\<close>

definition ready :: "nat \<Rightarrow> duration \<Rightarrow> duration \<Rightarrow> selected \<Rightarrow> buf \<Rightarrow> bool" where
  "ready parked wait slept sel b = (case sel of
      Signalled \<Rightarrow> isClosed parked (space b)
    | TimerFired \<Rightarrow> wait \<le> slept
    | CtxDone e \<Rightarrow> True
    | ClosingSeen \<Rightarrow> closing b)"

definition blockRetryFloor :: duration where "blockRetryFloor = millis 1"

definition blockRetryInterval :: duration where "blockRetryInterval = millis 100"

definition diskFullRetryInterval :: duration where "diskFullRetryInterval = millis 100"

text \<open>What a turn comes to: an answer, a wait that is not over, or another turn.\<close>

datatype admission = Decided "error + bool" buf | Parked | TryAgain buf

definition park :: "moment \<Rightarrow> nat \<Rightarrow> duration \<Rightarrow> buf \<Rightarrow> admission" where
  "park m parked wait b =
     (let b1 = mWait m b in
      if \<not> ready parked wait (mSlept m) (mSelect m) b1 then Parked
      else case mSelect m of
          CtxDone e \<Rightarrow> Decided (Inl e) b1
        | ClosingSeen \<Rightarrow> Decided (Inl BErrClosed) b1
        | _ \<Rightarrow> TryAgain b1)"

definition admitTurn :: "moment \<Rightarrow> duration \<Rightarrow> int \<Rightarrow> int \<Rightarrow> int \<Rightarrow> buf \<Rightarrow> admission" where
  "admitTurn m wait attempt n sz b =
     (let b0 = mBefore m b; parked = gateWait (space b0) in
      case reserve (mReserve m) n sz b0 of
        (True, b1) \<Rightarrow> Decided (Inr True) b1
      | (False, b1) \<Rightarrow>
          (case mCtxErr m of
             Some e \<Rightarrow> Decided (Inl e) b1
           | None \<Rightarrow>
          (case failure b1 of
             Some e \<Rightarrow> Decided (Inl e) b1
           | None \<Rightarrow>
          (case decide (mCtxDone m) (mPolicy m) (stateOf attempt (mWaited m) (mNow m) b1) b1 of
             ((d, Some e), b2) \<Rightarrow> Decided (Inl e) b2
           | ((d, None), b2) \<Rightarrow>
              (if d = DecisionReject then Decided (Inl BErrFull) b2
               else if d = DecisionDropNewest then Decided (Inr False) (dropped n ReasonPolicy b2)
               else park m parked wait (if d = DecisionDropOldest then dropOldest (mShed m) n sz b2 else b2))))))"

fun admit :: "moment list \<Rightarrow> duration \<Rightarrow> int \<Rightarrow> int \<Rightarrow> int \<Rightarrow> buf \<Rightarrow> ((error + bool) \<times> buf) option" where
  "admit [] wait attempt n sz b = None"
| "admit (m # ms) wait attempt n sz b =
     (case admitTurn m wait attempt n sz b of
        Decided r b1 \<Rightarrow> Some (r, b1)
      | Parked \<Rightarrow> None
      | TryAgain b1 \<Rightarrow> admit ms (min (2 * wait) blockRetryInterval) (attempt + 1) n sz b1)"

definition onDiskFull :: "moment \<Rightarrow> int \<Rightarrow> int \<Rightarrow> int \<Rightarrow> buf \<Rightarrow> admission" where
  "onDiskFull m attempt n sz b =
     (let b0 = mBefore m (b\<lparr>cDiskFull := cDiskFull b + 1\<rparr>);
          parked = gateWait (space b0)
      in case decide (mCtxDone m) (mPolicy m) ((stateOf attempt (mWaited m) (mNow m) b0)\<lparr>sDiskFull := True\<rparr>) b0 of
        ((d, Some e), b1) \<Rightarrow> Decided (Inl e) b1
      | ((d, None), b1) \<Rightarrow>
          (if d = DecisionReject then Decided (Inl BErrDiskFull) b1
           else if d = DecisionDropNewest then Decided (Inr False) (dropped n ReasonPolicy b1)
           else park m parked diskFullRetryInterval (nudge (if d = DecisionDropOldest then dropOldest (mShed m) n sz b1 else b1))))"

subsection \<open>Finishing a range\<close>

definition complete :: "u64 \<Rightarrow> u64 \<Rightarrow> int \<Rightarrow> int \<Rightarrow> buf \<Rightarrow> buf" where
  "complete from to n sz b =
     (case ack from to n sz (ackT b) of ((m, freedCount, freedBytes), t) \<Rightarrow>
      let b1 = release freedCount freedBytes (b\<lparr>ackT := t, ages := trim m (ages b)\<rparr>)
      in b1\<lparr>progress := signal (progress b1)\<rparr>)"

subsection \<open>A new buffer\<close>

definition newBuffer :: "config \<Rightarrow> bool \<Rightarrow> u64 \<Rightarrow> buf" where
  "newBuffer c dlq checkpoint = \<lparr>cfg = c, hasDlq = dlq, ackT = newAckTracker checkpoint, pendingRecords = 0, pendingBytes = 0,
     ages = newAgeTracker, sinkFailures = 0, observerPanics = 0, failingBatches = 0, dropFloor = checkpoint + 1,
     cWritten = 0, cFlushed = 0, cDropped = 0, cDeadLettered = 0, cRetries = 0, cDiskFull = 0,
     space = newGate, progress = newGate, floors = newGate, wake = False, semUsed = 0, sealed = False, writers = 0,
     closing = False, drainNow = False, aborted = False, drained = False, cpStop = False, cpDone = False,
     deliverCancelled = False, closingCancelled = False, closedOnce = False, bufCloseErr = None, lastCP = checkpoint,
     fatalErr = None, cpErr = None, forceFlush = False, obs = None\<rparr>"

subsection \<open>What the operations leave alone\<close>

lemma emit_frame [simp]:
  "cfg (emit ev b) = cfg b" "ackT (emit ev b) = ackT b" "fatalErr (emit ev b) = fatalErr b" "aborted (emit ev b) = aborted b"
  "dropFloor (emit ev b) = dropFloor b" "pendingRecords (emit ev b) = pendingRecords b" "pendingBytes (emit ev b) = pendingBytes b"
  "failingBatches (emit ev b) = failingBatches b" "writers (emit ev b) = writers b" "closing (emit ev b) = closing b"
  "cWritten (emit ev b) = cWritten b" "cDropped (emit ev b) = cDropped b" "sinkFailures (emit ev b) = sinkFailures b"
  "ages (emit ev b) = ages b" "space (emit ev b) = space b" "lastCP (emit ev b) = lastCP b" "semUsed (emit ev b) = semUsed b"
  by (simp_all add: emit_def split: option.splits)

lemmas hook_defs = dropped_def wrote_def observeFlush_def observeBackpressure_def deadLettered_def checkpointed_def

lemma bufFail_failed [simp]: "fatalErr (bufFail e b) \<noteq> None"
  by (simp add: bufFail_def split: option.splits)

lemma complete_frame [simp]:
  "cfg (complete f l n sz b) = cfg b" "fatalErr (complete f l n sz b) = fatalErr b" "aborted (complete f l n sz b) = aborted b"
  "dropFloor (complete f l n sz b) = dropFloor b" "failingBatches (complete f l n sz b) = failingBatches b"
  "ackT (complete f l n sz b) = snd (ack f l n sz (ackT b))"
  by (simp_all add: complete_def release_def addRecords_def addBytes_def Let_def split: prod.splits)

end
