(* ===== verification/Writes.thy ===== *)
theory Writes
  imports Buffer
begin

text \<open>
  Writing: \<^verbatim>\<open>Write\<close> and \<^verbatim>\<open>WriteBatch\<close> of \<^verbatim>\<open>batch.go\<close>.

  A write encodes its records into one buffer and cuts it into payloads, reserves capacity, appends
  to the log and waits for the round. Each attempt has its own script: the turns of \<open>admit\<close>, what
  others do to the log before the append and to everything while the write waits for the round, and
  the turn of the policy should the disk be full. \<open>None\<close> means that the write is still waiting when
  the script ends.
\<close>

subsection \<open>Encoding\<close>

text \<open>The records are encoded one behind the other, and \<open>ends\<close> keeps where each of them ends.\<close>

fun encodeAll :: "(bytes \<Rightarrow> 'a \<Rightarrow> error + bytes) \<Rightarrow> 'a list \<Rightarrow> bytes \<Rightarrow> nat list \<Rightarrow> error + bytes \<times> nat list" where
  "encodeAll enc [] b ends = Inr (b, ends)"
| "encodeAll enc (v # vs) b ends = (case enc b v of
      Inl e \<Rightarrow> Inl (Wrap ''batch: encode record'' [e])
    | Inr b' \<Rightarrow> encodeAll enc vs b' (ends @ [length b']))"

fun cutPayloads :: "nat \<Rightarrow> nat list \<Rightarrow> bytes \<Rightarrow> bytes list" where
  "cutPayloads start [] b = []"
| "cutPayloads start (e # ends) b = take (e - start) (drop start b) # cutPayloads e ends b"

subsection \<open>One write\<close>

record writeTurn =
  wAdmit :: "moment list"
  wLog :: env
  wAwait :: "buf \<Rightarrow> log \<Rightarrow> fs \<Rightarrow> buf \<times> log \<times> fs"
  wCtxErr :: "error option"
  wTakeCtx :: bool
  wNow :: int
  wDiskFull :: moment

text \<open>A settler is started when the write leaves a round in flight; it holds a writer's slot of its own.\<close>

record settler =
  stCommit :: commit_handle
  stCount :: int
  stBytes :: int

definition settle :: "commit_handle \<Rightarrow> int \<Rightarrow> int \<Rightarrow> buf \<Rightarrow> settler \<times> buf" where
  "settle c n sz b = (\<lparr>stCommit = c, stCount = n, stBytes = sz\<rparr>, b\<lparr>writers := Suc (writers b)\<rparr>)"

text \<open>What the settler does when the round has been decided, as \<open>awaited\<close> tells, and how its slot is given back.\<close>

definition settled :: "error option \<Rightarrow> int \<Rightarrow> settler \<Rightarrow> buf \<Rightarrow> buf" where
  "settled awaited now s b =
     writersDone (case awaited of
        Some _ \<Rightarrow> release (stCount s) (stBytes s) b
      | None \<Rightarrow> accept now (Last (stCommit s)) (stCount s) (stBytes s) b)"

record writeResult =
  wErr :: "error option"
  wSettler :: "settler option"

definition returns :: "error option \<Rightarrow> writeResult" where
  "returns e = \<lparr>wErr = e, wSettler = None\<rparr>"

text \<open>After the append or its round failed: the reservation goes back, and the error is told apart.\<close>

definition appendFailed :: "moment \<Rightarrow> int \<Rightarrow> int \<Rightarrow> int \<Rightarrow> error \<Rightarrow> buf \<Rightarrow> admission" where
  "appendFailed m attempt n sz e b =
     (let b1 = release n sz b in
      if errors_is e ErrBroken then
        (let b2 = bufFail (Wrap ''batch: append'' [e]) b1 in Decided (Inl (the (failure b2))) b2)
      else if \<not> isDiskFull e then Decided (Inl (Wrap ''batch: append'' [e])) b1
      else onDiskFull m attempt n sz b1)"

text \<open>The append and the wait for its round, once capacity is reserved.\<close>

datatype appended = Accepted buf log fs | Uncertain error settler buf log fs | AppendError error buf log fs | Awaiting

definition appendAwait :: "writeTurn \<Rightarrow> bytes list \<Rightarrow> int \<Rightarrow> int \<Rightarrow> buf \<Rightarrow> log \<Rightarrow> fs \<Rightarrow> appended" where
  "appendAwait t payloads n sz b l w =
     (case wLog t l w of (l0, w0) \<Rightarrow>
      case appendBatchAsync payloads l0 w0 of
        (Inl e, l1, w1) \<Rightarrow> AppendError e b l1 w1
      | (Inr c, l1, w1) \<Rightarrow>
          (case wAwait t b l1 w1 of (b2, l2, w2) \<Rightarrow>
           case await c (wCtxErr t) (wTakeCtx t) l2 of
             None \<Rightarrow> Awaiting
           | Some None \<Rightarrow> Accepted (accept (wNow t) (Last c) n sz b2) l2 w2
           | Some (Some e) \<Rightarrow>
               if errors_is e ErrPending then (case settle c n sz b2 of (s, b3) \<Rightarrow> Uncertain e s b3 l2 w2)
               else AppendError e b2 l2 w2))"

definition refusal :: "error + bool \<Rightarrow> error option" where
  "refusal r = (case r of Inl e \<Rightarrow> Some e | Inr _ \<Rightarrow> None)"

fun writeLoop :: "writeTurn list \<Rightarrow> int \<Rightarrow> bytes list \<Rightarrow> int \<Rightarrow> int \<Rightarrow> buf \<Rightarrow> log \<Rightarrow> fs
    \<Rightarrow> (writeResult \<times> buf \<times> log \<times> fs) option" where
  "writeLoop [] attempt payloads n sz b l w = None"
| "writeLoop (t # ts) attempt payloads n sz b l w =
     (case admit (wAdmit t) blockRetryFloor 1 n sz b of
        None \<Rightarrow> None
      | Some (r, b1) \<Rightarrow>
          if r \<noteq> Inr True then Some (returns (refusal r), b1, l, w)
          else case appendAwait t payloads n sz b1 l w of
              Awaiting \<Rightarrow> None
            | Accepted b2 l2 w2 \<Rightarrow> Some (returns None, b2, l2, w2)
            | Uncertain e s b2 l2 w2 \<Rightarrow>
                Some (\<lparr>wErr = Some (Wrap ''write'' [BErrUncertain, e]), wSettler = Some s\<rparr>, b2, l2, w2)
            | AppendError e b2 l2 w2 \<Rightarrow>
                (case appendFailed (wDiskFull t) attempt n sz e b2 of
                   Decided r b3 \<Rightarrow> Some (returns (refusal r), b3, l2, w2)
                 | Parked \<Rightarrow> None
                 | TryAgain b3 \<Rightarrow> writeLoop ts (attempt + 1) payloads n sz b3 l2 w2))"

text \<open>\<open>ctxErr\<close> is the error of the context when the write begins.\<close>

definition WriteBatch :: "(bytes \<Rightarrow> 'a \<Rightarrow> error + bytes) \<Rightarrow> error option \<Rightarrow> writeTurn list \<Rightarrow> 'a list \<Rightarrow> buf \<Rightarrow> log \<Rightarrow> fs
    \<Rightarrow> (writeResult \<times> buf \<times> log \<times> fs) option" where
  "WriteBatch enc ctxErr ts vs b l w =
     (if vs = [] then Some (returns None, b, l, w)
      else case enter b of
        (Some e, b1) \<Rightarrow> Some (returns (Some e), b1, l, w)
      | (None, b1) \<Rightarrow>
          (case
             (case ctxErr of
                Some e \<Rightarrow> Some (returns (Some e), b1, l, w)
              | None \<Rightarrow>
                  (case encodeAll enc vs [] [] of
                     Inl e \<Rightarrow> Some (returns (Some e), b1, l, w)
                   | Inr (buf, ends) \<Rightarrow>
                       let n = int (length vs); sz = int (length buf) in
                       case fits n sz b1 of
                         Some e \<Rightarrow> Some (returns (Some e), b1, l, w)
                       | None \<Rightarrow> writeLoop ts 1 (cutPayloads 0 ends buf) n sz b1 l w))
           of None \<Rightarrow> None
            | Some (r, b2, l2, w2) \<Rightarrow> Some (r, writersDone b2, l2, w2)))"

definition Write :: "(bytes \<Rightarrow> 'a \<Rightarrow> error + bytes) \<Rightarrow> error option \<Rightarrow> writeTurn list \<Rightarrow> 'a \<Rightarrow> buf \<Rightarrow> log \<Rightarrow> fs
    \<Rightarrow> (writeResult \<times> buf \<times> log \<times> fs) option" where
  "Write enc ctxErr ts v b l w = WriteBatch enc ctxErr ts [v] b l w"

end
