(* ===== verification/WriteProperties.thy ===== *)
theory WriteProperties
  imports Writes LogProperties
begin

text \<open>
  What a write guarantees: its payloads decode to the records written, its effect on the accounts is
  that of one of four endings, and a closing buffer releases it. The last property shows where a
  failed buffer does not.
\<close>

subsection \<open>Payloads\<close>

context codec
begin

lemma encodeAll_cuts:
  "encodeAll enc vs b ends = Inr (b', ends') \<Longrightarrow>
   \<exists>ps es. b' = b @ concat ps \<and> list_all2 (\<lambda>p v. dec p = Returns (Inr v)) ps vs \<and> ends' = ends @ es \<and> cutPayloads (length b) es b' = ps"
proof (induction vs arbitrary: b ends)
  case (Cons v vs)
  then obtain b1 where b1: "enc b v = Inr b1" "encodeAll enc vs b1 (ends @ [length b1]) = Inr (b', ends')"
    by (auto split: sum.splits)
  obtain e where e: "b1 = b @ e" "dec e = Returns (Inr v)" using enc_appends [OF b1(1)] by blast
  obtain ps es where ih: "b' = b1 @ concat ps" "list_all2 (\<lambda>p v. dec p = Returns (Inr v)) ps vs" "ends' = (ends @ [length b1]) @ es"
      "cutPayloads (length b1) es b' = ps"
    using Cons.IH [OF b1(2)] by blast
  have "cutPayloads (length b) (length b1 # es) b' = e # ps" using ih(1,4) e(1) by simp
  then show ?case using ih e by (intro exI [of _ "e # ps"] exI [of _ "length b1 # es"]) simp
qed auto

end

subsection \<open>What a write does to the accounts\<close>

definition moved :: "buf \<Rightarrow> int \<Rightarrow> int \<Rightarrow> nat \<Rightarrow> int \<Rightarrow> int \<Rightarrow> buf \<Rightarrow> bool" where
  "moved b n sz k wn dn b' \<longleftrightarrow> pendingRecords b' = pendingRecords b + n \<and> pendingBytes b' = pendingBytes b + sz
     \<and> writers b' = writers b + k \<and> cWritten b' = cWritten b + of_int wn \<and> cDropped b' = cDropped b + of_int dn \<and> cfg b' = cfg b"

text \<open>Others who leave these accounts alone, so that what is left is the write's own doing.\<close>

abbreviation quiet :: "bufEnv \<Rightarrow> bool" where
  "quiet env \<equiv> (\<forall>b. moved b 0 0 0 0 0 (env b))"

definition quiet_moment :: "moment \<Rightarrow> bool" where
  "quiet_moment m \<longleftrightarrow> quiet (mBefore m) \<and> quiet (mPolicy m) \<and> quiet (mWait m)
     \<and> (case mReserve m of (e1, e2, e3) \<Rightarrow> quiet e1 \<and> quiet e2 \<and> quiet e3)
     \<and> (case mShed m of ((e1, e2), es) \<Rightarrow> quiet e1 \<and> quiet e2 \<and> (\<forall>e \<in> set es. quiet e))"

definition quiet_turn :: "writeTurn \<Rightarrow> bool" where
  "quiet_turn t \<longleftrightarrow> (\<forall>m \<in> set (wAdmit t). quiet_moment m) \<and> quiet_moment (wDiskFull t)
     \<and> (\<forall>b l w. moved b 0 0 0 0 0 (fst (wAwait t b l w)))"

lemma moved_refl [simp]: "moved b 0 0 0 0 0 b"
  by (simp add: moved_def)

lemma moved_trans [trans]: "moved b 0 0 0 0 0 b1 \<Longrightarrow> moved b1 n sz k wn dn b2 \<Longrightarrow> moved b n sz k wn dn b2"
  by (simp add: moved_def)

lemma moved_trans' [trans]: "moved b n sz k wn dn b1 \<Longrightarrow> moved b1 0 0 0 0 0 b2 \<Longrightarrow> moved b n sz k wn dn b2"
  by (simp add: moved_def)

lemma moved_release: "moved b n sz k wn dn b1 \<Longrightarrow> moved b (n - m) (sz - s) k wn dn (release m s b1)"
  by (simp add: moved_def release_def addRecords_def addBytes_def Let_def)

lemma moved_simps:
  "moved b n sz k wn dn (emit ev b1) = moved b n sz k wn dn b1"
  "moved b n sz k wn dn (nudge b1) = moved b n sz k wn dn b1"
  "moved b n sz k wn dn (bufFail e b1) = moved b n sz k wn dn b1"
  "moved b n sz k wn dn (b1\<lparr>cDiskFull := x\<rparr>) = moved b n sz k wn dn b1"
  "moved b n sz k wn dn (b1\<lparr>ages := a\<rparr>) = moved b n sz k wn dn b1"
  "moved b n sz k wn dn (b1\<lparr>dropFloor := d, floors := g\<rparr>) = moved b n sz k wn dn b1"
  by (simp_all add: moved_def nudge_def bufFail_def)

lemma moved_raiseFloor:
  "\<forall>e \<in> set envs. quiet e \<Longrightarrow> moved b0 n sz k wn dn b \<Longrightarrow> moved b0 n sz k wn dn (raiseFloor envs new b)"
proof (induction envs new b rule: raiseFloor.induct)
  case (2 env envs new b)
  have "moved b0 n sz k wn dn (env b)" using 2 by (auto intro: moved_trans')
  then show ?case using 2 by (auto simp: moved_simps)
qed (auto simp: moved_simps)

lemma moved_dropOldest:
  assumes "case sh of ((e1, e2), es) \<Rightarrow> quiet e1 \<and> quiet e2 \<and> (\<forall>e \<in> set es. quiet e)" and "moved b0 x y k wn dn b"
  shows "moved b0 x y k wn dn (dropOldest sh n sz b)"
proof -
  obtain e1 e2 es where sh: "sh = ((e1, e2), es)" by (metis surj_pair)
  have "moved b 0 0 0 0 0 (e1 b)" "moved (e1 b) 0 0 0 0 0 (e2 (e1 b))" using assms(1) sh by simp_all
  then have "moved b0 x y k wn dn (e2 (e1 b))" using moved_trans' assms(2) by blast
  then show ?thesis using assms sh moved_raiseFloor by (auto simp: dropOldest_def moved_simps Let_def)
qed

lemma reserve_moves:
  assumes "case envs of (e1, e2, e3) \<Rightarrow> quiet e1 \<and> quiet e2 \<and> quiet e3" and "reserve envs n sz b = (ok, b')"
  shows "if ok then moved b n sz 0 0 0 b' else moved b 0 0 0 0 0 b'"
  using assms
  by (auto simp: reserve_eq moved_def addRecords_def addBytes_def Let_def split: if_splits)

lemma decide_moves:
  assumes "decide done env st b = ((d, err), b')" and "quiet env"
  shows "moved b 0 0 0 0 0 b'"
  using assms by (auto simp: decide_def observeBackpressure_def moved_simps Let_def)

lemma dropped_moves: "moved b 0 0 0 0 n (dropped n reason b)"
  by (simp add: dropped_def moved_simps) (simp add: moved_def)

lemma park_moves:
  assumes "quiet (mWait m)" and "moved b0 0 0 0 0 0 b"
  shows "case park m parked wait b of Decided r b1 \<Rightarrow> moved b0 0 0 0 0 0 b1 \<and> (\<exists>e. r = Inl e) | Parked \<Rightarrow> True | TryAgain b1 \<Rightarrow> moved b0 0 0 0 0 0 b1"
  using assms moved_trans' [OF assms(2)] by (auto simp: park_def Let_def split: selected.splits)

text \<open>What an answer to a waiting writer does: refused, dropped by the policy, or admitted.\<close>

definition answer_moves :: "buf \<Rightarrow> int \<Rightarrow> int \<Rightarrow> error + bool \<Rightarrow> buf \<Rightarrow> bool" where
  "answer_moves b n sz r b' \<longleftrightarrow> (case r of Inl e \<Rightarrow> moved b 0 0 0 0 0 b' | Inr ok \<Rightarrow> if ok then moved b n sz 0 0 0 b' else moved b 0 0 0 0 n b')"

lemma park_answers:
  assumes "quiet (mWait m)" and "moved b0 0 0 0 0 0 b"
  shows "case park m parked wait b of Decided r b1 \<Rightarrow> answer_moves b0 n sz r b1 | Parked \<Rightarrow> True | TryAgain b1 \<Rightarrow> moved b0 0 0 0 0 0 b1"
  using park_moves [OF assms, of parked wait] by (auto simp: answer_moves_def split: admission.splits)

lemma admitTurn_moves:
  assumes "quiet_moment m"
  shows "case admitTurn m wait attempt n sz b of
      Decided r b1 \<Rightarrow> answer_moves b n sz r b1 | Parked \<Rightarrow> True | TryAgain b1 \<Rightarrow> moved b 0 0 0 0 0 b1"
proof -
  have q: "quiet (mBefore m)" "quiet (mPolicy m)" "quiet (mWait m)"
      "case mReserve m of (e1, e2, e3) \<Rightarrow> quiet e1 \<and> quiet e2 \<and> quiet e3"
      "case mShed m of ((e1, e2), es) \<Rightarrow> quiet e1 \<and> quiet e2 \<and> (\<forall>e \<in> set es. quiet e)"
    using assms by (simp_all add: quiet_moment_def)
  obtain ok b1 where r: "reserve (mReserve m) n sz (mBefore m b) = (ok, b1)" by (meson surj_pair)
  have b0: "moved b 0 0 0 0 0 (mBefore m b)" using q(1) by blast
  note rm = reserve_moves [OF q(4) r]
  show ?thesis
  proof (cases ok)
    case True
    then show ?thesis using r moved_trans [OF b0] rm by (auto simp: admitTurn_def answer_moves_def Let_def)
  next
    case False
    have b1: "moved b 0 0 0 0 0 b1" using moved_trans [OF b0] rm False by simp
    obtain d err b2 where dec: "decide (mCtxDone m) (mPolicy m) (stateOf attempt (mWaited m) (mNow m) b1) b1 = ((d, err), b2)"
      by (metis surj_pair)
    have b2: "moved b 0 0 0 0 0 b2" using moved_trans [OF b1 decide_moves [OF dec q(2)]] .
    have dn: "moved b 0 0 0 0 n (dropped n ReasonPolicy b2)" using moved_trans [OF b2 dropped_moves] .
    note pk = park_answers [OF q(3)] moved_dropOldest [OF q(5) b2]
    show ?thesis
      using r False dec b1 b2 dn pk by (simp add: admitTurn_def Let_def answer_moves_def split: option.splits)
  qed
qed

lemma admit_moves:
  assumes "admit ms wait attempt n sz b = Some (res, b')" and "\<forall>m \<in> set ms. quiet_moment m"
  shows "answer_moves b n sz res b'"
  using assms
proof (induction ms wait attempt n sz b rule: admit.induct)
  case (2 m ms wait attempt n sz b)
  have m: "quiet_moment m" using "2.prems" by simp
  have "answer_moves b n sz res b'" if "moved b 0 0 0 0 0 b1" "answer_moves b1 n sz res b'" for b1
    using that moved_trans by (auto simp: answer_moves_def split: sum.splits)
  then show ?case
    using 2 admitTurn_moves [OF m, where wait = wait and attempt = attempt and n = n and sz = sz and b = b] by (auto split: admission.splits)
qed simp


lemma onDiskFull_moves:
  assumes "quiet_moment m" and "moved b0 0 0 0 0 0 b"
  shows "case onDiskFull m attempt n sz b of
      Decided r b1 \<Rightarrow> r \<noteq> Inr True \<and> answer_moves b0 n sz r b1 | Parked \<Rightarrow> True | TryAgain b1 \<Rightarrow> moved b0 0 0 0 0 0 b1"
proof -
  define x where "x = mBefore m (b\<lparr>cDiskFull := cDiskFull b + 1\<rparr>)"
  have q: "quiet (mBefore m)" "quiet (mPolicy m)" "quiet (mWait m)"
      "case mShed m of ((e1, e2), es) \<Rightarrow> quiet e1 \<and> quiet e2 \<and> (\<forall>e \<in> set es. quiet e)"
    using assms(1) by (simp_all add: quiet_moment_def)
  have x: "moved b0 0 0 0 0 0 x"
    unfolding x_def using assms(2) moved_trans' [OF _ spec [OF q(1)]] by (simp add: moved_simps)
  obtain d err b1 where dec: "decide (mCtxDone m) (mPolicy m) ((stateOf attempt (mWaited m) (mNow m) x)\<lparr>sDiskFull := True\<rparr>) x = ((d, err), b1)"
    by (metis surj_pair)
  have b1: "moved b0 0 0 0 0 0 b1" using moved_trans [OF x decide_moves [OF dec q(2)]] .
  have dn: "moved b0 0 0 0 0 n (dropped n ReasonPolicy b1)" using moved_trans [OF b1 dropped_moves] .
  define y where "y = nudge (if d = DecisionDropOldest then dropOldest (mShed m) n sz b1 else b1)"
  have "moved b0 0 0 0 0 0 y" using moved_dropOldest [OF q(4) b1] b1 by (simp add: y_def moved_simps)
  note pk = park_moves [OF q(3) this, of "gateWait (space x)" diskFullRetryInterval]
  have "onDiskFull m attempt n sz b = (case err of Some e \<Rightarrow> Decided (Inl e) b1
      | None \<Rightarrow> if d = DecisionReject then Decided (Inl BErrDiskFull) b1
          else if d = DecisionDropNewest then Decided (Inr False) (dropped n ReasonPolicy b1)
          else park m (gateWait (space x)) diskFullRetryInterval y)"
    using dec by (simp add: onDiskFull_def x_def [symmetric] y_def Let_def split: option.split)
  then show ?thesis
    using b1 dn pk by (auto simp: answer_moves_def split: option.splits admission.splits)
qed

lemma appendFailed_moves:
  assumes "quiet_moment m" and "moved b0 n sz 0 0 0 b"
  shows "case appendFailed m attempt n sz e b of
      Decided r b1 \<Rightarrow> r \<noteq> Inr True \<and> answer_moves b0 n sz r b1 | Parked \<Rightarrow> True | TryAgain b1 \<Rightarrow> moved b0 0 0 0 0 0 b1"
proof -
  have r: "moved b0 0 0 0 0 0 (release n sz b)" using moved_release [OF assms(2), of n sz] by simp
  show ?thesis
    using r onDiskFull_moves [OF assms(1) r, where attempt = attempt and n = n and sz = sz]
    by (auto simp: appendFailed_def Let_def answer_moves_def moved_simps split: admission.splits)
qed

lemma accept_moves: "moved b0 n sz k wn dn b \<Longrightarrow> moved b0 n sz k (wn + m) dn (accept now lst m s b)"
  by (simp add: accept_def wrote_def moved_simps) (simp add: moved_def add.assoc)

lemma appendAwait_moves:
  assumes "quiet_turn t" and "moved b0 n sz 0 0 0 b"
  shows "case appendAwait t payloads n sz b l w of
      Accepted b1 l1 w1 \<Rightarrow> moved b0 n sz 0 n 0 b1
    | Uncertain e s b1 l1 w1 \<Rightarrow> moved b0 n sz 1 0 0 b1 \<and> stCount s = n \<and> stBytes s = sz
    | AppendError e b1 l1 w1 \<Rightarrow> moved b0 n sz 0 0 0 b1
    | Awaiting \<Rightarrow> True"
proof -
  have "moved b0 n sz 0 0 0 b2" if "wAwait t b l1 w1 = (b2, l2, w2)" for l1 w1 b2 l2 w2
    using assms moved_trans' unfolding quiet_turn_def by (metis fst_conv that)
  moreover have "moved b0 n sz 1 0 0 (b2\<lparr>writers := Suc (writers b2)\<rparr>)" if "moved b0 n sz 0 0 0 b2" for b2
    using that by (simp add: moved_def)
  moreover have "moved b0 n sz 0 n 0 (accept now lst n sz b2)" if "moved b0 n sz 0 0 0 b2" for b2 now lst
    using accept_moves [OF that, of n now lst sz] by simp
  ultimately show ?thesis
    using assms(2)
    by (auto simp: appendAwait_def settle_def split: prod.splits sum.splits option.splits if_splits)
qed

text \<open>The four ways in which a write can end.\<close>

definition accounted :: "buf \<Rightarrow> int \<Rightarrow> int \<Rightarrow> writeResult \<Rightarrow> buf \<Rightarrow> bool" where
  "accounted b n sz r b' \<longleftrightarrow> (case wSettler r of
      Some s \<Rightarrow> moved b n sz 1 0 0 b' \<and> stCount s = n \<and> stBytes s = sz \<and> (\<exists>e. wErr r = Some e \<and> errors_is e BErrUncertain)
    | None \<Rightarrow> (case wErr r of
         Some e \<Rightarrow> moved b 0 0 0 0 0 b'
       | None \<Rightarrow> moved b n sz 0 n 0 b' \<or> moved b 0 0 0 0 n b'))"

lemma writeLoop_moves:
  assumes "writeLoop ts attempt payloads n sz b l w = Some (r, b', l', w')" and "\<forall>t \<in> set ts. quiet_turn t"
  shows "accounted b n sz r b'"
  using assms
proof (induction ts attempt payloads n sz b l w rule: writeLoop.induct)
  case (2 t ts attempt payloads n sz b l w)
  have t: "quiet_turn t" "\<forall>m \<in> set (wAdmit t). quiet_moment m" "quiet_moment (wDiskFull t)"
    using "2.prems" by (auto simp: quiet_turn_def)
  obtain a b1 where a: "admit (wAdmit t) blockRetryFloor 1 n sz b = Some (a, b1)" using "2.prems" by (auto split: option.splits)
  note am = admit_moves [OF a t(2)]
  show ?case
  proof (cases "a = Inr True")
    case False
    then show ?thesis
      using "2.prems"(1) a am by (auto simp: accounted_def returns_def refusal_def answer_moves_def split: sum.splits)
  next
    case True
    then have b1: "moved b n sz 0 0 0 b1" using am by (simp add: answer_moves_def)
    note aw = appendAwait_moves [OF t(1) b1, where payloads = payloads and l = l and w = w]
    show ?thesis
    proof (cases "appendAwait t payloads n sz b1 l w")
      case (AppendError e b2 l2 w2)
      have b2: "moved b n sz 0 0 0 b2" using aw AppendError by simp
      note af = appendFailed_moves [OF t(3) b2, where attempt = attempt and e = e]
      show ?thesis
      proof (cases "appendFailed (wDiskFull t) attempt n sz e b2")
        case (TryAgain b3)
        then have "accounted b3 n sz r b'" "moved b 0 0 0 0 0 b3"
          using "2.prems" "2.IH" [OF a _ _ AppendError TryAgain] a True AppendError af by auto
        then show ?thesis using moved_trans by (auto simp: accounted_def split: option.splits)
      qed (use "2.prems"(1) a True AppendError af in
          \<open>auto simp: accounted_def returns_def refusal_def answer_moves_def split: sum.splits if_splits\<close>)
    qed (use "2.prems"(1) a True aw in \<open>auto simp: accounted_def returns_def\<close>)
  qed
qed simp


definition encodedSize :: "(bytes \<Rightarrow> 'a \<Rightarrow> error + bytes) \<Rightarrow> 'a list \<Rightarrow> int" where
  "encodedSize enc vs = (case encodeAll enc vs [] [] of Inr (b, ends) \<Rightarrow> int (length b) | Inl e \<Rightarrow> 0)"

text \<open>The slot of the writer is taken when it enters and given back when it leaves.\<close>

lemma moved_slot: "moved (b\<lparr>writers := Suc (writers b)\<rparr>) n sz k wn dn b' \<Longrightarrow> moved b n sz k wn dn (writersDone b')"
  by (simp add: moved_def writersDone_def)

lemma accounted_slot: "accounted (b\<lparr>writers := Suc (writers b)\<rparr>) n sz r b' \<Longrightarrow> accounted b n sz r (writersDone b')"
  using moved_slot by (auto simp: accounted_def split: option.splits)

lemma accounted_error: "accounted b n sz (returns (Some e)) b"
  by (simp add: accounted_def returns_def)

lemma WriteBatch_accounted:
  assumes "WriteBatch enc ctxErr ts vs b l w = Some (r, b', l', w')" and "\<forall>t \<in> set ts. quiet_turn t"
  shows "accounted b (int (length vs)) (encodedSize enc vs) r b'"
proof (cases "vs = [] \<or> fst (enter b) \<noteq> None")
  case True
  then show ?thesis
    using assms(1) accounted_error
    by (auto simp: WriteBatch_def accounted_def returns_def encodedSize_def enter_def split: option.splits if_splits)
next
  case False
  let ?b = "b\<lparr>writers := Suc (writers b)\<rparr>"
  have e: "enter b = (None, ?b)" using False by (auto simp: enter_def split: option.splits if_splits)
  have "\<exists>b2. b' = writersDone b2 \<and> accounted ?b (int (length vs)) (encodedSize enc vs) r b2"
    using assms(1) False e accounted_error writeLoop_moves [OF _ assms(2)]
    by (fastforce simp: WriteBatch_def encodedSize_def Let_def split: option.splits sum.splits prod.splits)
  then show ?thesis using accounted_slot by blast
qed

lemma settled_moves:
  assumes "moved b n sz 1 0 0 b'" and "stCount s = n" and "stBytes s = sz"
  shows "moved b n sz 0 n 0 (settled None now s b')" "moved b 0 0 0 0 0 (settled (Some e) now s b')"
proof -
  have "moved b n sz 1 n 0 (accept now lst n sz b')" for lst using accept_moves [OF assms(1), of n now lst sz] by simp
  then show "moved b n sz 0 n 0 (settled None now s b')" using assms(2,3) by (simp add: settled_def moved_def writersDone_def)
  show "moved b 0 0 0 0 0 (settled (Some e) now s b')"
    using moved_release [OF assms(1), of n sz] assms(2,3) by (simp add: settled_def moved_def writersDone_def)
qed

subsection \<open>Nobody waits for a buffer that is closing\<close>

definition sticky :: "bufEnv \<Rightarrow> bool" where
  "sticky env \<longleftrightarrow> (\<forall>b. (closing b \<longrightarrow> closing (env b)) \<and> (fatalErr b \<noteq> None \<longrightarrow> fatalErr (env b) \<noteq> None))"

definition sticky_moment :: "moment \<Rightarrow> bool" where
  "sticky_moment m \<longleftrightarrow> sticky (mPolicy m) \<and> (case mReserve m of (e1, e2, e3) \<Rightarrow> sticky e1 \<and> sticky e2 \<and> sticky e3)"

lemma sticky_add: "closing (addRecords n b) = closing b" "closing (addBytes n b) = closing b"
  "fatalErr (addRecords n b) = fatalErr b" "fatalErr (addBytes n b) = fatalErr b"
  by (simp_all add: addRecords_def addBytes_def)

lemma reserve_sticky:
  assumes "case envs of (e1, e2, e3) \<Rightarrow> sticky e1 \<and> sticky e2 \<and> sticky e3" and "reserve envs n sz b = (ok, b')"
  shows "(closing b \<longrightarrow> closing b') \<and> (fatalErr b \<noteq> None \<longrightarrow> fatalErr b' \<noteq> None)"
proof -
  obtain e1 e2 e3 where e: "envs = (e1, e2, e3)" by (metis surj_pair)
  then have s: "sticky e1" "sticky e2" "sticky e3" using assms(1) by simp_all
  show ?thesis
    using assms(2) s unfolding reserve_eq e Let_def sticky_def by (auto simp: sticky_add split: if_splits)
qed

lemma decide_closing:
  assumes "decide done env st b = ((d, err), b')" and "sticky env" and "closing b"
  shows "err \<noteq> None"
  using assms by (auto simp: decide_def sticky_def observeBackpressure_def Let_def)

lemma admitTurn_decides:
  assumes "sticky_moment m" and "closing (mBefore m b) \<or> fatalErr (mBefore m b) \<noteq> None"
  shows "\<exists>r b'. admitTurn m wait attempt n sz b = Decided r b'"
proof -
  obtain ok b1 where r: "reserve (mReserve m) n sz (mBefore m b) = (ok, b1)" by (meson surj_pair)
  have "closing b1 \<or> failure b1 \<noteq> None"
    using assms reserve_sticky [OF _ r] by (auto simp: sticky_moment_def failure_def split: option.splits)
  moreover obtain d err b2 where dec: "decide (mCtxDone m) (mPolicy m) (stateOf attempt (mWaited m) (mNow m) b1) b1 = ((d, err), b2)"
    by (metis surj_pair)
  moreover have "closing b1 \<Longrightarrow> err \<noteq> None" using decide_closing [OF dec] assms by (simp add: sticky_moment_def)
  ultimately show ?thesis using r by (cases ok) (auto simp: admitTurn_def Let_def split: option.splits)
qed

lemma onDiskFull_decides:
  assumes "sticky (mPolicy m)" and "closing (mBefore m (b\<lparr>cDiskFull := cDiskFull b + 1\<rparr>))"
  shows "\<exists>r b'. onDiskFull m attempt n sz b = Decided r b'"
proof -
  let ?b = "mBefore m (b\<lparr>cDiskFull := cDiskFull b + 1\<rparr>)"
  obtain d err b2 where dec: "decide (mCtxDone m) (mPolicy m) ((stateOf attempt (mWaited m) (mNow m) ?b)\<lparr>sDiskFull := True\<rparr>) ?b = ((d, err), b2)"
    by (metis surj_pair)
  then show ?thesis using decide_closing [OF dec assms] by (auto simp: onDiskFull_def Let_def)
qed

subsection \<open>A writer parked on a full disk\<close>

text \<open>Turns in which nobody interferes and the writer wakes up when its timer fires.\<close>

definition lone_moment :: moment where
  "lone_moment = \<lparr>mBefore = id, mReserve = (id, id, id), mCtxErr = None, mCtxDone = False, mNow = 0, mWaited = 0, mPolicy = id,
     mShed = ((id, id), []), mWait = id, mSlept = diskFullRetryInterval, mSelect = TimerFired\<rparr>"

definition lone_turn :: "env \<Rightarrow> (buf \<Rightarrow> log \<Rightarrow> fs \<Rightarrow> buf \<times> log \<times> fs) \<Rightarrow> writeTurn" where
  "lone_turn env during = \<lparr>wAdmit = [lone_moment], wLog = env, wAwait = during, wCtxErr = None, wTakeCtx = False, wNow = 0,
     wDiskFull = lone_moment\<rparr>"

lemma lone_disk_full:
  assumes "onFull (cfg b) = Block" and "\<not> closing b"
  shows "\<exists>b'. onDiskFull lone_moment attempt n sz b = TryAgain b' \<and> cfg b' = cfg b \<and> closing b' = closing b \<and> fatalErr b' = fatalErr b
     \<and> pendingRecords b' = pendingRecords b \<and> pendingBytes b' = pendingBytes b"
  using assms
  by (simp add: onDiskFull_def lone_moment_def decide_def Block_def constantPolicy_def observeBackpressure_def park_def ready_def nudge_def Let_def)

definition disk_full :: "bytes list \<Rightarrow> log \<times> fs \<Rightarrow> bool" where
  "disk_full payloads lw \<longleftrightarrow> (\<exists>e. fst (appendBatchAsync payloads (fst lw) (snd lw)) = Inl e \<and> isDiskFull e \<and> \<not> errors_is e ErrBroken)"

lemma lone_append:
  assumes "disk_full payloads (env l w)"
  shows "\<exists>e l' w'. appendAwait (lone_turn env during) payloads n sz b l w = AppendError e b l' w' \<and> isDiskFull e \<and> \<not> errors_is e ErrBroken"
  using assms by (auto simp: appendAwait_def lone_turn_def disk_full_def split: prod.splits sum.splits)

lemma lone_admit:
  assumes "\<not> exceeds (cfg b) (pendingRecords b + n) (pendingBytes b + sz)"
  shows "admit [lone_moment] wait attempt n sz b = Some (Inr True, addBytes sz (addRecords n b))"
  using assms by (simp add: admitTurn_def lone_moment_def reserve_eq Let_def addRecords_def addBytes_def)

lemma parked_forever:
  assumes "\<not> closing b" and "onFull (cfg b) = Block" and "\<not> exceeds (cfg b) (pendingRecords b + n) (pendingBytes b + sz)"
    and "\<And>l w. disk_full payloads (env l w)"
  shows "writeLoop (replicate k (lone_turn env during)) attempt payloads n sz b l w = None"
  using assms(1-3)
proof (induction k arbitrary: attempt b l w)
  case (Suc k)
  let ?b1 = "addBytes sz (addRecords n b)" and ?t = "lone_turn env during"
  obtain e l' w' where a: "appendAwait ?t payloads n sz ?b1 l w = AppendError e ?b1 l' w'" "isDiskFull e" "\<not> errors_is e ErrBroken"
    using lone_append [of payloads env l w during n sz ?b1] assms(4) by blast
  have r: "cfg (release n sz ?b1) = cfg b" "closing (release n sz ?b1) = closing b"
      "pendingRecords (release n sz ?b1) = pendingRecords b" "pendingBytes (release n sz ?b1) = pendingBytes b"
    by (simp_all add: release_def addBytes_def addRecords_def Let_def)
  obtain b' where b': "onDiskFull lone_moment attempt n sz (release n sz ?b1) = TryAgain b'" "cfg b' = cfg b" "closing b' = closing b"
      "pendingRecords b' = pendingRecords b" "pendingBytes b' = pendingBytes b"
    using lone_disk_full [of "release n sz ?b1" attempt n sz] r Suc.prems by auto
  have "writeLoop (replicate k ?t) (attempt + 1) payloads n sz b' l' w' = None"
    using Suc.IH [of b'] Suc.prems b' by simp
  moreover have "wAdmit ?t = [lone_moment]" "wDiskFull ?t = lone_moment" by (simp_all add: lone_turn_def)
  ultimately show ?case
    using lone_admit [OF Suc.prems(3)] a b'(1) by (simp add: appendFailed_def Let_def del: admit.simps)
qed simp

subsection \<open>Properties\<close>

text \<open>What is written is what is read back. With a codec that decodes what it encodes, the payloads that a write cuts out
  of its buffer are as many as the records, decode to them one by one, and together are the whole buffer.\<close>

theorem payloads_decode:
  assumes "codec enc dec" and "encodeAll enc vs [] [] = Inr (b, ends)"
  shows "list_all2 (\<lambda>p v. dec p = Returns (Inr v)) (cutPayloads 0 ends b) vs \<and> concat (cutPayloads 0 ends b) = b"
  using codec.encodeAll_cuts [OF assms] by auto

theorem payloads_decode_witness:
  "list_all2 (\<lambda>p v. bytesDecode p = Returns (Inr v)) (cutPayloads 0 [1, 1, 3] [7, 8, 9]) [[7], [], [8, 9]]
     \<and> concat (cutPayloads 0 [1, 1, 3] [7, 8, 9]) = ([7, 8, 9] :: bytes)"
proof -
  have "encodeAll bytesEncode [[7], [], [8, 9]] [] [] = Inr ([7, 8, 9], [1, 1, 3])" by (simp add: bytesEncode_def)
  from payloads_decode [OF bytesCodec.codec_axioms this] show ?thesis .
qed

text \<open>C24. A write's accounts always balance. Either it is accepted, holds capacity for exactly its records and bytes and is
  counted as written; or the policy dropped it, which is counted, and it holds nothing; or it fails and holds nothing; or its fate is uncertain, its
  capacity stays reserved, and the settler it leaves behind completes the accounts of an accepted write if the round
  succeeds and of a failed one if not. In every case the writer's slot is given back, and the settler gives back its own.\<close>

theorem write_accounts_balance:
  assumes "WriteBatch enc ctxErr ts vs b l w = Some (r, b', l', w')" and "\<forall>t \<in> set ts. quiet_turn t"
  shows "let n = int (length vs); sz = encodedSize enc vs in
     case (wSettler r, wErr r) of
       (None, None) \<Rightarrow> moved b n sz 0 n 0 b' \<or> moved b 0 0 0 0 n b'
     | (None, Some e) \<Rightarrow> moved b 0 0 0 0 0 b'
     | (Some s, _) \<Rightarrow> moved b n sz 1 0 0 b' \<and> moved b n sz 0 n 0 (settled None now s b') \<and> moved b 0 0 0 0 0 (settled (Some e') now s b')"
  using WriteBatch_accounted [OF assms] settled_moves(1) [of b "int (length vs)" "encodedSize enc vs" b' _ now]
    settled_moves(2) [of b "int (length vs)" "encodedSize enc vs" b' _ e' now]
  by (auto simp: accounted_def Let_def split: option.splits)

definition lucky :: writeTurn where
  "lucky = lone_turn idle (\<lambda>b l w. (b, settled1, written_fs))"

definition plain_buf :: buf where
  "plain_buf = newBuffer defaults False 0"

lemma moved_id [simp]: "quiet id"
  by simp

lemma lucky_quiet: "quiet_turn lucky"
  by (simp add: lucky_def lone_turn_def quiet_turn_def quiet_moment_def lone_moment_def)

lemma lucky_write:
  "\<exists>b'. WriteBatch bytesEncode None [lucky] [[7]] plain_buf (fresh_log small_opts) fresh_fs = Some (returns None, b', settled1, written_fs)"
proof -
  have "admit [lone_moment] blockRetryFloor 1 1 1 (plain_buf\<lparr>writers := Suc (writers plain_buf)\<rparr>)
      = Some (Inr True, addBytes 1 (addRecords 1 (plain_buf\<lparr>writers := Suc (writers plain_buf)\<rparr>)))"
    by (rule lone_admit) (simp add: plain_buf_def newBuffer_def defaults_def exceeds_def)
  moreover have "appendAwait lucky [[7]] 1 1 b (fresh_log small_opts) fresh_fs = Accepted (accept 0 1 1 1 b) settled1 written_fs" for b
    by (simp add: appendAwait_def lucky_def lone_turn_def idle_def run_staged await_def logWait_def settled_round)
  moreover have "enter plain_buf = (None, plain_buf\<lparr>writers := Suc (writers plain_buf)\<rparr>)" "fits 1 1 (plain_buf\<lparr>writers := x\<rparr>) = None" for x
    by (simp_all add: enter_def plain_buf_def newBuffer_def failure_def fits_def defaults_def)
  moreover have "wAdmit lucky = [lone_moment]" by (simp add: lucky_def lone_turn_def)
  ultimately show ?thesis
    by (simp add: WriteBatch_def bytesEncode_def Let_def del: admit.simps)
qed

theorem write_accounts_balance_witness:
  "\<exists>b'. WriteBatch bytesEncode None [lucky] [[7]] plain_buf (fresh_log small_opts) fresh_fs = Some (returns None, b', settled1, written_fs)
     \<and> (moved plain_buf 1 1 0 1 0 b' \<or> moved plain_buf 0 0 0 0 1 b')"
proof -
  obtain b' where b': "WriteBatch bytesEncode None [lucky] [[7]] plain_buf (fresh_log small_opts) fresh_fs = Some (returns None, b', settled1, written_fs)"
    using lucky_write by blast
  moreover have "encodedSize bytesEncode [[7]] = 1" by (simp add: encodedSize_def bytesEncode_def)
  ultimately show ?thesis using write_accounts_balance [OF b'] lucky_quiet by (simp add: returns_def)
qed

text \<open>C25. Closing releases every waiting writer. As soon as the buffer is closing or has failed, the turn that a writer
  takes in the capacity loop is its last; and as soon as it is closing, so is one that waits for a full disk.\<close>

theorem closing_releases_writers:
  assumes "sticky_moment m"
  shows "(closing (mBefore m b) \<or> fatalErr (mBefore m b) \<noteq> None \<longrightarrow> admit (m # ms) wait attempt n sz b \<noteq> None)
     \<and> (closing (mBefore m (b\<lparr>cDiskFull := cDiskFull b + 1\<rparr>)) \<longrightarrow> (\<exists>r b'. onDiskFull m attempt n sz b = Decided r b'))"
  using admitTurn_decides [OF assms, of b wait attempt n sz] onDiskFull_decides [of m b attempt n sz] assms
  by (auto simp: sticky_moment_def)

theorem closing_releases_writers_witness:
  "admit [lone_moment] 1 1 1 1 (plain_buf\<lparr>closing := True, pendingRecords := 2000000\<rparr>) \<noteq> None"
  using closing_releases_writers [of lone_moment "plain_buf\<lparr>closing := True, pendingRecords := 2000000\<rparr>" "[]" 1 1 1 1]
  by (simp add: lone_moment_def sticky_moment_def sticky_def)

text \<open>C26. A failed buffer does not release a writer that waits for a full disk. Under the default policy such a writer keeps
  retrying the log for as long as the disk is full, although the buffer has failed and its flusher has stopped: after any number of turns it is still waiting.\<close>

theorem failed_buffer_keeps_disk_full_writer:
  assumes "fatalErr b \<noteq> None" and "\<not> closing b" and "onFull (cfg b) = Block"
    and "\<not> exceeds (cfg b) (pendingRecords b + n) (pendingBytes b + sz)" and "\<And>l w. disk_full payloads (env l w)"
  shows "writeLoop (replicate k (lone_turn env during)) 1 payloads n sz b l w = None"
  by (rule parked_forever [OF assms(2-5)])

definition full_fs :: fs where
  "full_fs = fresh_fs\<lparr>faults := [Some (Fault ENOSPC 0)]\<rparr>"

lemma full_fs_full: "disk_full [[7]] (fresh_log small_opts, full_fs)"
  by (simp add: disk_full_def appendBatchAsync_def stage_def fresh_log_def small_opts_def full_fs_def writeReserved_def replaceFile_def
      io_bind_def open_trunc_def next_fault_def isDiskFull_def reserveBlock_def Let_def max_def)

theorem failed_buffer_keeps_disk_full_writer_witness:
  "writeLoop (replicate 1000 (lone_turn (\<lambda>l w. (fresh_log small_opts, full_fs)) (\<lambda>b l w. (b, l, w)))) 1 [[7]] 1 1
     (bufFail BErrPermanent plain_buf) (fresh_log small_opts) full_fs = None"
proof -
  let ?b = "bufFail BErrPermanent plain_buf"
  have "fatalErr ?b \<noteq> None" "\<not> closing ?b" "onFull (cfg ?b) = Block" "\<not> exceeds (cfg ?b) (pendingRecords ?b + 1) (pendingBytes ?b + 1)"
    by (simp_all add: bufFail_def plain_buf_def newBuffer_def defaults_def exceeds_def)
  from failed_buffer_keeps_disk_full_writer [OF this, of "[[7]]" "\<lambda>l w. (fresh_log small_opts, full_fs)"] show ?thesis
    using full_fs_full by simp
qed

end
