(* ===== verification/Capacity.thy ===== *)
theory Capacity
  imports Buffer "HOL-Library.Multiset"
begin

text \<open>
  Capacity and shedding: what \<^verbatim>\<open>reserve\<close>, \<^verbatim>\<open>fits\<close>, \<^verbatim>\<open>raiseFloor\<close> and \<^verbatim>\<open>dropOldest\<close> guarantee when writers contend.

  \<open>wstep\<close> runs any number of calls of \<^verbatim>\<open>reserve\<close> beside each other, one atomic operation at a time, with
  the buffer's own \<open>reserveStep\<close>. The locale \<open>bounded_counter\<close> is what each of the two counters then does: it is
  added to before it is looked at. It is interpreted on the counters of records and of bytes, and every step
  of \<open>wstep\<close> is a run of both.
\<close>

subsection \<open>Capacity under contention\<close>

text \<open>
  A counter that writers add to before they look whether the result is within the limit, and take back from
  if it is not. Each addition is an entry: the amount, the value that was read when it was made, and whether it was
  granted. Entries stand in the order of the additions.
\<close>

type_synonym entries = "(int \<times> int \<times> bool) list"

abbreviation amount :: "entries \<Rightarrow> int" where
  "amount es \<equiv> sum_list (map fst es)"

locale bounded_counter =
  fixes val :: "'s \<Rightarrow> int" and add :: "int \<Rightarrow> 's \<Rightarrow> 's" and lim :: "'s \<Rightarrow> int" and fine :: "'s \<Rightarrow> int \<Rightarrow> bool"
  assumes val_add: "val (add n s) = val s + n"
    and lim_add: "lim (add n s) = lim s"
    and fine_lim: "fine s r \<Longrightarrow> 0 < lim s \<Longrightarrow> r \<le> lim s"
begin

inductive cstep :: "'s \<times> entries \<Rightarrow> 's \<times> entries \<Rightarrow> bool" where
  c_add: "0 \<le> n \<Longrightarrow> cstep (s, es) (add n s, es @ [(n, val (add n s), False)])"
| c_grant: "fine s r \<Longrightarrow> cstep (s, xs @ (n, r, False) # ys) (s, xs @ (n, r, True) # ys)"
| c_undo: "cstep (s, xs @ (n, r, False) # ys) (add (- n) s, xs @ ys)"
| c_free: "0 \<le> k \<Longrightarrow> k \<le> n \<Longrightarrow> cstep (s, xs @ (n, r, True) # ys) (add (- k) s, xs @ (n - k, r, True) # ys)"
| c_other: "val s' = val s \<Longrightarrow> lim s' = lim s \<Longrightarrow> cstep (s, es) (s', es)"

definition granted :: "entries \<Rightarrow> int" where
  "granted es = amount (filter (\<lambda>(n, r, g). g) es)"

text \<open>Everything still there that was added before an entry was part of the value read with it.\<close>

fun nested :: "int \<Rightarrow> entries \<Rightarrow> bool" where
  "nested a [] = True"
| "nested a ((n, r, g) # es) = (0 \<le> n \<and> a + n \<le> r \<and> nested (a + n) es)"

definition counter_ok :: "int \<Rightarrow> int \<Rightarrow> 's \<times> entries \<Rightarrow> bool" where
  "counter_ok m v0 c \<longleftrightarrow> (case c of (s, es) \<Rightarrow> val s = amount es \<and> nested 0 es \<and> lim s = m
     \<and> (\<forall>(n, r, g) \<in> set es. g \<longrightarrow> r \<le> max m v0))"

lemma nested_append: "nested a (xs @ ys) \<longleftrightarrow> nested a xs \<and> nested (a + amount xs) ys"
  by (induction a xs rule: nested.induct) (auto simp: add.assoc)

lemma nested_mono: "nested a es \<Longrightarrow> a' \<le> a \<Longrightarrow> nested a' es"
  by (induction a es arbitrary: a' rule: nested.induct) auto

lemma granted_bound:
  assumes "nested a es" and "\<forall>(n, r, g) \<in> set es. g \<longrightarrow> r \<le> m"
  shows "granted es \<le> 0 \<or> a + granted es \<le> m"
  using assms by (induction a es rule: nested.induct) (auto simp: granted_def)

lemma counter_step:
  assumes "cstep c c'" and "counter_ok m v0 c" and "0 < m"
  shows "counter_ok m v0 c'"
  using assms
proof (induction rule: cstep.induct)
  case (c_free k n s xs r ys)
  have "nested (amount xs + n) ys" using c_free by (auto simp: counter_ok_def nested_append)
  then have "nested (amount xs + (n - k)) ys" using c_free nested_mono by force
  then show ?case using c_free by (auto simp: counter_ok_def nested_append val_add lim_add)
next
  case (c_undo s xs n r ys)
  have "nested (amount xs + n) ys" "0 \<le> n" using c_undo by (auto simp: counter_ok_def nested_append)
  then have "nested (amount xs) ys" using nested_mono by force
  then show ?case using c_undo by (auto simp: counter_ok_def nested_append val_add lim_add)
qed (auto simp: counter_ok_def nested_append val_add lim_add le_max_iff_disj dest: fine_lim)

lemma counter_run: "cstep\<^sup>*\<^sup>* c c' \<Longrightarrow> counter_ok m v0 c \<Longrightarrow> 0 < m \<Longrightarrow> counter_ok m v0 c'"
  by (induction rule: rtranclp_induct) (auto intro: counter_step)

text \<open>What has been granted is within the limit, or within the backlog that was there at the start.\<close>

lemma granted_within:
  assumes "cstep\<^sup>*\<^sup>* (s, [(v0, v0, True)]) (s', es)" and "val s = v0" and "0 \<le> v0" and "0 < lim s"
  shows "granted es \<le> max (lim s) v0"
proof -
  have "counter_ok (lim s) v0 (s, [(v0, v0, True)])" using assms by (simp add: counter_ok_def)
  from counter_run [OF assms(1) this assms(4)] have "nested 0 es" "\<forall>(n, r, g) \<in> set es. g \<longrightarrow> r \<le> max (lim s) v0"
    by (simp_all add: counter_ok_def)
  from granted_bound [OF this] show ?thesis using assms(4) by auto
qed

end

text \<open>The two counters of the buffer; \<open>exceeds\<close> is what \<^verbatim>\<open>reserve\<close> asks about the values it has read.\<close>

interpretation records: bounded_counter pendingRecords addRecords "\<lambda>b. maxRecords (cfg b)" "\<lambda>b r. \<exists>y. \<not> exceeds (cfg b) r y"
  by unfold_locales (auto simp: addRecords_def exceeds_def)

interpretation sizes: bounded_counter pendingBytes addBytes "\<lambda>b. maxBytes (cfg b)" "\<lambda>b r. \<exists>y. \<not> exceeds (cfg b) y r"
  by unfold_locales (auto simp: addBytes_def exceeds_def)

subsection \<open>Writers in the middle of a reservation\<close>

text \<open>
  Any number of writers in the middle of \<^verbatim>\<open>reserve\<close>, each at its own place in it, and the parts of what was granted
  that have not been released. A writer takes one atomic step at a time; what it was granted is
  released in parts, records and bytes apart, as \<^verbatim>\<open>release\<close> does; and anything may happen that does not
  touch the counters.
\<close>

type_synonym writing = "buf \<times> reserving list"

inductive wstep :: "writing \<Rightarrow> writing \<Rightarrow> bool" where
  w_call: "0 \<le> n \<Longrightarrow> 0 \<le> sz \<Longrightarrow> wstep (b, ps) (b, ps @ [RAddRecords n sz])"
| w_turn: "reserveStep p b = (p', b') \<Longrightarrow> wstep (b, ps @ p # qs) (b', ps @ p' # qs)"
| w_freeRecords: "0 \<le> k \<Longrightarrow> k \<le> n \<Longrightarrow>
    wstep (b, ps @ RGranted n sz x y # qs) (addRecords (- k) b, ps @ RGranted (n - k) sz x y # qs)"
| w_freeBytes: "0 \<le> k \<Longrightarrow> k \<le> sz \<Longrightarrow>
    wstep (b, ps @ RGranted n sz x y # qs) (addBytes (- k) b, ps @ RGranted n (sz - k) x y # qs)"
| w_other: "pendingRecords b' = pendingRecords b \<Longrightarrow> pendingBytes b' = pendingBytes b \<Longrightarrow> cfg b' = cfg b \<Longrightarrow> wstep (b, ps) (b', ps)"

text \<open>What a writer has added to each counter, as entries of that counter; their order is that of the additions.\<close>

fun recEntry :: "reserving \<Rightarrow> entries" where
  "recEntry (RAddBytes n sz x) = [(n, x, False)]"
| "recEntry (RCheck n sz x y) = [(n, x, False)]"
| "recEntry (RUndoRecords n sz x y) = [(n, x, False)]"
| "recEntry (RGranted n sz x y) = [(n, x, True)]"
| "recEntry _ = []"

fun byteEntry :: "reserving \<Rightarrow> entries" where
  "byteEntry (RCheck n sz x y) = [(sz, y, False)]"
| "byteEntry (RUndoRecords n sz x y) = [(sz, y, False)]"
| "byteEntry (RUndoBytes n sz x y) = [(sz, y, False)]"
| "byteEntry (RGranted n sz x y) = [(sz, y, True)]"
| "byteEntry _ = []"

fun asked_ok :: "reserving \<Rightarrow> bool" where
  "asked_ok (RAddRecords n sz) = (0 \<le> n \<and> 0 \<le> sz)"
| "asked_ok (RAddBytes n sz x) = (0 \<le> sz)"
| "asked_ok _ = True"

abbreviation ledger :: "(reserving \<Rightarrow> entries) \<Rightarrow> reserving list \<Rightarrow> (int \<times> int \<times> bool) multiset" where
  "ledger f ps \<equiv> mset (concat (map f ps))"

lemma entry_in:
  assumes "mset es = ledger f (ps @ p # qs)" and "f p = [e]"
  shows "\<exists>xs ys. es = xs @ e # ys \<and> mset (xs @ ys) = ledger f ps + ledger f qs"
proof -
  have "e \<in> set es" using assms by (metis mset_append set_mset_mset append_Cons concat.simps(2) list.simps(9) map_append concat_append in_set_conv_decomp)
  then obtain xs ys where "es = xs @ e # ys" by (metis in_set_conv_decomp)
  with assms show ?thesis by (intro exI [of _ xs] exI [of _ ys]) simp
qed

lemma wstep_asked: "wstep c c' \<Longrightarrow> list_all asked_ok (snd c) \<Longrightarrow> list_all asked_ok (snd c')"
proof (induction rule: wstep.induct)
  case (w_turn p b p' b' ps qs)
  then show ?case by (cases "(p, b)" rule: reserveStep.cases) (auto simp: Let_def split: if_splits)
qed auto


lemma records_other: "pendingRecords b' = pendingRecords b \<Longrightarrow> cfg b' = cfg b \<Longrightarrow> records.cstep\<^sup>*\<^sup>* (b, es) (b', es)"
  by (intro r_into_rtranclp records.c_other) simp_all

lemma sizes_other: "pendingBytes b' = pendingBytes b \<Longrightarrow> cfg b' = cfg b \<Longrightarrow> sizes.cstep\<^sup>*\<^sup>* (b, es) (b', es)"
  by (intro r_into_rtranclp sizes.c_other) simp_all

lemma turn_records:
  assumes st: "reserveStep p b = (p', b')" and a: "asked_ok p" and m: "mset es = ledger recEntry (ps @ p # qs)"
  shows "\<exists>es'. records.cstep\<^sup>*\<^sup>* (b, es) (b', es') \<and> mset es' = ledger recEntry (ps @ p' # qs)"
proof (cases "(p, b)" rule: reserveStep.cases)
  case (1 n sz c)
  then have "p' = RAddBytes n sz (pendingRecords (addRecords n b))" "b' = addRecords n b" "0 \<le> n" using st a by (auto simp: Let_def)
  then show ?thesis using m 1 records.c_add [of n b es] by (intro exI [of _ "es @ [(n, pendingRecords b', False)]"]) auto
next
  case (2 n sz x c)
  then have "p' = RCheck n sz x (pendingBytes b')" "b' = addBytes sz b" using st by (auto simp: Let_def)
  then show ?thesis using m 2 records_other [of b' b es] by (intro exI [of _ es]) (simp add: addBytes_def)
next
  case (3 n sz x y c)
  show ?thesis
  proof (cases "exceeds (cfg b) x y")
    case True
    then show ?thesis using st 3 m by (intro exI [of _ es]) auto
  next
    case False
    then have p': "p' = RGranted n sz x y" "b' = b" using st 3 by auto
    obtain xs ys where "es = xs @ (n, x, False) # ys" "mset (xs @ ys) = ledger recEntry ps + ledger recEntry qs"
      using entry_in [OF m, of "(n, x, False)"] 3 by auto
    then show ?thesis
      using p' False records.c_grant [of b x xs n ys] by (intro exI [of _ "xs @ (n, x, True) # ys"]) (auto intro: r_into_rtranclp)
  qed
next
  case (4 n sz x y c)
  then have p': "p' = RUndoBytes n sz x y" "b' = addRecords (- n) b" using st by auto
  obtain xs ys where "es = xs @ (n, x, False) # ys" "mset (xs @ ys) = ledger recEntry ps + ledger recEntry qs"
    using entry_in [OF m, of "(n, x, False)"] 4 by auto
  then show ?thesis
    using p' records.c_undo [of b xs n x ys] by (intro exI [of _ "xs @ ys"]) (auto intro: r_into_rtranclp)
next
  case (5 n sz x y c)
  then have p': "p' = RRefused" "b' = addBytes (- sz) b" using st by auto
  then show ?thesis using m 5 records_other [of b' b es] by (intro exI [of _ es]) (simp add: addBytes_def)
qed (use st m in auto)

lemma turn_sizes:
  assumes st: "reserveStep p b = (p', b')" and a: "asked_ok p" and m: "mset es = ledger byteEntry (ps @ p # qs)"
  shows "\<exists>es'. sizes.cstep\<^sup>*\<^sup>* (b, es) (b', es') \<and> mset es' = ledger byteEntry (ps @ p' # qs)"
proof (cases "(p, b)" rule: reserveStep.cases)
  case (1 n sz c)
  then have "p' = RAddBytes n sz (pendingRecords b')" "b' = addRecords n b" using st by (auto simp: Let_def)
  then show ?thesis using m 1 sizes_other [of b' b es] by (intro exI [of _ es]) (simp add: addRecords_def)
next
  case (2 n sz x c)
  then have "p' = RCheck n sz x (pendingBytes (addBytes sz b))" "b' = addBytes sz b" "0 \<le> sz" using st a by (auto simp: Let_def)
  then show ?thesis using m 2 sizes.c_add [of sz b es] by (intro exI [of _ "es @ [(sz, pendingBytes b', False)]"]) auto
next
  case (3 n sz x y c)
  show ?thesis
  proof (cases "exceeds (cfg b) x y")
    case True
    then show ?thesis using st 3 m by (intro exI [of _ es]) auto
  next
    case False
    then have p': "p' = RGranted n sz x y" "b' = b" using st 3 by auto
    obtain xs ys where "es = xs @ (sz, y, False) # ys" "mset (xs @ ys) = ledger byteEntry ps + ledger byteEntry qs"
      using entry_in [OF m, of "(sz, y, False)"] 3 by auto
    then show ?thesis
      using p' False sizes.c_grant [of b y xs sz ys] by (intro exI [of _ "xs @ (sz, y, True) # ys"]) (auto intro: r_into_rtranclp)
  qed
next
  case (4 n sz x y c)
  then have p': "p' = RUndoBytes n sz x y" "b' = addRecords (- n) b" using st by auto
  then show ?thesis using m 4 sizes_other [of b' b es] by (intro exI [of _ es]) (simp add: addRecords_def)
next
  case (5 n sz x y c)
  then have p': "p' = RRefused" "b' = addBytes (- sz) b" using st by auto
  obtain xs ys where "es = xs @ (sz, y, False) # ys" "mset (xs @ ys) = ledger byteEntry ps + ledger byteEntry qs"
    using entry_in [OF m, of "(sz, y, False)"] 5 by auto
  then show ?thesis
    using p' sizes.c_undo [of b xs sz y ys] by (intro exI [of _ "xs @ ys"]) (auto intro: r_into_rtranclp)
qed (use st m in auto)

lemma wstep_records:
  assumes "wstep (b, ps) (b', ps')" and "list_all asked_ok ps" and "mset es = ledger recEntry ps"
  shows "\<exists>es'. records.cstep\<^sup>*\<^sup>* (b, es) (b', es') \<and> mset es' = ledger recEntry ps'"
  using assms(1)
proof (cases rule: wstep.cases)
  case (w_call n sz)
  then show ?thesis using assms(3) by (intro exI [of _ es]) auto
next
  case (w_turn p p' xs ys)
  then show ?thesis using turn_records [OF w_turn(3)] assms by auto
next
  case (w_freeRecords k n xs sz x y ys)
  then have ps: "ps = xs @ RGranted n sz x y # ys" by simp
  obtain us vs where "es = us @ (n, x, True) # vs" "mset (us @ vs) = ledger recEntry xs + ledger recEntry ys"
    using entry_in [OF assms(3) [unfolded ps], of "(n, x, True)"] by auto
  then show ?thesis
    using w_freeRecords records.c_free [of k n b us x vs]
    by (intro exI [of _ "us @ (n - k, x, True) # vs"]) (auto intro: r_into_rtranclp)
next
  case (w_freeBytes k sz xs n x y ys)
  then show ?thesis using assms(3) records_other [of b' b es] by (intro exI [of _ es]) (auto simp: addBytes_def)
next
  case w_other
  then show ?thesis using assms(3) records_other [of b' b es] by blast
qed

lemma wstep_sizes:
  assumes "wstep (b, ps) (b', ps')" and "list_all asked_ok ps" and "mset es = ledger byteEntry ps"
  shows "\<exists>es'. sizes.cstep\<^sup>*\<^sup>* (b, es) (b', es') \<and> mset es' = ledger byteEntry ps'"
  using assms(1)
proof (cases rule: wstep.cases)
  case (w_call n sz)
  then show ?thesis using assms(3) by (intro exI [of _ es]) auto
next
  case (w_turn p p' xs ys)
  then show ?thesis using turn_sizes [OF w_turn(3)] assms by auto
next
  case (w_freeRecords k n xs sz x y ys)
  then show ?thesis using assms(3) sizes_other [of b' b es] by (intro exI [of _ es]) (auto simp: addRecords_def)
next
  case (w_freeBytes k sz xs n x y ys)
  then have ps: "ps = xs @ RGranted n sz x y # ys" by simp
  obtain us vs where "es = us @ (sz, y, True) # vs" "mset (us @ vs) = ledger byteEntry xs + ledger byteEntry ys"
    using entry_in [OF assms(3) [unfolded ps], of "(sz, y, True)"] by auto
  then show ?thesis
    using w_freeBytes sizes.c_free [of k sz b us y vs]
    by (intro exI [of _ "us @ (sz - k, y, True) # vs"]) (auto intro: r_into_rtranclp)
next
  case w_other
  then show ?thesis using assms(3) sizes_other [of b' b es] by blast
qed


text \<open>What has been granted and not released.\<close>

fun heldOf :: "reserving \<Rightarrow> int \<times> int" where
  "heldOf (RGranted n sz _ _) = (n, sz)"
| "heldOf _ = (0, 0)"

definition heldRecords :: "reserving list \<Rightarrow> int" where
  "heldRecords ps = sum_list (map (fst \<circ> heldOf) ps)"

definition heldBytes :: "reserving list \<Rightarrow> int" where
  "heldBytes ps = sum_list (map (snd \<circ> heldOf) ps)"

lemma granted_ledger:
  "mset es = ledger recEntry ps \<Longrightarrow> records.granted es = heldRecords ps"
  "mset es = ledger byteEntry ps \<Longrightarrow> sizes.granted es = heldBytes ps"
proof -
  have sum: "amount (filter (\<lambda>(n, r, g). g) es) = amount (filter (\<lambda>(n, r, g). g) es')" if "mset es = mset es'" for es es' :: entries
    using that by (metis mset_filter mset_map sum_mset_sum_list)
  have "amount (filter (\<lambda>(n, r, g). g) (concat (map recEntry ps))) = heldRecords ps"
  proof (induction ps)
    case (Cons p ps)
    then show ?case by (cases p) (simp_all add: heldRecords_def)
  qed (simp add: heldRecords_def)
  then show "mset es = ledger recEntry ps \<Longrightarrow> records.granted es = heldRecords ps"
    using sum by (metis records.granted_def)
  have "amount (filter (\<lambda>(n, r, g). g) (concat (map byteEntry ps))) = heldBytes ps"
  proof (induction ps)
    case (Cons p ps)
    then show ?case by (cases p) (simp_all add: heldBytes_def)
  qed (simp add: heldBytes_def)
  then show "mset es = ledger byteEntry ps \<Longrightarrow> sizes.granted es = heldBytes ps"
    using sum by (metis sizes.granted_def)
qed

lemma wsteps_counters:
  "wstep\<^sup>*\<^sup>* c c' \<Longrightarrow> list_all asked_ok (snd c) \<Longrightarrow> mset es = ledger recEntry (snd c) \<Longrightarrow> mset ss = ledger byteEntry (snd c) \<Longrightarrow>
   list_all asked_ok (snd c') \<and> (\<exists>es'. records.cstep\<^sup>*\<^sup>* (fst c, es) (fst c', es') \<and> mset es' = ledger recEntry (snd c'))
     \<and> (\<exists>ss'. sizes.cstep\<^sup>*\<^sup>* (fst c, ss) (fst c', ss') \<and> mset ss' = ledger byteEntry (snd c'))"
proof (induction rule: rtranclp_induct)
  case base
  then show ?case by blast
next
  case (step y z)
  have y: "list_all asked_ok (snd y)" and st: "wstep (fst y, snd y) (fst z, snd z)" using step by simp_all
  obtain es1 where "records.cstep\<^sup>*\<^sup>* (fst c, es) (fst y, es1)" "mset es1 = ledger recEntry (snd y)" using step by blast
  moreover obtain ss1 where "sizes.cstep\<^sup>*\<^sup>* (fst c, ss) (fst y, ss1)" "mset ss1 = ledger byteEntry (snd y)" using step by blast
  ultimately show ?case
    using wstep_records [OF st y, of es1] wstep_sizes [OF st y, of ss1] wstep_asked [OF step(2) y] by (meson rtranclp_trans)
qed

text \<open>The release of a part of what was granted, as \<^verbatim>\<open>release\<close> makes it.\<close>

lemma release_run:
  assumes "0 \<le> k" "k \<le> n" "0 \<le> j" "j \<le> sz"
  shows "wstep\<^sup>*\<^sup>* (b, ps @ RGranted n sz x y # qs) (release k j b, ps @ RGranted (n - k) (sz - j) x y # qs)"
proof -
  have "wstep\<^sup>*\<^sup>* (b, ps @ RGranted n sz x y # qs) (addRecords (- k) b, ps @ RGranted (n - k) sz x y # qs)"
    using w_freeRecords assms by blast
  also have "wstep \<dots> (addBytes (- j) (addRecords (- k) b), ps @ RGranted (n - k) (sz - j) x y # qs)"
    using w_freeBytes assms by blast
  also have "wstep \<dots> (release k j b, ps @ RGranted (n - k) (sz - j) x y # qs)"
    by (rule w_other) (simp_all add: release_def Let_def)
  finally show ?thesis .
qed

subsection \<open>The floor\<close>






subsection \<open>Properties\<close>

text \<open>C27. Capacity holds under contention. However the atomic operations of any number of calls of \<^verbatim>\<open>reserve\<close> are
  interleaved with each other and with releases of what was granted, the records that have been granted and not yet
  released never exceed the configured capacity, or the backlog the buffer was opened with where that is
  larger; and so for the bytes. A limit of zero is no limit.\<close>

theorem capacity_never_exceeded:
  assumes "wstep\<^sup>*\<^sup>* (b, [RGranted (pendingRecords b) (pendingBytes b) (pendingRecords b) (pendingBytes b)]) (b', ps)"
    and "0 \<le> pendingRecords b" and "0 \<le> pendingBytes b"
  shows "(0 < maxRecords (cfg b) \<longrightarrow> heldRecords ps \<le> max (maxRecords (cfg b)) (pendingRecords b))
     \<and> (0 < maxBytes (cfg b) \<longrightarrow> heldBytes ps \<le> max (maxBytes (cfg b)) (pendingBytes b))"
proof -
  let ?r = "[(pendingRecords b, pendingRecords b, True)]" and ?z = "[(pendingBytes b, pendingBytes b, True)]"
  obtain es ss where e: "records.cstep\<^sup>*\<^sup>* (b, ?r) (b', es)" "mset es = ledger recEntry ps"
    and s: "sizes.cstep\<^sup>*\<^sup>* (b, ?z) (b', ss)" "mset ss = ledger byteEntry ps"
    using wsteps_counters [OF assms(1), of ?r ?z] by auto
  show ?thesis
    using records.granted_within [OF e(1) refl assms(2)] sizes.granted_within [OF s(1) refl assms(3)]
      granted_ledger(1) [OF e(2)] granted_ledger(2) [OF s(2)] by auto
qed

definition tiny_buf :: buf where
  "tiny_buf = newBuffer (defaults\<lparr>maxRecords := 5, maxBytes := 64\<rparr>) False 0"

lemma tiny_fields: "pendingRecords tiny_buf = 0" "pendingBytes tiny_buf = 0" "maxRecords (cfg tiny_buf) = 5" "maxBytes (cfg tiny_buf) = 64"
  by (simp_all add: tiny_buf_def newBuffer_def)

lemma tiny_writes:
  "wstep\<^sup>*\<^sup>* (tiny_buf, [RGranted 0 0 0 0]) (addBytes 30 (addRecords 3 tiny_buf), [RGranted 0 0 0 0, RGranted 3 30 3 30])"
proof -
  have "wstep\<^sup>*\<^sup>* (tiny_buf, [RGranted 0 0 0 0]) (tiny_buf, [RGranted 0 0 0 0, RAddRecords 3 30])"
    using w_call [of 3 30 tiny_buf "[RGranted 0 0 0 0]"] by auto
  also have "wstep \<dots> (addRecords 3 tiny_buf, [RGranted 0 0 0 0, RAddBytes 3 30 3])"
    using w_turn [of "RAddRecords 3 30" tiny_buf _ _ "[RGranted 0 0 0 0]" "[]"] by (simp add: addRecords_def tiny_fields)
  also have "wstep \<dots> (addBytes 30 (addRecords 3 tiny_buf), [RGranted 0 0 0 0, RCheck 3 30 3 30])"
    using w_turn [of "RAddBytes 3 30 3" "addRecords 3 tiny_buf" _ _ "[RGranted 0 0 0 0]" "[]"]
    by (simp add: addBytes_def addRecords_def tiny_fields)
  also have "wstep \<dots> (addBytes 30 (addRecords 3 tiny_buf), [RGranted 0 0 0 0, RGranted 3 30 3 30])"
    using w_turn [of "RCheck 3 30 3 30" "addBytes 30 (addRecords 3 tiny_buf)" _ _ "[RGranted 0 0 0 0]" "[]"]
    by (simp add: addBytes_def addRecords_def tiny_fields exceeds_def)
  finally show ?thesis .
qed

theorem capacity_never_exceeded_witness:
  "heldRecords [RGranted 0 0 0 0, RGranted 3 30 3 30] \<le> max (maxRecords (cfg tiny_buf)) 0
   \<and> heldBytes [RGranted 0 0 0 0, RGranted 3 30 3 30] \<le> max (maxBytes (cfg tiny_buf)) 0"
  using capacity_never_exceeded [of tiny_buf "addBytes 30 (addRecords 3 tiny_buf)" "[RGranted 0 0 0 0, RGranted 3 30 3 30]"] tiny_writes
  by (simp add: tiny_fields)

text \<open>A write is too large exactly if no amount of draining admits it: \<^verbatim>\<open>fits\<close> refuses it if and only if an empty buffer
  would not grant the reservation.\<close>

theorem fits_exact:
  "fits n sz b = None \<longleftrightarrow> fst (reserve (id, id, id) n sz (b\<lparr>pendingRecords := 0, pendingBytes := 0\<rparr>))"
  by (auto simp: fits_def reserve_eq addRecords_def addBytes_def exceeds_def Let_def)



end
