(* ===== verification/Delivery.thy ===== *)
theory Delivery
  imports Buffer
begin

text \<open>
  Delivering a batch: the second half of \<^verbatim>\<open>flush.go\<close>, from \<^verbatim>\<open>deliver\<close> to \<^verbatim>\<open>complete\<close>.

  The sink, the dead-letter sink and the handlers are the caller's code. A delivery runs on its own
  goroutine; a turn of its loop is described by what the sink answers and by what the others do at the
  points where the delivery looks at the shared state: before the floor is read, while the sink is at work, between the
  verdict and the second look at the shutdown, and during the wait for the next attempt. \<open>None\<close> means that the delivery is
  still under way when the script ends.
\<close>

subsection \<open>A batch under construction\<close>

text \<open>\<^verbatim>\<open>dispatch\<close> clears the records of the copy that travels with the delivery; the batch holds them.\<close>

record prange =
  pid :: u64
  rangeFrom :: u64
  rangeTo :: u64
  pcount :: int
  pbytes :: int
  pskipCount :: int
  pskipBytes :: int

definition completeRange :: "prange \<Rightarrow> buf \<Rightarrow> buf" where
  "completeRange p = complete (rangeFrom p) (rangeTo p) (pcount p + pskipCount p) (pbytes p + pskipBytes p)"

definition aborting :: "buf \<Rightarrow> bool" where
  "aborting b = aborted b"

subsection \<open>Verdicts\<close>

definition classify :: "sinkFailure \<Rightarrow> buf \<Rightarrow> retryDecision \<times> buf" where
  "classify f b = (case sfErr f of
      None \<Rightarrow> (zeroDecision, b)
    | Some e \<Rightarrow> (case onSinkError (cfg b) of
         Some h \<Rightarrow> (case h f of
             Panics v \<Rightarrow> (zeroDecision\<lparr>rdAction := FailBuffer\<rparr>,
                bufFail (Wrap ''batch: WithOnSinkError handler'' [the (protect (h f))]) b)
           | Returns d \<Rightarrow> (d, b))
       | None \<Rightarrow>
           (if errors_is e BErrPermanent then (zeroDecision\<lparr>rdAction := DeadLetterBatch\<rparr>, b)
            else case retryDelayOf e of
                Some d \<Rightarrow> (zeroDecision\<lparr>rdAfter := d\<rparr>, b)
              | None \<Rightarrow> (zeroDecision, b))))"


definition retryDelay :: "real \<Rightarrow> retryDecision \<Rightarrow> backoff \<Rightarrow> nat \<Rightarrow> duration" where
  "retryDelay u d bo attempt = (if rdAction d = RetryBatch \<and> rdAfter d > 0 then rdAfter d else delay u (int attempt) bo)"

text \<open>
  One turn of the wait between two attempts: what others do while it sleeps, the time since the timer
  was set, and the case that \<^verbatim>\<open>select\<close> takes. A case that is not ready is never taken: the wait goes on.
\<close>

datatype retrySelect = RetryTimer | RetryShed | RetryAbort

type_synonym retryWait = "bufEnv \<times> duration \<times> retrySelect"

fun awaitRetry :: "retryWait list \<Rightarrow> prange \<Rightarrow> duration \<Rightarrow> buf \<Rightarrow> (bool \<times> buf) option" where
  "awaitRetry [] p dl b = None"
| "awaitRetry ((env, elapsed, sel) # ws) p dl b =
     (let shed = gateWait (floors b) in
      if pid p < dropFloor b then Some (True, b)
      else
        let b1 = env b in
        case sel of
          RetryTimer \<Rightarrow> if dl \<le> elapsed then Some (True, b1) else None
        | RetryShed \<Rightarrow> if isClosed shed (floors b1) then awaitRetry ws p dl b1 else None
        | RetryAbort \<Rightarrow> if aborted b1 then Some (False, b1) else None)"

subsection \<open>Attempts\<close>

text \<open>A sink is told whether the delivery context is cancelled, and is shown the batch with the number of the attempt.\<close>

type_synonym 'a sink = "bool \<Rightarrow> 'a batch \<Rightarrow> error option outcome"

record turn =
  tBefore :: bufEnv
  tDuring :: bufEnv
  tVerdict :: bufEnv
  tWait :: "retryWait list"
  tRand :: real

text \<open>How a delivery ends. A batch that is kept stays unacknowledged, and the next \<^verbatim>\<open>Open\<close> replays it.\<close>

datatype fate = Delivered | DeadLettered | Dropped dropReason | Kept

definition failureOf :: "'a batch \<Rightarrow> prange \<Rightarrow> nat \<Rightarrow> bool \<Rightarrow> error option \<Rightarrow> sinkFailure" where
  "failureOf batch p attempt dead err = \<lparr>sfID = bID batch, sfRecords = pcount p, sfBytes = pbytes p, sfAttempt = attempt,
     sfDeadLetter = dead, sfErr = err\<rparr>"

definition infoOf :: "'a batch \<Rightarrow> prange \<Rightarrow> nat \<Rightarrow> bool \<Rightarrow> retryAction \<Rightarrow> error option \<Rightarrow> flushInfo" where
  "infoOf batch p attempt dead act err = \<lparr>fiID = bID batch, fiRecords = pcount p, fiBytes = pbytes p, fiAttempt = attempt,
     fiDeadLetter = dead, fiAction = act, fiErr = err\<rparr>"

text \<open>The sink has answered: the answer is classified, unless a shutdown is under way, and reported.\<close>

definition answered :: "'a batch \<Rightarrow> prange \<Rightarrow> nat \<Rightarrow> bool \<Rightarrow> error option \<Rightarrow> buf \<Rightarrow> retryDecision \<times> buf" where
  "answered batch p attempt dead err b =
     (case (if aborting b then (zeroDecision, b) else classify (failureOf batch p attempt dead err) b) of
        (d, b1) \<Rightarrow> (d, observeFlush (infoOf batch p attempt dead (rdAction d) err) b1))"

definition sinkPanicked :: "'a batch \<Rightarrow> prange \<Rightarrow> nat \<Rightarrow> bool \<Rightarrow> error \<Rightarrow> buf \<Rightarrow> buf" where
  "sinkPanicked batch p attempt dead perr b =
     bufFail (Wrap (if dead then ''dead-letter sink'' else ''sink'') [perr])
       (observeFlush (infoOf batch p attempt dead FailBuffer (Some perr)) b)"

definition abandon :: "dropReason \<Rightarrow> prange \<Rightarrow> buf \<Rightarrow> buf" where
  "abandon reason p b = completeRange p (dropped (pcount p) reason b)"

definition leaveFailing :: "bool \<Rightarrow> buf \<Rightarrow> buf" where
  "leaveFailing failing b = (if failing then b\<lparr>failingBatches := failingBatches b - 1\<rparr> else b)"

text \<open>
  One attempt, the same on either sink: the floor is looked at, the sink is called, its answer classified and
  reported.
\<close>

datatype tried = Shed buf | Panicked buf | Took buf | Refused retryDecision error buf

definition tryOnce :: "bool \<Rightarrow> turn \<Rightarrow> 'a sink \<Rightarrow> 'a batch \<Rightarrow> prange \<Rightarrow> nat \<Rightarrow> buf \<Rightarrow> tried" where
  "tryOnce dead t s batch p attempt b =
     (let b0 = tBefore t b in
      if pid p < dropFloor b0 then Shed b0
      else
        let b1 = tDuring t b0;
            batch1 = batch\<lparr>bAttempt := attempt\<rparr>
        in case s (deliverCancelled b1) batch1 of
             Panics v \<Rightarrow> Panicked (sinkPanicked batch1 p attempt dead (Wrap v [BErrPanic]) b1)
           | Returns err \<Rightarrow>
               (case answered batch1 p attempt dead err b1 of (d, b2) \<Rightarrow>
                case err of None \<Rightarrow> Took b2 | Some e \<Rightarrow> Refused d e b2))"

text \<open>
  What follows a refusal, again the same on either sink but for the limit, the ladder and what giving up
  means: a shutdown keeps the batch, a verdict ends the attempts, and otherwise the next one is waited for.
\<close>

datatype verdict = Stops buf | GivesUp buf | Blocked | Again buf

definition attemptLimit :: "bool \<Rightarrow> config \<Rightarrow> int" where
  "attemptLimit dead c = (if dead then dlqAttempts c else maxAttempts c)"

definition ladderOf :: "bool \<Rightarrow> config \<Rightarrow> backoff" where
  "ladderOf dead c = (if dead then deadLetterBackoff c else backoffC c)"

definition afterRefusal :: "bool \<Rightarrow> turn \<Rightarrow> prange \<Rightarrow> nat \<Rightarrow> retryDecision \<Rightarrow> error \<Rightarrow> buf \<Rightarrow> verdict" where
  "afterRefusal dead t p attempt d e b =
     (if aborting b then Stops b
      else if rdAction d = DeadLetterBatch then GivesUp b
      else if rdAction d = FailBuffer then
        Stops (bufFail (Wrap (if dead then ''batch: dead-letter sink rejected batch'' else ''batch: sink rejected batch'') [e]) b)
      else if attemptLimit dead (cfg b) > 0 \<and> int attempt \<ge> attemptLimit dead (cfg b) then GivesUp b
      else case awaitRetry (tWait t) p (retryDelay (tRand t) d (ladderOf dead (cfg b)) attempt) b of
          None \<Rightarrow> Blocked
        | Some (False, b1) \<Rightarrow> Stops b1
        | Some (True, b1) \<Rightarrow> Again b1)"

fun deadLetterLoop :: "turn list \<Rightarrow> 'a sink \<Rightarrow> 'a batch \<Rightarrow> prange \<Rightarrow> nat \<Rightarrow> buf \<Rightarrow> (fate \<times> buf) option" where
  "deadLetterLoop [] dlq batch p attempt b = None"
| "deadLetterLoop (t # ts) dlq batch p attempt b =
     (case tryOnce True t dlq batch p attempt b of
        Shed b1 \<Rightarrow> Some (Dropped ReasonPolicy, abandon ReasonPolicy p b1)
      | Panicked b1 \<Rightarrow> Some (Kept, b1)
      | Took b1 \<Rightarrow> Some (DeadLettered, completeRange p (deadLettered (pcount p) b1))
      | Refused d e b1 \<Rightarrow>
          (case afterRefusal True t p attempt d e (tVerdict t (b1\<lparr>cRetries := cRetries b1 + 1\<rparr>)) of
             Stops b2 \<Rightarrow> Some (Kept, b2)
           | GivesUp b2 \<Rightarrow> Some (Dropped ReasonRetriesExhausted, abandon ReasonRetriesExhausted p b2)
           | Blocked \<Rightarrow> None
           | Again b2 \<Rightarrow> deadLetterLoop ts dlq batch p (Suc attempt) b2))"

definition deadLetter :: "turn list \<Rightarrow> 'a sink option \<Rightarrow> 'a batch \<Rightarrow> prange \<Rightarrow> buf \<Rightarrow> (fate \<times> buf) option" where
  "deadLetter ts dlq batch p b = (case dlq of
      None \<Rightarrow> Some (Dropped ReasonRetriesExhausted, abandon ReasonRetriesExhausted p b)
    | Some s \<Rightarrow> deadLetterLoop ts s batch p 1 b)"

text \<open>The success branch, and the bookkeeping of a failed attempt.\<close>

definition flushedBatch :: "prange \<Rightarrow> bool \<Rightarrow> buf \<Rightarrow> buf" where
  "flushedBatch p failing b =
     (let b1 = leaveFailing failing b;
          b2 = (if failingBatches b1 = 0 then b1\<lparr>sinkFailures := 0\<rparr> else b1)
      in completeRange p (b2\<lparr>cFlushed := cFlushed b2 + of_int (pcount p)\<rparr>))"

definition countFailure :: "bool \<Rightarrow> buf \<Rightarrow> buf" where
  "countFailure failing b =
     (let b1 = b\<lparr>sinkFailures := sinkFailures b + 1\<rparr>;
          b2 = (if failing then b1 else b1\<lparr>failingBatches := failingBatches b1 + 1\<rparr>)
      in b2\<lparr>cRetries := cRetries b2 + 1\<rparr>)"

text \<open>The deferred function of \<^verbatim>\<open>deliver\<close> runs on every way out.\<close>

definition ending :: "bool \<Rightarrow> (fate \<times> buf) option \<Rightarrow> (fate \<times> buf) option" where
  "ending failing r = map_option (map_prod id (leaveFailing failing)) r"

fun deliver :: "turn list \<Rightarrow> 'a sink \<Rightarrow> 'a sink option \<Rightarrow> 'a batch \<Rightarrow> prange \<Rightarrow> nat \<Rightarrow> bool \<Rightarrow> buf
    \<Rightarrow> (fate \<times> buf) option" where
  "deliver [] sink dlq batch p attempt failing b = None"
| "deliver (t # ts) sink dlq batch p attempt failing b =
     (case tryOnce False t sink batch p attempt b of
        Shed b1 \<Rightarrow> ending failing (Some (Dropped ReasonPolicy, abandon ReasonPolicy p b1))
      | Panicked b1 \<Rightarrow> ending failing (Some (Kept, b1))
      | Took b1 \<Rightarrow> Some (Delivered, flushedBatch p failing b1)
      | Refused d e b1 \<Rightarrow>
          (case afterRefusal False t p attempt d e (tVerdict t (countFailure failing b1)) of
             Stops b2 \<Rightarrow> ending True (Some (Kept, b2))
           | GivesUp b2 \<Rightarrow> ending True (deadLetter ts dlq batch p b2)
           | Blocked \<Rightarrow> None
           | Again b2 \<Rightarrow> deliver ts sink dlq batch p (Suc attempt) True b2))"

subsection \<open>Decoding\<close>

definition decodePayload :: "(bytes \<Rightarrow> (error + 'a) outcome) \<Rightarrow> bytes \<Rightarrow> error + 'a" where
  "decodePayload dec payload = (case dec payload of
      Returns r \<Rightarrow> r | Panics v \<Rightarrow> Inl (Wrap ''codec'' [Wrap v [BErrPanic]]))"

definition decodeFailure :: "u64 \<Rightarrow> bytes \<Rightarrow> error \<Rightarrow> buf \<Rightarrow> decodeAction \<times> error option" where
  "decodeFailure lsn payload e b = (case onDecodeFailure (cfg b) of
      None \<Rightarrow> (DropRecord, None)
    | Some f \<Rightarrow> (case f \<lparr>dfLSN = lsn, dfPayload = payload, dfErr = e\<rparr> of
         Returns act \<Rightarrow> (act, None)
       | Panics v \<Rightarrow> (StopBuffer, Some (Wrap ''WithOnDecodeFailure handler'' [Wrap v [BErrPanic]]))))"

end
