(* ===== verification/Flusher.thy ===== *)
theory Flusher
  imports Delivery Reader
begin

text \<open>
  The flusher: the first half of \<^verbatim>\<open>flush.go\<close>, which reads the log, assembles batches and hands them to
  deliveries.

  The local variables of the goroutine are the record \<open>flusher\<close>. Reading one record, starting a batch,
  acting on a batch that is full and waiting are separate definitions, and the loop is run on a script:
  for each turn what the other goroutines do before it, before every read, while a batch waits for a
  delivery slot, and while the flusher sleeps. \<open>None\<close> means that the flusher has not returned when the script
  ends. The flights it has started are returned in the order in which it started them.
\<close>

subsection \<open>Local state\<close>

record 'a flusher =
  frecords :: "'a list"
  fid :: u64
  wantLSN :: u64
  ffrom :: u64
  fto :: u64
  nbytes :: int
  skipCount :: int
  skipBytes :: int
  expired :: bool
  draining :: bool
  cut :: bool
  fstop :: "(u64 \<times> error) option"
  held :: "('a \<times> u64 \<times> int) option"

definition newFlusher :: "u64 \<Rightarrow> 'a flusher" where
  "newFlusher from = \<lparr>frecords = [], fid = 0, wantLSN = 0, ffrom = from, fto = from - 1, nbytes = 0, skipCount = 0,
     skipBytes = 0, expired = False, draining = False, cut = False, fstop = None, held = None\<rparr>"

definition startBatch :: "u64 \<Rightarrow> 'a flusher \<Rightarrow> buf \<Rightarrow> 'a flusher \<times> buf" where
  "startBatch lsn f b =
     (case (if lsn > ffrom f
            then (f\<lparr>ffrom := lsn, skipCount := 0, skipBytes := 0\<rparr>, complete (ffrom f) (lsn - 1) (skipCount f) (skipBytes f) b)
            else (f, b)) of
        (f1, b1) \<Rightarrow> (f1\<lparr>fid := lsn, wantLSN := lsn\<rparr>, b1))"

text \<open>A record held over from before a discontinuity opens the next batch.\<close>

definition takeHeld :: "'a flusher \<Rightarrow> buf \<Rightarrow> 'a flusher \<times> buf" where
  "takeHeld f b = (case held f of
      None \<Rightarrow> (f, b)
    | Some (v, lsn, sz) \<Rightarrow>
        if frecords f \<noteq> [] then (f, b)
        else case startBatch lsn f b of (f1, b1) \<Rightarrow>
          (f1\<lparr>frecords := frecords f1 @ [v], wantLSN := lsn + 1, nbytes := nbytes f1 + sz, fto := lsn, held := None\<rparr>, b1))"

subsection \<open>Reading\<close>

definition skipRecord :: "u64 \<Rightarrow> int \<Rightarrow> 'a flusher \<Rightarrow> 'a flusher" where
  "skipRecord lsn sz f = f\<lparr>fto := lsn, skipCount := skipCount f + 1, skipBytes := skipBytes f + sz, cut := frecords f \<noteq> []\<rparr>"

definition addRecord :: "u64 \<Rightarrow> int \<Rightarrow> 'a \<Rightarrow> 'a flusher \<Rightarrow> buf \<Rightarrow> 'a flusher \<times> buf" where
  "addRecord lsn sz v f b =
     (case (if frecords f = [] then startBatch lsn f b else (f, b)) of (f1, b1) \<Rightarrow>
        if lsn \<noteq> wantLSN f1 then (f1\<lparr>held := Some (v, lsn, sz), cut := True\<rparr>, b1)
        else (f1\<lparr>frecords := frecords f1 @ [v], wantLSN := wantLSN f1 + 1, nbytes := nbytes f1 + sz, fto := lsn\<rparr>, b1))"

text \<open>What the loop does with a record it has read.\<close>

definition takeRecord :: "(bytes \<Rightarrow> (error + 'a) outcome) \<Rightarrow> u64 \<Rightarrow> bytes \<Rightarrow> 'a flusher \<Rightarrow> buf \<Rightarrow> 'a flusher \<times> buf" where
  "takeRecord dec lsn payload f b =
     (let sz = int (length payload) in
      if lsn < dropFloor b then (skipRecord lsn sz f, dropped 1 ReasonPolicy b)
      else case decodePayload dec payload of
          Inr v \<Rightarrow> addRecord lsn sz v f b
        | Inl derr \<Rightarrow> (case decodeFailure lsn payload derr b of
             (StopBuffer, herr) \<Rightarrow> (f\<lparr>fstop := Some (lsn, case herr of Some e \<Rightarrow> e | None \<Rightarrow> derr)\<rparr>, b)
           | (DropRecord, _) \<Rightarrow> (skipRecord lsn sz f, dropped 1 ReasonDecode b)))"

type_synonym sysEnv = "buf \<Rightarrow> log \<Rightarrow> fs \<Rightarrow> buf \<times> log \<times> fs"

definition isFull :: "'a flusher \<Rightarrow> buf \<Rightarrow> bool" where
  "isFull f b \<longleftrightarrow> int (length (frecords f)) \<ge> flushRecords (cfg b) \<or> nbytes f \<ge> flushBytes (cfg b)"

text \<open>The inner loop. The flag tells whether the flusher goes on; it does not when reading the log failed.\<close>

fun fillBatch :: "sysEnv list \<Rightarrow> (bytes \<Rightarrow> (error + 'a) outcome) \<Rightarrow> 'a flusher \<Rightarrow> reader \<Rightarrow> buf \<Rightarrow> log \<Rightarrow> fs
    \<Rightarrow> (bool \<times> 'a flusher \<times> reader \<times> buf \<times> log \<times> fs) option" where
  "fillBatch envs dec f r b l w =
     (if cut f \<or> isFull f b \<or> fstop f \<noteq> None then Some (True, f, r, b, l, w)
      else case envs of
          [] \<Rightarrow> None
        | env # rest \<Rightarrow>
            (case env b l w of (b0, l0, w0) \<Rightarrow>
             case readerNext l0 r w0 of
               (Inl e, r1, w1) \<Rightarrow>
                 (if errors_is e ErrNoData then Some (True, f, r1, b0, l0, w1)
                  else Some (False, f, r1, bufFail (Wrap ''batch: read log'' [e]) b0, l0, w1))
             | (Inr (lsn, payload), r1, w1) \<Rightarrow>
                 (case takeRecord dec lsn payload f b0 of (f1, b1) \<Rightarrow> fillBatch rest dec f1 r1 b1 l0 w1)))"

declare fillBatch.simps [simp del]

subsection \<open>Dispatching\<close>

definition pendingOf :: "'a flusher \<Rightarrow> prange" where
  "pendingOf f = \<lparr>pid = fid f, rangeFrom = ffrom f, rangeTo = fto f, pcount = int (length (frecords f)), pbytes = nbytes f,
     pskipCount = skipCount f, pskipBytes = skipBytes f\<rparr>"

type_synonym 'a flight = "'a batch \<times> prange"

text \<open>
  The channel \<^verbatim>\<open>sem\<close> has room for \<^verbatim>\<open>MaxInFlight\<close>. \<open>env\<close> is what happens until the \<^verbatim>\<open>select\<close> goes on, and \<open>giveUp\<close>
  which of its cases it takes.
\<close>

definition dispatch :: "bufEnv \<times> bool \<Rightarrow> string \<Rightarrow> 'a list \<Rightarrow> prange \<Rightarrow> buf \<Rightarrow> ('a flight option \<times> buf) option" where
  "dispatch script logid records p b =
     (case script of (env, giveUp) \<Rightarrow>
      let b1 = env b;
          batch = \<lparr>bID = pid p, bLogID = logid, bRecords = records, bAttempt = 0\<rparr>
      in if giveUp then (if aborted b1 then Some (None, b1) else None)
         else if int (semUsed b1) < maxInFlight (cfg b1) then Some (Some (batch, p), b1\<lparr>semUsed := Suc (semUsed b1)\<rparr>)
         else None)"

definition deliveryDone :: "buf \<Rightarrow> buf" where
  "deliveryDone b = b\<lparr>semUsed := semUsed b - 1\<rparr>"

text \<open>What a turn comes to, once what is there has been read.\<close>

datatype 'a flusherNext = Return | Continue "'a flusher" | Sleep "'a flusher"

definition resetBatch :: "'a flusher \<Rightarrow> 'a flusher" where
  "resetBatch f = f\<lparr>frecords := [], nbytes := 0, expired := False, cut := False, ffrom := fto f + 1, skipCount := 0, skipBytes := 0\<rparr>"

definition resetSkipped :: "'a flusher \<Rightarrow> 'a flusher" where
  "resetSkipped f = f\<lparr>ffrom := fto f + 1, skipCount := 0, skipBytes := 0, cut := False\<rparr>"

definition stopFlusher :: "bufEnv \<times> bool \<Rightarrow> string \<Rightarrow> error \<Rightarrow> 'a flusher \<Rightarrow> buf \<Rightarrow> ('a flight option \<times> buf) option" where
  "stopFlusher script logid e f b =
     map_option (map_prod id (bufFail (Wrap ''batch: decode record'' [e])))
       (if frecords f \<noteq> [] then dispatch script logid (frecords f) (pendingOf f) b
        else if fto f \<ge> ffrom f then Some (None, complete (ffrom f) (fto f) (skipCount f) (skipBytes f) b)
        else Some (None, b))"

definition flusherAct :: "bufEnv \<times> bool \<Rightarrow> string \<Rightarrow> 'a flusher \<Rightarrow> buf \<Rightarrow> ('a flusherNext \<times> 'a flight option \<times> buf) option" where
  "flusherAct script logid f b =
     (case fstop f of
        Some (lsn, e) \<Rightarrow> map_option (Pair Return) (stopFlusher script logid e f b)
      | None \<Rightarrow>
          let f1 = (if forceFlush b then f\<lparr>expired := True\<rparr> else f);
              b1 = b\<lparr>forceFlush := False\<rparr>
          in if frecords f1 \<noteq> [] \<and> (isFull f1 b1 \<or> expired f1 \<or> draining f1 \<or> cut f1) then
               (case dispatch script logid (frecords f1) (pendingOf f1) b1 of
                  None \<Rightarrow> None
                | Some (None, b2) \<Rightarrow> Some (Return, None, b2)
                | Some (Some fl, b2) \<Rightarrow> Some (Continue (resetBatch f1), Some fl, b2))
             else if frecords f1 = [] \<and> fto f1 \<ge> ffrom f1 then
               Some (Continue (resetSkipped f1), None, complete (ffrom f1) (fto f1) (skipCount f1) (skipBytes f1) b1)
             else if draining f1 \<and> frecords f1 = [] then Some (Return, None, b1)
             else Some (Sleep f1, None, b1))"

subsection \<open>The loop\<close>

datatype flusherSelect = FlusherWake | FlusherTick | FlusherDrain | FlusherAbort

record flusherTurn =
  ftBefore :: sysEnv
  ftReads :: "sysEnv list"
  ftSend :: "bufEnv \<times> bool"
  ftSleep :: sysEnv
  ftSelect :: flusherSelect

text \<open>Waking up: the buffer after a wake-up was consumed, and the flusher unless it returns.\<close>

definition wakeUp :: "flusherSelect \<Rightarrow> 'a flusher \<Rightarrow> buf \<Rightarrow> ('a flusher option \<times> buf) option" where
  "wakeUp sel f b = (case sel of
      FlusherWake \<Rightarrow> if wake b then Some (Some f, b\<lparr>wake := False\<rparr>) else None
    | FlusherTick \<Rightarrow> Some (Some (f\<lparr>expired := True\<rparr>), b)
    | FlusherDrain \<Rightarrow> if drainNow b then Some (Some (f\<lparr>draining := True\<rparr>), b) else None
    | FlusherAbort \<Rightarrow> if aborted b then Some (None, b) else None)"

fun flusherLoop :: "flusherTurn list \<Rightarrow> (bytes \<Rightarrow> (error + 'a) outcome) \<Rightarrow> 'a flusher \<Rightarrow> reader \<Rightarrow> buf \<Rightarrow> log \<Rightarrow> fs
    \<Rightarrow> ('a flight list \<times> reader \<times> buf \<times> log \<times> fs) option" where
  "flusherLoop [] dec f r b l w = None"
| "flusherLoop (t # ts) dec f r b l w =
     (case ftBefore t b l w of (b0, l0, w0) \<Rightarrow>
      if fatalErr b0 \<noteq> None then Some ([], r, b0, l0, w0)
      else case takeHeld f b0 of (f1, b1) \<Rightarrow>
      case fillBatch (ftReads t) dec f1 r b1 l0 w0 of
        None \<Rightarrow> None
      | Some (False, f2, r2, b2, l2, w2) \<Rightarrow> Some ([], r2, b2, l2, w2)
      | Some (True, f2, r2, b2, l2, w2) \<Rightarrow>
          (case flusherAct (ftSend t) (logID l2) f2 b2 of
             None \<Rightarrow> None
           | Some (next, fl, b3) \<Rightarrow>
               (let sent = (case fl of Some x \<Rightarrow> [x] | None \<Rightarrow> []) in
                case next of
                  Return \<Rightarrow> Some (sent, r2, b3, l2, w2)
                | Continue f3 \<Rightarrow> map_option (map_prod (append sent) id) (flusherLoop ts dec f3 r2 b3 l2 w2)
                | Sleep f3 \<Rightarrow>
                    (case ftSleep t b3 l2 w2 of (b4, l4, w4) \<Rightarrow>
                     case wakeUp (ftSelect t) f3 b4 of
                       None \<Rightarrow> None
                     | Some (None, b5) \<Rightarrow> Some (sent, r2, b5, l4, w4)
                     | Some (Some f5, b5) \<Rightarrow> map_option (map_prod (append sent) id) (flusherLoop ts dec f5 r2 b5 l4 w4)))))"

definition flusherRun :: "flusherTurn list \<Rightarrow> (bytes \<Rightarrow> (error + 'a) outcome) \<Rightarrow> u64 \<Rightarrow> buf \<Rightarrow> log \<Rightarrow> fs
    \<Rightarrow> ('a flight list \<times> buf \<times> log \<times> fs) option" where
  "flusherRun ts dec from b l w = (case newReader from l of
      Inl e \<Rightarrow> Some ([], (bufFail (Wrap ''batch: open log reader'' [e]) b)\<lparr>drained := True\<rparr>, l, w)
    | Inr r \<Rightarrow> map_option (\<lambda>(fls, r1, b1, l1, w1). (fls, b1\<lparr>drained := True\<rparr>, l1, snd (snd (readerClose r1 w1))))
        (flusherLoop ts dec (newFlusher from) r b l w))"

end
