(* ===== verification/Lifecycle.thy ===== *)
theory Lifecycle
  imports Flusher Recovery
begin

text \<open>
  The life of a buffer: \<^verbatim>\<open>Open\<close> and \<^verbatim>\<open>countBacklog\<close> of \<^verbatim>\<open>batch.go\<close>; \<^verbatim>\<open>persist\<close>, \<^verbatim>\<open>checkpointer\<close>, \<^verbatim>\<open>Flush\<close>, \<^verbatim>\<open>Close\<close>
  and \<^verbatim>\<open>Stats\<close> of \<^verbatim>\<open>flush.go\<close>.

  The state is the buffer, its log and the file system. As elsewhere, what the other goroutines do
  while a call waits or between its steps is an argument, and \<open>None\<close> says that the call has not returned.
\<close>

subsection \<open>Checkpoints\<close>

text \<open>The first two functions are what happens before the checkpoint and before the truncation.\<close>

definition persist :: "sysEnv \<times> sysEnv \<Rightarrow> buf \<Rightarrow> log \<Rightarrow> fs \<Rightarrow> buf \<times> log \<times> fs" where
  "persist envs b l w =
     (let m = mark (ackT b) in
      if m = 0 \<or> m = lastCP b then (b, l, w)
      else case fst envs b l w of (b1, l1, w1) \<Rightarrow>
        (case writeCheckpoint m w1 of
           (Inl e, w2) \<Rightarrow> (noteRetryable (Wrap ''batch: write checkpoint'' [e]) b1, l1, w2)
         | (Inr _, w2) \<Rightarrow>
             (case snd envs b1 l1 w2 of (b3, l3, w3) \<Rightarrow>
              case truncateLog (m + 1) l3 w3 of
                (Some e, l4, w4) \<Rightarrow> (noteRetryable (Wrap ''batch: truncate log'' [e]) b3, l4, w4)
              | (None, l4, w4) \<Rightarrow>
                  let b4 = checkpointed m (clearRetryable (b3\<lparr>lastCP := m\<rparr>))
                  in (b4\<lparr>space := signal (space b4)\<rparr>, l4, w4))))"

datatype cpSelect = CpTick | CpStop

fun checkpointer :: "(sysEnv \<times> cpSelect \<times> (sysEnv \<times> sysEnv)) list \<Rightarrow> buf \<Rightarrow> log \<Rightarrow> fs \<Rightarrow> (buf \<times> log \<times> fs) option" where
  "checkpointer [] b l w = None"
| "checkpointer ((env, sel, envs) # ts) b l w =
     (case env b l w of (b1, l1, w1) \<Rightarrow>
      case sel of
        CpTick \<Rightarrow> (case persist envs b1 l1 w1 of (b2, l2, w2) \<Rightarrow> checkpointer ts b2 l2 w2)
      | CpStop \<Rightarrow> if cpStop b1 then Some (b1\<lparr>cpDone := True\<rparr>, l1, w1) else None)"

subsection \<open>Waiting for the backlog\<close>

datatype flushSelect = FlushProgress | FlushCtx error

fun flushLoop :: "(bufEnv \<times> flushSelect) list \<Rightarrow> u64 \<Rightarrow> buf \<Rightarrow> (error option \<times> buf) option" where
  "flushLoop [] target b = None"
| "flushLoop ((env, sel) # ts) target b =
     (let parked = gateWait (progress b) in
      if mark (ackT b) \<ge> target then Some (fatalErr b, b)
      else case fatalErr b of
          Some e \<Rightarrow> Some (Some e, b)
        | None \<Rightarrow>
            (let b1 = env (nudge (b\<lparr>forceFlush := True\<rparr>)) in
             case sel of
               FlushProgress \<Rightarrow> if isClosed parked (progress b1) then flushLoop ts target b1 else None
             | FlushCtx e \<Rightarrow> Some (Some e, b1)))"

definition Flush :: "(bufEnv \<times> flushSelect) list \<Rightarrow> log \<Rightarrow> buf \<Rightarrow> (error option \<times> buf) option" where
  "Flush ts l b = flushLoop ts (durable l) b"

subsection \<open>Closing\<close>

text \<open>
  What a call of \<^verbatim>\<open>Close\<close> meets: what happens while it waits for the writers, for the flusher, for the
  deliveries, for both of them again after the abort, and for the checkpointer; the error of its context if it runs out during the
  second or the third of these waits; the committer's last wake-ups; and, for the wait for the
  dispatcher, the caller's stack and whether that wait ends. The deliveries under way are counted by the slots they hold.
\<close>

record closeScript =
  csWriters :: sysEnv
  csFlusher :: sysEnv
  csDeliveries :: sysEnv
  csCtx1 :: "error option"
  csCtx2 :: "error option"
  csAbort :: sysEnv
  csCheckpointer :: sysEnv
  csPersist :: "sysEnv \<times> sysEnv"
  csWakes :: "wake list"
  csCallee :: string
  csStack :: "string list"
  csDispatcher :: bool

text \<open>The two waits with the context: whether it ran out, or \<open>None\<close> while the wait lasts.\<close>

definition closeWaits :: "closeScript \<Rightarrow> buf \<Rightarrow> log \<Rightarrow> fs \<Rightarrow> (error option \<times> buf \<times> log \<times> fs) option" where
  "closeWaits s b l w =
     (case csFlusher s b l w of (b1, l1, w1) \<Rightarrow>
      case csCtx1 s of
        Some e \<Rightarrow> Some (Some e, b1, l1, w1)
      | None \<Rightarrow>
          if \<not> drained b1 then None
          else case csDeliveries s b1 l1 w1 of (b2, l2, w2) \<Rightarrow>
            (case csCtx2 s of
               Some e \<Rightarrow> Some (Some e, b2, l2, w2)
             | None \<Rightarrow> if semUsed b2 \<noteq> 0 then None else Some (None, b2, l2, w2)))"

text \<open>From the abort to the end of the function inside \<^verbatim>\<open>closeOnce\<close>.\<close>

definition shutDown :: "closeScript \<Rightarrow> error option \<Rightarrow> buf \<Rightarrow> log \<Rightarrow> fs \<Rightarrow> (buf \<times> log \<times> fs) option" where
  "shutDown s timedOut b l w =
     (case csAbort s (b\<lparr>aborted := True, deliverCancelled := True\<rparr>) l w of (b1, l1, w1) \<Rightarrow>
      if \<not> drained b1 \<or> semUsed b1 \<noteq> 0 then None
      else case csCheckpointer s (b1\<lparr>cpStop := True\<rparr>) l1 w1 of (b2, l2, w2) \<Rightarrow>
      if \<not> cpDone b2 then None
      else case persist (csPersist s) b2 l2 w2 of (b3, l3, w3) \<Rightarrow>
        let b4 = b3\<lparr>obs := map_option stopDispatcher (obs b3)\<rparr> in
        case closeLog (csWakes s) l3 w3 of (err, l4, w4) \<Rightarrow>
          let err1 = (if err = None then timedOut else err);
              err2 = (if err1 = None then fatalErr b4 else err1)
          in Some (b4\<lparr>bufCloseErr := err2, closedOnce := True\<rparr>, l4, w4))"

definition Close :: "closeScript \<Rightarrow> buf \<Rightarrow> log \<Rightarrow> fs \<Rightarrow> (error option \<times> buf \<times> log \<times> fs) option" where
  "Close s b l w =
     (if closedOnce b then Some (bufCloseErr b, b, l, w)
      else case csWriters s (b\<lparr>sealed := True, closing := True, closingCancelled := True\<rparr>) l w of (b1, l1, w1) \<Rightarrow>
      if writers b1 \<noteq> 0 then None
      else case closeWaits s (b1\<lparr>drainNow := True\<rparr>) l1 w1 of
        None \<Rightarrow> None
      | Some (timedOut, b2, l2, w2) \<Rightarrow>
          (case shutDown s timedOut b2 l2 w2 of
             None \<Rightarrow> None
           | Some (b3, l3, w3) \<Rightarrow>
               if obs b3 \<noteq> None \<and> \<not> inDispatcher (csCallee s) (csStack s) \<and> \<not> csDispatcher s then None
               else Some (bufCloseErr b3, b3, l3, w3)))"

subsection \<open>Statistics\<close>

record stats =
  Written :: u64
  Flushed :: u64
  StDropped :: u64
  StDeadLettered :: u64
  Retries :: u64
  PendingRecords :: int
  PendingBytes :: int
  OldestAge :: duration
  DiskFullEvents :: u64
  ObserverDropped :: u64
  Checkpoint :: u64
  DurableLSN :: u64
  SinkFailures :: int
  Err :: "error option"
  CheckpointErr :: "error option"

definition Stats :: "int \<Rightarrow> log \<Rightarrow> buf \<Rightarrow> stats" where
  "Stats now l b = \<lparr>Written = cWritten b, Flushed = cFlushed b, StDropped = cDropped b, StDeadLettered = cDeadLettered b,
     Retries = cRetries b, PendingRecords = pendingRecords b, PendingBytes = pendingBytes b, OldestAge = oldest now (ages b),
     DiskFullEvents = cDiskFull b, ObserverDropped = observerDropped b, Checkpoint = lastCP b, DurableLSN = durable l,
     SinkFailures = sinkFailures b, Err = fatalErr b, CheckpointErr = cpErr b\<rparr>"

subsection \<open>Opening\<close>

text \<open>
  \<open>countLoop\<close> runs on fuel, one unit for each call of the reader; nobody writes yet, so the log does
  not change under it.
\<close>

fun countLoop :: "nat \<Rightarrow> log \<Rightarrow> reader \<Rightarrow> fs \<Rightarrow> int \<Rightarrow> int \<Rightarrow> u64 \<Rightarrow> ((error + int \<times> int \<times> u64) \<times> reader \<times> fs) option" where
  "countLoop 0 l r w records byt lst = None"
| "countLoop (Suc fuel) l r w records byt lst =
     (case readerNext l r w of
        (Inl e, r1, w1) \<Rightarrow> if errors_is e ErrNoData then Some (Inr (records, byt, lst), r1, w1) else Some (Inl e, r1, w1)
      | (Inr (lsn, payload), r1, w1) \<Rightarrow> countLoop fuel l r1 w1 (records + 1) (byt + int (length payload)) lsn)"

definition countBacklog :: "nat \<Rightarrow> int \<Rightarrow> u64 \<Rightarrow> buf \<Rightarrow> log \<Rightarrow> fs \<Rightarrow> (error option \<times> buf \<times> fs) option" where
  "countBacklog fuel now from b l w =
     (case newReader from l of
        Inl e \<Rightarrow> if errors_is e ErrTruncated then Some (None, b, w) else Some (Some e, b, w)
      | Inr r \<Rightarrow> (case countLoop fuel l r w 0 0 0 of
           None \<Rightarrow> None
         | Some (Inl e, r1, w1) \<Rightarrow> Some (Some e, b, snd (snd (readerClose r1 w1)))
         | Some (Inr (records, byt, lst), r1, w1) \<Rightarrow>
             (let b1 = b\<lparr>pendingRecords := records, pendingBytes := byt\<rparr>;
                  b2 = (if records > 0 then b1\<lparr>ages := ageNote lst now (ages b1)\<rparr> else b1)
              in Some (None, b2, snd (snd (readerClose r1 w1))))))"

text \<open>The mark clamped to where the log can resume.\<close>

definition clampCheckpoint :: "log \<Rightarrow> u64 \<Rightarrow> u64" where
  "clampCheckpoint l checkpoint =
     (let c1 = min checkpoint (durable l)
      in if firstLSN l > 0 then max c1 (firstLSN l - 1) else c1)"

text \<open>Every error behind the opening of the log closes the log again; \<open>wakes\<close> are the committer's last wake-ups then.\<close>

definition failOpen :: "wake list \<Rightarrow> error \<Rightarrow> log \<Rightarrow> fs \<Rightarrow> ((error + buf \<times> log) \<times> fs) option" where
  "failOpen wakes e l w = (case closeLog wakes l w of (_, _, w1) \<Rightarrow> Some (Inl e, w1))"

definition startBuffer :: "nat \<Rightarrow> int \<Rightarrow> wake list \<Rightarrow> config \<Rightarrow> bool \<Rightarrow> u64 \<Rightarrow> log \<Rightarrow> fs \<Rightarrow> ((error + buf \<times> log) \<times> fs) option" where
  "startBuffer fuel now wakes c dlq checkpoint l w =
     (case countBacklog fuel now (checkpoint + 1) (newBuffer c dlq checkpoint) l w of
        None \<Rightarrow> None
      | Some (Some e, b, w1) \<Rightarrow> failOpen wakes e l w1
      | Some (None, b, w1) \<Rightarrow>
          Some (Inr ((if observerQueue c > 0 then b\<lparr>obs := Some (newDispatcher (nat (observerQueue c)))\<rparr> else b), l), w1))"

text \<open>The checkpoint is read, checked against the log, clamped, and the log truncated below it.\<close>

definition openAtCheckpoint :: "nat \<Rightarrow> int \<Rightarrow> wake list \<Rightarrow> config \<Rightarrow> bool \<Rightarrow> log \<Rightarrow> fs \<Rightarrow> ((error + buf \<times> log) \<times> fs) option" where
  "openAtCheckpoint fuel now wakes c dlq l w =
     (case readCheckpoint w of
        (Inl e, w1) \<Rightarrow> failOpen wakes e l w1
      | (Inr persisted, w1) \<Rightarrow>
          if firstPrevEnd l > persisted then failOpen wakes (Wrap ''segments are missing'' [ErrCorrupt]) l w1
          else
            let checkpoint = clampCheckpoint l persisted in
            case (if checkpoint > persisted then writeCheckpoint checkpoint w1 else (Inr (), w1)) of
              (Inl e, w2) \<Rightarrow> failOpen wakes e l w2
            | (Inr _, w2) \<Rightarrow>
                (case truncateLog (checkpoint + 1) l w2 of
                   (Some e, l3, w3) \<Rightarrow> failOpen wakes e l3 w3
                 | (None, l3, w3) \<Rightarrow> startBuffer fuel now wakes c dlq checkpoint l3 w3))"

text \<open>
  What a call of \<^verbatim>\<open>Open\<close> meets outside the directory: whether a sink and a codec were given, the lock, the clock for
  salvaged files and for the backlog, the random text of a new identity, and the fuel.
\<close>

record openScript =
  osSink :: bool
  osCodec :: bool
  osFlock :: "error option"
  osKept :: "string \<Rightarrow> nat"
  osText :: string
  osNow :: int
  osWakes :: "wake list"
  osFuel :: nat

definition Open :: "openScript \<Rightarrow> option_fn list \<Rightarrow> fs \<Rightarrow> ((error + buf \<times> log) \<times> fs) option" where
  "Open s os w =
     (if \<not> osSink s then Some (Inl (ErrText ''batch: sink is nil''), w)
      else if \<not> osCodec s then Some (Inl (ErrText ''batch: codec is nil''), w)
      else
        let c = fold (\<lambda>o1. o1) os defaults in
        case validate c of
          Some e \<Rightarrow> Some (Inl e, w)
        | None \<Rightarrow>
            let c1 = c\<lparr>walOpts := openOptions c\<rparr> in
            if deadLetterGiven c = Some False then Some (Inl (ErrText ''batch: dead-letter sink has the wrong type''), w)
            else case openLog (walOpts c1) (osFlock s) (osKept s) (osText s) w of
                (Inl e, w1) \<Rightarrow> Some (Inl e, w1)
              | (Inr (l, reports), w1) \<Rightarrow>
                  openAtCheckpoint (osFuel s) (osNow s) (osWakes s) c1 (deadLetterGiven c = Some True) l w1)"

end
