(* ===== verification/DeliveryProperties.thy ===== *)
theory DeliveryProperties
  imports Delivery
begin

text \<open>
  How deliveries end. A delivery shares the buffer with every other goroutine; \<open>rely\<close> states what it
  takes for granted of them, and the theorems hold for all scripts of such interference, for all
  sinks and all handlers. A delivery that ends either acknowledges its range, or leaves it to the next \<^verbatim>\<open>Open\<close>
  because the buffer failed or is shutting down; what it counts is what the sinks answered; the count of failing batches is given back; and
  with bounded attempts it ends.
\<close>

subsection \<open>What others may do\<close>

text \<open>None of the range's numbers is acknowledged yet; or all of them are.\<close>

definition span :: "prange \<Rightarrow> nat set" where
  "span p = {unat (rangeFrom p)..unat (rangeTo p)}"

definition unacked :: "prange \<Rightarrow> buf \<Rightarrow> bool" where
  "unacked p b \<longleftrightarrow> (\<exists>h. tracks (ackT b) h \<and> span p \<inter> h = {})"

definition resolved :: "prange \<Rightarrow> buf \<Rightarrow> bool" where
  "resolved p b \<longleftrightarrow> (\<exists>h. tracks (ackT b) h \<and> span p \<subseteq> h)"

definition range_ok :: "prange \<Rightarrow> bool" where
  "range_ok p \<longleftrightarrow> rangeFrom p \<le> rangeTo p \<and> unat (rangeTo p) + 1 < 2 ^ 64"

text \<open>
  The rely of a delivery: the others leave its range alone, the configuration is fixed, a failure and
  the abort are for good, and the floor does not fall.
\<close>

definition rely :: "prange \<Rightarrow> bufEnv \<Rightarrow> bool" where
  "rely p env \<longleftrightarrow> (\<forall>b. (unacked p b \<longrightarrow> unacked p (env b)) \<and> cfg (env b) = cfg b
     \<and> (fatalErr b \<noteq> None \<longrightarrow> fatalErr (env b) \<noteq> None) \<and> (aborted b \<longrightarrow> aborted (env b)) \<and> dropFloor b \<le> dropFloor (env b))"

definition turn_ok :: "prange \<Rightarrow> turn \<Rightarrow> bool" where
  "turn_ok p t \<longleftrightarrow> rely p (tBefore t) \<and> rely p (tDuring t) \<and> rely p (tVerdict t) \<and> (\<forall>(env, _) \<in> set (tWait t). rely p env)"

lemma relyD:
  assumes "rely p env"
  shows "unacked p b \<Longrightarrow> unacked p (env b)" "cfg (env b) = cfg b" "fatalErr b \<noteq> None \<Longrightarrow> fatalErr (env b) \<noteq> None"
    "aborted b \<Longrightarrow> aborted (env b)" "dropFloor b \<le> dropFloor (env b)"
  using assms by (auto simp: rely_def)

lemma unacked_cong: "ackT b = ackT b' \<Longrightarrow> unacked p b = unacked p b'"
  by (simp add: unacked_def)

lemma unacked_frame [simp]:
  "unacked p (emit ev b) = unacked p b" "unacked p (bufFail e b) = unacked p b" "unacked p (b\<lparr>cRetries := x\<rparr>) = unacked p b"
  "unacked p (b\<lparr>cDropped := x\<rparr>) = unacked p b" "unacked p (b\<lparr>cDeadLettered := x\<rparr>) = unacked p b"
  by (simp_all add: unacked_def bufFail_def)

lemma completeRange_resolves:
  assumes "unacked p b" and "range_ok p"
  shows "resolved p (completeRange p b)"
proof -
  obtain h where h: "tracks (ackT b) h" "span p \<inter> h = {}" using assms(1) by (auto simp: unacked_def)
  obtain r t where a: "ack (rangeFrom p) (rangeTo p) (pcount p + pskipCount p) (pbytes p + pskipBytes p) (ackT b) = (r, t)"
    by (meson surj_pair)
  have "tracks t (h \<union> span p)"
    using ack_tracks [OF h(1) a] assms(2) h(2) by (auto simp: range_ok_def span_def)
  then show ?thesis using a by (auto simp: resolved_def completeRange_def)
qed

lemma awaitRetry_rely:
  assumes "awaitRetry ws p dl b = Some (again, b')" and "\<forall>(env, _) \<in> set ws. rely p env" and "unacked p b"
  shows "unacked p b' \<and> (\<not> again \<longrightarrow> aborted b') \<and> cfg b' = cfg b"
  using assms
  by (induction ws p dl b rule: awaitRetry.induct)
    (auto simp: Let_def rely_def split: if_splits retrySelect.splits)

lemma classify_frame [simp]:
  "cfg (snd (classify f b)) = cfg b" "ackT (snd (classify f b)) = ackT b" "aborted (snd (classify f b)) = aborted b"
  "failingBatches (snd (classify f b)) = failingBatches b" "dropFloor (snd (classify f b)) = dropFloor b"
  by (simp_all add: classify_def bufFail_def split: option.splits outcome.splits)

lemma answered_frame [simp]:
  "cfg (snd (answered batch p k dead err b)) = cfg b" "ackT (snd (answered batch p k dead err b)) = ackT b"
  "aborted (snd (answered batch p k dead err b)) = aborted b" "dropFloor (snd (answered batch p k dead err b)) = dropFloor b"
  "failingBatches (snd (answered batch p k dead err b)) = failingBatches b"
  by (simp_all add: answered_def observeFlush_def case_prod_beta)

definition ends_well :: "prange \<Rightarrow> (fate \<times> buf) \<Rightarrow> bool" where
  "ends_well p r \<longleftrightarrow> (if fst r = Kept then unacked p (snd r) \<and> (fatalErr (snd r) \<noteq> None \<or> aborted (snd r)) else resolved p (snd r))"

lemma abandon_ends: "unacked p b \<Longrightarrow> range_ok p \<Longrightarrow> resolved p (abandon reason p b)"
  unfolding abandon_def by (rule completeRange_resolves) (simp_all add: dropped_def unacked_def)

lemma leaveFailing_frame [simp]:
  "ackT (leaveFailing f b) = ackT b" "fatalErr (leaveFailing f b) = fatalErr b" "aborted (leaveFailing f b) = aborted b"
  "cfg (leaveFailing f b) = cfg b"
  by (simp_all add: leaveFailing_def)

lemma countFailure_frame [simp]:
  "ackT (countFailure f b) = ackT b" "fatalErr (countFailure f b) = fatalErr b" "aborted (countFailure f b) = aborted b"
  "cfg (countFailure f b) = cfg b"
  by (simp_all add: countFailure_def Let_def)

lemma unacked_counts [simp]: "unacked p (countFailure f b) = unacked p b" "unacked p (leaveFailing f b) = unacked p b"
  "resolved p (leaveFailing f b) = resolved p b"
  by (simp_all add: unacked_def resolved_def)

lemma ending_ends: "ending f x = Some r \<Longrightarrow> (\<And>r'. x = Some r' \<Longrightarrow> ends_well p r') \<Longrightarrow> ends_well p r"
  by (auto simp: ending_def ends_well_def)

lemma tryOnce_rely:
  assumes "turn_ok p t" and "unacked p b"
  shows "case tryOnce dead t s batch p k b of
      Shed b1 \<Rightarrow> unacked p b1 \<and> pid p < dropFloor b1
    | Panicked b1 \<Rightarrow> unacked p b1 \<and> fatalErr b1 \<noteq> None
    | Took b1 \<Rightarrow> unacked p b1
    | Refused d e b1 \<Rightarrow> unacked p b1"
proof -
  define b1 where "b1 = tDuring t (tBefore t b)"
  have "unacked p (tBefore t b)" "unacked p b1"
    using assms by (auto simp: b1_def turn_ok_def dest: relyD)
  moreover have "unacked p (snd (answered batch1 p k dead err b1)) = unacked p b1" for batch1 and err
    by (simp add: unacked_def)
  then have "answered batch1 p k dead err b1 = (d, b2) \<Longrightarrow> unacked p b2 = unacked p b1" for batch1 :: "'a batch" and err d b2
    by (metis snd_conv)
  ultimately show ?thesis
    by (auto simp: tryOnce_def Let_def b1_def [symmetric] sinkPanicked_def observeFlush_def
        split: outcome.splits option.splits prod.splits)
qed

lemma afterRefusal_rely:
  assumes "turn_ok p t" and "unacked p b"
  shows "case afterRefusal dead t p k d e b of
      Stops b1 \<Rightarrow> unacked p b1 \<and> (fatalErr b1 \<noteq> None \<or> aborted b1)
    | GivesUp b1 \<Rightarrow> unacked p b1 | Blocked \<Rightarrow> True | Again b1 \<Rightarrow> unacked p b1"
  using assms awaitRetry_rely [of "tWait t" p _ b]
  by (auto simp: afterRefusal_def aborting_def turn_ok_def split: option.splits bool.splits)

lemma deadLetterLoop_ends:
  assumes "deadLetterLoop ts dlq batch p k b = Some r" and "\<forall>t \<in> set ts. turn_ok p t" and "unacked p b" and "range_ok p"
  shows "ends_well p r"
  using assms
proof (induction ts dlq batch p k b rule: deadLetterLoop.induct)
  case (2 t ts dlq batch p k b)
  have t: "turn_ok p t" and ts: "\<forall>t \<in> set ts. turn_ok p t" using "2.prems"(2) by simp_all
  note try1 = tryOnce_rely [OF t "2.prems"(3), of True dlq batch k]
  show ?case
  proof (cases "tryOnce True t dlq batch p k b")
    case (Refused d e b1)
    define b2 where "b2 = tVerdict t (b1\<lparr>cRetries := cRetries b1 + 1\<rparr>)"
    have "unacked p b2" using try1 Refused t unfolding b2_def by (auto simp: turn_ok_def intro: relyD(1))
    from afterRefusal_rely [OF t this, of True k d e] show ?thesis
      using "2.prems" "2.IH" [OF Refused _ _ ts] Refused abandon_ends
      by (auto simp: b2_def [symmetric] ends_well_def split: verdict.splits)
  qed (use "2.prems" try1 completeRange_resolves abandon_ends in \<open>auto simp: ends_well_def deadLettered_def\<close>)
qed simp

lemma deadLetter_ends:
  assumes "deadLetter ts dlq batch p b = Some r" and "\<forall>t \<in> set ts. turn_ok p t" and "unacked p b" and "range_ok p"
  shows "ends_well p r"
  using assms deadLetterLoop_ends [of ts _ batch p 1 b r] abandon_ends
  by (auto simp: deadLetter_def ends_well_def split: option.splits)

lemma flushedBatch_resolves: "unacked p b \<Longrightarrow> range_ok p \<Longrightarrow> resolved p (flushedBatch p failing b)"
  unfolding flushedBatch_def Let_def by (rule completeRange_resolves) (simp_all add: unacked_def)

lemma deliver_ends:
  assumes "deliver ts sink dlq batch p k failing b = Some r" and "\<forall>t \<in> set ts. turn_ok p t" and "unacked p b" and "range_ok p"
  shows "ends_well p r"
  using assms
proof (induction ts sink dlq batch p k failing b rule: deliver.induct)
  case (2 t ts sink dlq batch p k failing b)
  have t: "turn_ok p t" and ts: "\<forall>t \<in> set ts. turn_ok p t" using "2.prems"(2) by simp_all
  note try1 = tryOnce_rely [OF t "2.prems"(3), of False sink batch k]
  show ?case
  proof (cases "tryOnce False t sink batch p k b")
    case (Refused d e b1)
    define b2 where "b2 = tVerdict t (countFailure failing b1)"
    have "unacked p b2" using try1 Refused t unfolding b2_def by (auto simp: turn_ok_def intro: relyD(1))
    note v = afterRefusal_rely [OF t this, of False k d e]
    show ?thesis
    proof (cases "afterRefusal False t p k d e b2")
      case (GivesUp b3)
      then have "ending True (deadLetter ts dlq batch p b3) = Some r"
        using "2.prems"(1) Refused by (simp add: b2_def [symmetric])
      then show ?thesis
        by (rule ending_ends) (use GivesUp v deadLetter_ends [OF _ ts _ "2.prems"(4)] in auto)
    qed (use v "2.prems" "2.IH" [OF Refused _ _ ts] Refused in
        \<open>auto simp: b2_def [symmetric] ending_def ends_well_def\<close>)
  qed (use "2.prems" try1 flushedBatch_resolves abandon_ends in \<open>auto simp: ends_well_def ending_def\<close>)
qed simp


subsection \<open>What an ending says about the sinks\<close>

definition accepted :: "'a sink \<Rightarrow> 'a batch \<Rightarrow> bool" where
  "accepted s batch \<longleftrightarrow> (\<exists>c i. s c (batch\<lparr>bAttempt := i\<rparr>) = Returns None)"

text \<open>A permanent refusal: by the handler's verdict, or without a handler by the error itself.\<close>

definition permanent :: "config \<Rightarrow> sinkFailure \<Rightarrow> bool" where
  "permanent c f \<longleftrightarrow> (case onSinkError c of
      Some h \<Rightarrow> (\<exists>d. h f = Returns d \<and> rdAction d = DeadLetterBatch)
    | None \<Rightarrow> (\<exists>e. sfErr f = Some e \<and> errors_is e BErrPermanent))"

definition refusedForGood :: "bool \<Rightarrow> config \<Rightarrow> 'a sink \<Rightarrow> 'a batch \<Rightarrow> prange \<Rightarrow> bool" where
  "refusedForGood dead c s batch p \<longleftrightarrow> (\<exists>cc i e. s cc (batch\<lparr>bAttempt := i\<rparr>) = Returns (Some e)
     \<and> (0 < attemptLimit dead c \<and> attemptLimit dead c \<le> int i \<or> permanent c (failureOf batch p i dead (Some e))))"

lemma classify_permanent:
  "rdAction (fst (classify f b)) = DeadLetterBatch \<Longrightarrow> permanent (cfg b) f"
  by (auto simp: classify_def permanent_def zeroDecision_def split: option.splits outcome.splits if_splits)

lemma answered_permanent:
  "rdAction (fst (answered batch p k dead err b)) = DeadLetterBatch \<Longrightarrow> permanent (cfg b) (failureOf batch p k dead err)"
  using classify_permanent [of "failureOf batch p k dead err" b]
  by (auto simp: answered_def case_prod_beta zeroDecision_def split: if_splits)

lemma rely_turn_cfg: "turn_ok p t \<Longrightarrow> cfg (tBefore t b) = cfg b \<and> cfg (tDuring t b) = cfg b \<and> cfg (tVerdict t b) = cfg b"
  by (auto simp: turn_ok_def dest: relyD(2))

lemma tryOnce_truth:
  assumes "turn_ok p t"
  shows "case tryOnce dead t s batch p k b of
      Shed b1 \<Rightarrow> pid p < dropFloor b1 \<and> cfg b1 = cfg b
    | Panicked b1 \<Rightarrow> True
    | Took b1 \<Rightarrow> accepted s batch \<and> cfg b1 = cfg b
    | Refused d e b1 \<Rightarrow> cfg b1 = cfg b \<and> (\<exists>c. s c (batch\<lparr>bAttempt := k\<rparr>) = Returns (Some e))
        \<and> (rdAction d = DeadLetterBatch \<longrightarrow> permanent (cfg b) (failureOf batch p k dead (Some e)))"
proof -
  define b1 where "b1 = tDuring t (tBefore t b)"
  have c: "cfg b1 = cfg b" "cfg (tBefore t b) = cfg b" using rely_turn_cfg [OF assms] by (simp_all add: b1_def)
  have a: "cfg b2 = cfg b" "rdAction d = DeadLetterBatch \<Longrightarrow> permanent (cfg b) (failureOf batch p k dead err)"
    if "answered (batch\<lparr>bAttempt := k\<rparr>) p k dead err b1 = (d, b2)" for err d b2
    using answered_frame(1) [of "batch\<lparr>bAttempt := k\<rparr>" p k dead err b1]
      answered_permanent [of "batch\<lparr>bAttempt := k\<rparr>" p k dead err b1] that c
    by (simp_all add: failureOf_def)
  show ?thesis
    using a c by (auto simp: tryOnce_def Let_def b1_def [symmetric] accepted_def split: outcome.splits option.splits prod.splits)
qed

lemma awaitRetry_cfg: "awaitRetry ws p dl b = Some (again, b') \<Longrightarrow> \<forall>(env, _) \<in> set ws. rely p env \<Longrightarrow> cfg b' = cfg b"
  by (induction ws p dl b rule: awaitRetry.induct) (auto simp: Let_def rely_def split: if_splits retrySelect.splits)

lemma afterRefusal_truth:
  assumes "turn_ok p t"
  shows "case afterRefusal dead t p k d e b of
      Stops b1 \<Rightarrow> True
    | GivesUp b1 \<Rightarrow> cfg b1 = cfg b \<and> (rdAction d = DeadLetterBatch \<or> 0 < attemptLimit dead (cfg b) \<and> attemptLimit dead (cfg b) \<le> int k)
    | Blocked \<Rightarrow> True | Again b1 \<Rightarrow> cfg b1 = cfg b"
  using assms awaitRetry_cfg [of "tWait t" p _ b]
  by (auto simp: afterRefusal_def turn_ok_def split: option.splits bool.splits)

definition honest :: "config \<Rightarrow> 'a sink \<Rightarrow> 'a batch \<Rightarrow> prange \<Rightarrow> fate \<times> buf \<Rightarrow> bool" where
  "honest c dlq batch p r \<longleftrightarrow> (case fst r of
      Delivered \<Rightarrow> False
    | DeadLettered \<Rightarrow> accepted dlq batch
    | Dropped ReasonPolicy \<Rightarrow> pid p < dropFloor (snd r)
    | Dropped ReasonDecode \<Rightarrow> False
    | Dropped ReasonRetriesExhausted \<Rightarrow> refusedForGood True c dlq batch p
    | Kept \<Rightarrow> True)"

lemma abandon_floor [simp]: "dropFloor (abandon reason p b) = dropFloor b"
  by (simp add: abandon_def completeRange_def dropped_def)

lemma deadLetterLoop_honest:
  assumes "deadLetterLoop ts dlq batch p k b = Some r" and "\<forall>t \<in> set ts. turn_ok p t"
  shows "honest (cfg b) dlq batch p r"
  using assms
proof (induction ts dlq batch p k b rule: deadLetterLoop.induct)
  case (2 t ts dlq batch p k b)
  have t: "turn_ok p t" and ts: "\<forall>t \<in> set ts. turn_ok p t" using "2.prems"(2) by simp_all
  note try1 = tryOnce_truth [OF t, where dead = True and s = dlq and batch = batch and k = k and b = b]
  show ?case
  proof (cases "tryOnce True t dlq batch p k b")
    case (Refused d e b1)
    define b2 where "b2 = tVerdict t (b1\<lparr>cRetries := cRetries b1 + 1\<rparr>)"
    have c: "cfg b2 = cfg b" using try1 Refused rely_turn_cfg [OF t] by (simp add: b2_def)
    note v = afterRefusal_truth [OF t, where dead = True and k = k and d = d and e = e and b = b2]
    show ?thesis
    proof (cases "afterRefusal True t p k d e b2")
      case (GivesUp b3)
      then have "refusedForGood True (cfg b) dlq batch p" using v try1 Refused c by (auto simp: refusedForGood_def)
      then show ?thesis using "2.prems"(1) Refused GivesUp by (auto simp: b2_def [symmetric] honest_def)
    next
      case (Again b3)
      then have "honest (cfg b3) dlq batch p r"
        using "2.prems"(1) "2.IH" [OF Refused _ _ ts] Refused by (simp add: b2_def [symmetric])
      then show ?thesis using v Again c by simp
    qed (use "2.prems"(1) Refused in \<open>auto simp: b2_def [symmetric] honest_def\<close>)
  qed (use "2.prems" try1 in \<open>auto simp: honest_def\<close>)
qed simp


text \<open>The endings of a whole delivery, in terms of what the two sinks answered.\<close>

definition honestly :: "config \<Rightarrow> 'a sink \<Rightarrow> 'a sink option \<Rightarrow> 'a batch \<Rightarrow> prange \<Rightarrow> fate \<times> buf \<Rightarrow> bool" where
  "honestly c s dlq batch p r \<longleftrightarrow> (case fst r of
      Delivered \<Rightarrow> accepted s batch
    | DeadLettered \<Rightarrow> refusedForGood False c s batch p \<and> (\<exists>q. dlq = Some q \<and> accepted q batch)
    | Dropped ReasonPolicy \<Rightarrow> pid p < dropFloor (snd r)
    | Dropped ReasonDecode \<Rightarrow> False
    | Dropped ReasonRetriesExhausted \<Rightarrow> refusedForGood False c s batch p
        \<and> (case dlq of None \<Rightarrow> True | Some q \<Rightarrow> refusedForGood True c q batch p)
    | Kept \<Rightarrow> True)"

lemma leaveFailing_floor [simp]: "dropFloor (leaveFailing f b) = dropFloor b"
  by (simp add: leaveFailing_def)

lemma honestly_leave: "honestly c s dlq batch p (f, leaveFailing failing b) = honestly c s dlq batch p (f, b)"
  by (simp add: honestly_def split: fate.splits dropReason.splits)

lemma deadLetter_honest:
  assumes "deadLetter ts dlq batch p b = Some r" and "\<forall>t \<in> set ts. turn_ok p t" and "refusedForGood False (cfg b) s batch p"
  shows "honestly (cfg b) s dlq batch p r"
proof (cases dlq)
  case None
  then show ?thesis using assms by (auto simp: deadLetter_def honestly_def)
next
  case (Some q)
  then have "honest (cfg b) q batch p r"
    using assms(1) deadLetterLoop_honest [OF _ assms(2), of q batch 1 b r] by (simp add: deadLetter_def)
  then show ?thesis using Some assms(3) by (auto simp: honest_def honestly_def split: fate.splits dropReason.splits)
qed

lemma deliver_honest:
  assumes "deliver ts s dlq batch p k failing b = Some r" and "\<forall>t \<in> set ts. turn_ok p t"
  shows "honestly (cfg b) s dlq batch p r"
  using assms
proof (induction ts s dlq batch p k failing b rule: deliver.induct)
  case (2 t ts s dlq batch p k failing b)
  have t: "turn_ok p t" and ts: "\<forall>t \<in> set ts. turn_ok p t" using "2.prems"(2) by simp_all
  note try1 = tryOnce_truth [OF t, where dead = False and s = s and batch = batch and k = k and b = b]
  show ?case
  proof (cases "tryOnce False t s batch p k b")
    case (Refused d e b1)
    define b2 where "b2 = tVerdict t (countFailure failing b1)"
    have c: "cfg b2 = cfg b" using try1 Refused rely_turn_cfg [OF t] by (simp add: b2_def)
    note v = afterRefusal_truth [OF t, where dead = False and k = k and d = d and e = e and b = b2]
    show ?thesis
    proof (cases "afterRefusal False t p k d e b2")
      case (GivesUp b3)
      have c3: "cfg b3 = cfg b" using v GivesUp c by simp
      have "refusedForGood False (cfg b3) s batch p" using v try1 Refused c c3 GivesUp by (auto simp: refusedForGood_def)
      moreover obtain f x where "deadLetter ts dlq batch p b3 = Some (f, x)" "r = (f, leaveFailing True x)"
        using "2.prems"(1) Refused GivesUp by (auto simp: b2_def [symmetric] ending_def)
      ultimately show ?thesis using deadLetter_honest [OF _ ts, of dlq batch b3 "(f, x)" s] c3 by (simp add: honestly_leave)
    next
      case (Again b3)
      then have "honestly (cfg b3) s dlq batch p r"
        using "2.prems"(1) "2.IH" [OF Refused _ _ ts] Refused by (simp add: b2_def [symmetric])
      then show ?thesis using v Again c by simp
    qed (use "2.prems"(1) Refused in \<open>auto simp: b2_def [symmetric] honestly_def ending_def\<close>)
  qed (use "2.prems" try1 in \<open>auto simp: honestly_def ending_def\<close>)
qed simp

subsection \<open>Counting failing batches\<close>

definition calm_turn :: "turn \<Rightarrow> bool" where
  "calm_turn t \<longleftrightarrow> (\<forall>env \<in> {tBefore t, tDuring t, tVerdict t} \<union> fst ` set (tWait t). \<forall>b. failingBatches (env b) = failingBatches b)"

lemma awaitRetry_failing: "awaitRetry ws p dl b = Some (again, b') \<Longrightarrow> \<forall>env \<in> fst ` set ws. \<forall>b. failingBatches (env b) = failingBatches b
    \<Longrightarrow> failingBatches b' = failingBatches b"
  by (induction ws p dl b rule: awaitRetry.induct) (auto simp: Let_def split: if_splits retrySelect.splits)

lemma tryOnce_failing:
  assumes "calm_turn t"
  shows "case tryOnce dead t s batch p k b of
      Shed b1 \<Rightarrow> failingBatches b1 = failingBatches b | Panicked b1 \<Rightarrow> failingBatches b1 = failingBatches b
    | Took b1 \<Rightarrow> failingBatches b1 = failingBatches b | Refused d e b1 \<Rightarrow> failingBatches b1 = failingBatches b"
proof -
  have "failingBatches b2 = failingBatches b1" if "answered batch1 p k dead err b1 = (d, b2)" for batch1 :: "'a batch" and err d b1 b2
    using answered_frame(5) [of batch1 p k dead err b1] that by simp
  then show ?thesis
    using assms by (auto simp: tryOnce_def Let_def calm_turn_def sinkPanicked_def bufFail_def observeFlush_def
        split: outcome.splits option.splits prod.splits)
qed

lemma afterRefusal_failing:
  assumes "calm_turn t"
  shows "case afterRefusal dead t p k d e b of Stops b1 \<Rightarrow> failingBatches b1 = failingBatches b
    | GivesUp b1 \<Rightarrow> failingBatches b1 = failingBatches b | Blocked \<Rightarrow> True | Again b1 \<Rightarrow> failingBatches b1 = failingBatches b"
  using assms awaitRetry_failing [of "tWait t" p _ b]
  by (auto simp: afterRefusal_def calm_turn_def bufFail_def split: option.splits bool.splits)

lemma resolve_failing [simp]:
  "failingBatches (completeRange p b) = failingBatches b" "failingBatches (abandon reason p b) = failingBatches b"
  by (simp_all add: abandon_def completeRange_def dropped_def)

lemma deadLetterLoop_failing:
  assumes "deadLetterLoop ts dlq batch p k b = Some r" and "\<forall>t \<in> set ts. calm_turn t"
  shows "failingBatches (snd r) = failingBatches b"
  using assms
proof (induction ts dlq batch p k b rule: deadLetterLoop.induct)
  case (2 t ts dlq batch p k b)
  have t: "calm_turn t" using "2.prems" by simp
  then have v: "failingBatches (tVerdict t x) = failingBatches x" for x by (simp add: calm_turn_def)
  show ?case
    using "2.prems" "2.IH" tryOnce_failing [OF t, where dead = True and s = dlq and batch = batch and p = p and k = k and b = b]
      afterRefusal_failing [OF t, where dead = True and p = p and k = k]
    by (fastforce simp: v deadLettered_def split: tried.splits verdict.splits)
qed simp

lemma deliver_failing:
  assumes "deliver ts s dlq batch p k failing b = Some r" and "\<forall>t \<in> set ts. calm_turn t"
  shows "failingBatches (snd r) = failingBatches b - (if failing then 1 else 0)"
  using assms
proof (induction ts s dlq batch p k failing b rule: deliver.induct)
  case (2 t ts s dlq batch p k failing b)
  have t: "calm_turn t" and ts: "\<forall>t \<in> set ts. calm_turn t" using "2.prems" by simp_all
  have v: "failingBatches (tVerdict t x) = failingBatches x" for x using t by (simp add: calm_turn_def)
  have dl: "failingBatches x = failingBatches c" if "deadLetter ts dlq batch p c = Some (f, x)" for c f x
    using that deadLetterLoop_failing [OF _ ts, of _ batch p 1 c "(f, x)"] by (auto simp: deadLetter_def split: option.splits)
  note try1 = tryOnce_failing [OF t, where dead = False and s = s and batch = batch and p = p and k = k and b = b]
  show ?case
  proof (cases "tryOnce False t s batch p k b")
    case (Refused d e b1)
    define b2 where "b2 = tVerdict t (countFailure failing b1)"
    have "failingBatches b2 = failingBatches b + (if failing then 0 else 1)"
      using try1 Refused by (simp add: b2_def v countFailure_def Let_def)
    then show ?thesis
      using "2.prems"(1) "2.IH" [OF Refused _ _ ts] Refused dl
        afterRefusal_failing [OF t, where dead = False and p = p and k = k and d = d and e = e and b = b2]
      by (auto simp: b2_def [symmetric] ending_def leaveFailing_def split: verdict.splits if_splits)
  qed (use "2.prems" try1 in \<open>auto simp: ending_def leaveFailing_def flushedBatch_def Let_def split: if_splits\<close>)
qed simp

subsection \<open>Deliveries end\<close>

text \<open>A turn whose wait is over once \<open>elapsed\<close> has passed.\<close>

definition patient :: "turn \<Rightarrow> duration \<Rightarrow> turn" where
  "patient t elapsed = t\<lparr>tWait := [(case tWait t of [] \<Rightarrow> id | (env, _) # _ \<Rightarrow> env, elapsed, RetryTimer)]\<rparr>"

lemma awaitRetry_patient: "awaitRetry (tWait (patient t dl)) p dl b \<noteq> None"
  by (auto simp: patient_def Let_def split: list.splits)

lemma rely_id: "rely p id"
  by (simp add: rely_def)

lemma patient_ok: "turn_ok p t \<Longrightarrow> turn_ok p (patient t dl)"
  using rely_id by (auto simp: turn_ok_def patient_def split: list.splits)

lemma tryOnce_patient [simp]: "tryOnce dead (patient t dl) s batch p k b = tryOnce dead t s batch p k b"
  by (simp add: tryOnce_def patient_def Let_def)

lemma tVerdict_patient [simp]: "tVerdict (patient t dl) = tVerdict t"
  by (simp add: patient_def)

lemma afterRefusal_patient: "\<exists>dl. afterRefusal dead (patient t dl) p k d e b \<noteq> Blocked"
proof -
  define dl where "dl = retryDelay (tRand t) d (ladderOf dead (cfg b)) k"
  have "tRand (patient t dl) = tRand t" by (simp add: patient_def)
  then have "afterRefusal dead (patient t dl) p k d e b \<noteq> Blocked"
    using awaitRetry_patient [of t dl p b] by (auto simp: afterRefusal_def dl_def [symmetric] split: option.splits bool.splits)
  then show ?thesis by blast
qed

lemma afterRefusal_last:
  assumes "afterRefusal dead t p k d e b = Again b1"
  shows "\<not> (0 < attemptLimit dead (cfg b) \<and> attemptLimit dead (cfg b) \<le> int k)"
  using assms by (auto simp: afterRefusal_def split: if_splits)

lemma deadLetterLoop_returns:
  assumes "\<forall>t \<in> set ts. turn_ok p t" and "0 < dlqAttempts (cfg b)" and "dlqAttempts (cfg b) < int k + int (length ts)" and "ts \<noteq> []"
  shows "\<exists>els. length els = length ts \<and> deadLetterLoop (map2 patient ts els) dlq batch p k b \<noteq> None"
  using assms
proof (induction ts arbitrary: k b)
  case (Cons t ts)
  have t: "turn_ok p t" using Cons.prems by simp
  note try1 = tryOnce_truth [OF t, where dead = True and s = dlq and batch = batch and k = k and b = b]
  show ?case
  proof (cases "tryOnce True t dlq batch p k b")
    case (Refused d e b1)
    define b2 where "b2 = tVerdict t (b1\<lparr>cRetries := cRetries b1 + 1\<rparr>)"
    obtain dl where dl: "afterRefusal True (patient t dl) p k d e b2 \<noteq> Blocked" using afterRefusal_patient by blast
    have c: "cfg b2 = cfg b" using try1 Refused rely_turn_cfg [OF t] by (simp add: b2_def)
    note v = afterRefusal_truth [OF patient_ok [OF t, of dl], where dead = True and k = k and d = d and e = e and b = b2]
    show ?thesis
    proof (cases "afterRefusal True (patient t dl) p k d e b2")
      case (Again b3)
      have "int k < dlqAttempts (cfg b)" "cfg b3 = cfg b"
        using afterRefusal_last [OF Again] Cons.prems c v Again by (auto simp: attemptLimit_def)
      then obtain els where "length els = length ts" "deadLetterLoop (map2 patient ts els) dlq batch p (Suc k) b3 \<noteq> None"
        using Cons.IH [of b3 "Suc k"] Cons.prems by (cases ts) auto
      then show ?thesis
        using Refused Again by (intro exI [of _ "dl # els"]) (simp add: b2_def [symmetric])
    qed (use dl Refused in \<open>auto intro!: exI [of _ "dl # replicate (length ts) 0"] simp: b2_def [symmetric]\<close>)
  qed (auto intro!: exI [of _ "0 # replicate (length ts) 0"])
qed simp

lemma deliver_returns:
  assumes "\<forall>t \<in> set ts. turn_ok p t" and "0 < dlqAttempts (cfg b)" and "int k \<le> maxAttempts (cfg b)" and "1 \<le> k"
    and "maxAttempts (cfg b) + dlqAttempts (cfg b) < int k + int (length ts)"
  shows "\<exists>els. length els = length ts \<and> deliver (map2 patient ts els) s dlq batch p k failing b \<noteq> None"
  using assms
proof (induction ts arbitrary: k failing b)
  case (Cons t ts)
  have t: "turn_ok p t" using Cons.prems by simp
  note try1 = tryOnce_truth [OF t, where dead = False and s = s and batch = batch and k = k and b = b]
  show ?case
  proof (cases "tryOnce False t s batch p k b")
    case (Refused d e b1)
    define b2 where "b2 = tVerdict t (countFailure failing b1)"
    obtain dl where dl: "afterRefusal False (patient t dl) p k d e b2 \<noteq> Blocked" using afterRefusal_patient by blast
    have c: "cfg b2 = cfg b" using try1 Refused rely_turn_cfg [OF t] by (simp add: b2_def)
    note v = afterRefusal_truth [OF patient_ok [OF t, of dl], where dead = False and k = k and d = d and e = e and b = b2]
    show ?thesis
    proof (cases "afterRefusal False (patient t dl) p k d e b2")
      case (Again b3)
      have "int k < maxAttempts (cfg b)" "cfg b3 = cfg b"
        using afterRefusal_last [OF Again] Cons.prems c v Again by (auto simp: attemptLimit_def)
      then obtain els where "length els = length ts" "deliver (map2 patient ts els) s dlq batch p (Suc k) True b3 \<noteq> None"
        using Cons.IH [of b3 "Suc k" True] Cons.prems by auto
      then show ?thesis
        using Refused Again by (intro exI [of _ "dl # els"]) (simp add: b2_def [symmetric])
    next
      case (GivesUp b3)
      have "cfg b3 = cfg b" using v GivesUp c by simp
      moreover have "ts \<noteq> []" using Cons.prems by auto
      ultimately have "\<exists>els. length els = length ts \<and> deadLetterLoop (map2 patient ts els) q batch p 1 b3 \<noteq> None" for q
        using deadLetterLoop_returns [of ts p b3 1 q batch] Cons.prems by simp
      moreover have "length (replicate (length ts) (0 :: duration)) = length ts" by simp
      ultimately obtain els where "length els = length ts" "deadLetter (map2 patient ts els) dlq batch p b3 \<noteq> None"
        unfolding deadLetter_def by (cases dlq) (simp_all only: option.case option.distinct simp_thms, blast+)
      then show ?thesis
        using Refused GivesUp by (intro exI [of _ "dl # els"]) (simp add: b2_def [symmetric] ending_def)
    qed (use dl Refused in \<open>auto intro!: exI [of _ "dl # replicate (length ts) 0"] simp: b2_def [symmetric] ending_def\<close>)
  qed (auto intro!: exI [of _ "0 # replicate (length ts) 0"] simp: ending_def)
qed simp

subsection \<open>Properties\<close>

definition sample_range :: prange where
  "sample_range = \<lparr>pid = 1, rangeFrom = 1, rangeTo = 2, pcount = 2, pbytes = 9, pskipCount = 0, pskipBytes = 0\<rparr>"

definition sample_batch :: "nat batch" where
  "sample_batch = \<lparr>bID = 1, bLogID = ''L'', bRecords = [7, 8], bAttempt = 0\<rparr>"

text \<open>A sink that asks for a pause once, and one that never takes the batch.\<close>

definition throttled :: "nat sink" where
  "throttled = (\<lambda>c bt. if bAttempt bt = 1 then Returns (Some (RetryAfterError 5 (ForeignError 0))) else Returns None)"

definition hostile :: "nat sink" where
  "hostile = (\<lambda>c bt. Returns (Some BErrPermanent))"

definition plain_turn :: turn where
  "plain_turn = \<lparr>tBefore = id, tDuring = id, tVerdict = id, tWait = [(id, 5, RetryTimer)], tRand = 0\<rparr>"

definition sample_buf :: buf where
  "sample_buf = newBuffer (defaults\<lparr>maxAttempts := 2, dlqAttempts := 1\<rparr>) False 0"

lemma plain_turn_ok: "turn_ok p plain_turn" "calm_turn plain_turn"
  by (simp_all add: turn_ok_def calm_turn_def plain_turn_def rely_id)

lemma sample_unacked: "unacked sample_range sample_buf" "range_ok sample_range"
  using tracks_new [of 0] by (auto simp: unacked_def sample_buf_def newBuffer_def sample_range_def span_def range_ok_def)

lemmas sample_defs = sample_range_def sample_batch_def throttled_def hostile_def plain_turn_def sample_buf_def newBuffer_def defaults_def

lemma sample_delivery: "\<exists>b. deliver [plain_turn, plain_turn] throttled None sample_batch sample_range 1 False sample_buf = Some (Delivered, b)"
  by (simp add: sample_defs tryOnce_def afterRefusal_def answered_def aborting_def classify_def zeroDecision_def
      emit_def observeFlush_def infoOf_def failureOf_def noObserver_def retryDelay_def attemptLimit_def countFailure_def Let_def)

text \<open>C16. A delivery that ends has settled its range. Whatever the sinks answer and however the other goroutines
  interfere, either every number of the range is acknowledged when the delivery is over, or none of them is, and
  then the buffer has failed or is shutting down, so that the next Open replays the batch.\<close>

theorem delivery_settles:
  assumes "deliver ts sink dlq batch p 1 False b = Some (f, b')" and "\<forall>t \<in> set ts. turn_ok p t" and "unacked p b" and "range_ok p"
  shows "if f = Kept then unacked p b' \<and> (fatalErr b' \<noteq> None \<or> aborted b') else resolved p b'"
  using deliver_ends [OF assms] by (simp only: ends_well_def fst_conv snd_conv)

theorem delivery_settles_witness:
  "\<exists>b. deliver [plain_turn, plain_turn] throttled None sample_batch sample_range 1 False sample_buf = Some (Delivered, b)
     \<and> resolved sample_range b"
  using sample_delivery delivery_settles [of "[plain_turn, plain_turn]" throttled None sample_batch sample_range sample_buf Delivered]
    sample_unacked plain_turn_ok by auto

text \<open>C17. The ending of a delivery says the truth about the sinks. A batch counts as delivered only if the sink
  accepted it; as dead-lettered only if the sink refused it for good and the dead-letter sink accepted it; as dropped for exhausted retries only if
  the sink refused it for good and the dead-letter sink is missing or refused it for good too; and as dropped by policy only if the floor has passed its first record.
  Refused for good means that the verdict was permanent or the configured number of attempts was used up.\<close>

theorem delivery_honest:
  assumes "deliver ts sink dlq batch p 1 False b = Some (f, b')" and "\<forall>t \<in> set ts. turn_ok p t"
  shows "case f of
      Delivered \<Rightarrow> accepted sink batch
    | DeadLettered \<Rightarrow> refusedForGood False (cfg b) sink batch p \<and> (\<exists>q. dlq = Some q \<and> accepted q batch)
    | Dropped ReasonPolicy \<Rightarrow> pid p < dropFloor b'
    | Dropped ReasonDecode \<Rightarrow> False
    | Dropped ReasonRetriesExhausted \<Rightarrow> refusedForGood False (cfg b) sink batch p
        \<and> (case dlq of None \<Rightarrow> True | Some q \<Rightarrow> refusedForGood True (cfg b) q batch p)
    | Kept \<Rightarrow> True"
  using deliver_honest [OF assms] by (simp only: honestly_def fst_conv snd_conv)

lemma sample_limits: "maxAttempts (cfg sample_buf) = 2" "dlqAttempts (cfg sample_buf) = 1"
  by (simp_all add: sample_buf_def newBuffer_def)

lemma hostile_delivery: "\<exists>b. deliver [plain_turn] hostile None sample_batch sample_range 1 False sample_buf
    = Some (Dropped ReasonRetriesExhausted, b)"
  by (simp add: sample_defs tryOnce_def afterRefusal_def answered_def aborting_def classify_def zeroDecision_def deadLetter_def
      emit_def observeFlush_def infoOf_def failureOf_def noObserver_def countFailure_def ending_def Let_def)

theorem delivery_honest_witness:
  "\<exists>b. deliver [plain_turn] hostile None sample_batch sample_range 1 False sample_buf = Some (Dropped ReasonRetriesExhausted, b)
     \<and> refusedForGood False (cfg sample_buf) hostile sample_batch sample_range"
  using hostile_delivery plain_turn_ok
    delivery_honest [of "[plain_turn]" hostile None sample_batch sample_range sample_buf "Dropped ReasonRetriesExhausted"]
  by auto

text \<open>The count of failing batches is balanced. Whatever way a delivery takes out, success, a verdict, a
  panic, exhausted retries, the raised floor or a shutdown, it leaves the count as it found it, as far as the other goroutines did; so a
  count of zero means that no delivery under way has failed.\<close>

theorem failing_batches_balanced:
  assumes "deliver ts sink dlq batch p 1 False b = Some (f, b')" and "\<forall>t \<in> set ts. calm_turn t"
  shows "failingBatches b' = failingBatches b"
  using deliver_failing [OF assms] by simp

theorem failing_batches_balanced_witness:
  "\<exists>b. deliver [plain_turn, plain_turn] throttled None sample_batch sample_range 1 False sample_buf = Some (Delivered, b)
     \<and> failingBatches b = failingBatches sample_buf"
  using sample_delivery plain_turn_ok
    failing_batches_balanced [of "[plain_turn, plain_turn]" throttled None sample_batch sample_range sample_buf Delivered]
  by auto

text \<open>C18. Deliveries end. With a positive limit on the attempts of both sinks, a delivery returns within as many turns
  as the two limits together: for every behaviour of the sinks and of the other goroutines there are
  waiting times after which it is over.\<close>

theorem delivery_terminates:
  assumes "\<forall>t \<in> set ts. turn_ok p t" and "0 < maxAttempts (cfg b)" and "0 < dlqAttempts (cfg b)"
    and "int (length ts) = maxAttempts (cfg b) + dlqAttempts (cfg b)"
  shows "\<exists>els. length els = length ts \<and> deliver (map2 patient ts els) sink dlq batch p 1 False b \<noteq> None"
  using deliver_returns [of ts p b 1 sink dlq batch False] assms by simp

theorem delivery_terminates_witness:
  "\<exists>els. length els = 3 \<and> deliver (map2 patient [plain_turn, plain_turn, plain_turn] els) hostile (Some hostile) sample_batch sample_range 1 False sample_buf \<noteq> None"
  using delivery_terminates [of "[plain_turn, plain_turn, plain_turn]" sample_range sample_buf hostile "Some hostile" sample_batch]
    plain_turn_ok sample_limits by (simp add: numeral_3_eq_3)

end
