(* ===== verification/Pipeline.thy ===== *)
theory Pipeline
  imports DeliveryProperties Flusher
begin

text \<open>
  The flusher, the deliveries and the checkpointer together: a step relation on the state they share.

  The state is the buffer, the flusher's local variables, the cursor of its reader, the records of
  the log, the flights the flusher has started, the numbers it has passed over, the checkpoint on disk and the number
  below which the log may have been deleted. The steps are those of the code, taken from its definitions where the flusher acts, and given by what is proved of the code elsewhere where deliveries and the
  checkpointer act: writers and callers change the buffer without
  acknowledging anything (\<open>p_other\<close>); records are appended behind the cursor of the reader
  (\<open>p_append\<close>); the flusher takes up a record held over, reads one, acts on its batch or wakes up
  (\<open>p_held\<close>, \<open>p_read\<close>, \<open>p_act\<close>, \<open>p_wake\<close>, with the definitions of \<open>Flusher\<close>); a delivery ends, and has then acknowledged its range
  or, if it kept the batch, nothing (\<open>p_end\<close>, a specification step: \<open>delivery_settles\<close> shows that \<open>deliver\<close> does no more and no less to the tracker, and \<open>delivery_honest\<close> which fate it has when; here the fate is any);
  the checkpointer writes the mark, and truncates the log up to it (\<open>p_checkpoint\<close>, \<open>p_truncate\<close>, specification steps for the two halves of \<open>persist\<close>,
  justified by \<open>nothing_deleted_before_its_checkpoint\<close>). They may happen in any order. The set \<open>pskipped\<close> is a ghost: the code counts the records that it passes over
  (\<open>dropped\<close> in \<open>takeRecord\<close>) but does not keep their numbers.

  The invariant \<open>core\<close> says: the acknowledged numbers and the ranges of the open flights partition the numbers in front of the current batch;
  every record among them was passed over or is in its place in a batch; the flusher holds consecutive records;
  and every record between its batch and its cursor was passed over, is held, or stopped it.
\<close>

subsection \<open>State and steps\<close>

text \<open>A flight and what became of it, if it has ended.\<close>

record 'a flown =
  xbatch :: "'a batch"
  xrange :: prange
  xfate :: "fate option"

record 'a pipe =
  pbuf :: buf
  pflush :: "'a flusher"
  pcursor :: nat
  plog :: "(nat \<times> bytes) list"
  pflown :: "'a flown list"
  pskipped :: "nat set"
  pcheckpoint :: nat
  ptruncated :: nat
  preturned :: bool

definition skips :: "(bytes \<Rightarrow> (error + 'a) outcome) \<Rightarrow> u64 \<Rightarrow> bytes \<Rightarrow> buf \<Rightarrow> bool" where
  "skips dec lsn payload b \<longleftrightarrow> lsn < dropFloor b
     \<or> (\<exists>e. decodePayload dec payload = Inl e \<and> fst (decodeFailure lsn payload e b) = DropRecord)"

text \<open>What is left of the flusher when it returns: the numbers it has neither acknowledged nor dispatched.\<close>

definition leftOver :: "'a flusher \<Rightarrow> 'a flight option \<Rightarrow> 'a flusher" where
  "leftOver f fl = (if fl \<noteq> None \<or> (fstop f \<noteq> None \<and> frecords f = [] \<and> ffrom f \<le> fto f) then resetBatch f else f)"

definition goesOn :: "'a flusher \<Rightarrow> 'a flusherNext \<Rightarrow> 'a flight option \<Rightarrow> 'a flusher" where
  "goesOn f next fl = (case next of Return \<Rightarrow> leftOver f fl | Continue f' \<Rightarrow> f' | Sleep f' \<Rightarrow> f')"

inductive pstep :: "(bytes \<Rightarrow> (error + 'a) outcome) \<Rightarrow> 'a pipe \<Rightarrow> 'a pipe \<Rightarrow> bool" for dec where
  p_other: "ackT b = ackT (pbuf s) \<Longrightarrow> pstep dec s (s\<lparr>pbuf := b\<rparr>)"
| p_append: "sorted_wrt (<) (map fst es) \<Longrightarrow> \<forall>e \<in> set es. pcursor s \<le> fst e \<and> fst e + 1 < 2 ^ 64 \<and> (\<forall>e' \<in> set (plog s). fst e' < fst e)
    \<Longrightarrow> pstep dec s (s\<lparr>plog := plog s @ es\<rparr>)"
| p_held: "\<not> preturned s \<Longrightarrow> fstop (pflush s) = None \<Longrightarrow> takeHeld (pflush s) (pbuf s) = (f, b) \<Longrightarrow> pstep dec s (s\<lparr>pflush := f, pbuf := b\<rparr>)"
| p_read: "\<not> preturned s \<Longrightarrow> held (pflush s) = None \<or> frecords (pflush s) \<noteq> [] \<Longrightarrow> \<not> cut (pflush s) \<Longrightarrow> fstop (pflush s) = None
    \<Longrightarrow> (n, payload) \<in> set (plog s) \<Longrightarrow> pcursor s \<le> n \<Longrightarrow> \<forall>e \<in> set (plog s). fst e < pcursor s \<or> n \<le> fst e
    \<Longrightarrow> takeRecord dec (of_nat n) payload (pflush s) (pbuf s) = (f, b)
    \<Longrightarrow> pstep dec s (s\<lparr>pflush := f, pbuf := b, pcursor := n + 1,
          pskipped := (if skips dec (of_nat n) payload (pbuf s) then insert n (pskipped s) else pskipped s)\<rparr>)"
| p_act: "\<not> preturned s \<Longrightarrow> held (pflush s) = None \<or> frecords (pflush s) \<noteq> []
    \<Longrightarrow> \<forall>b. ackT (fst script b) = ackT b \<Longrightarrow> flusherAct script lid (pflush s) (pbuf s) = Some (next, fl, b)
    \<Longrightarrow> pstep dec s (s\<lparr>pflush := goesOn (pflush s) next fl, pbuf := b, preturned := (next = Return),
          pflown := pflown s @ (case fl of None \<Rightarrow> [] | Some (bt, p) \<Rightarrow> [\<lparr>xbatch = bt, xrange = p, xfate = None\<rparr>])\<rparr>)"
| p_wake: "wakeUp sel (pflush s) (pbuf s) = Some (Some f, b) \<Longrightarrow> pstep dec s (s\<lparr>pflush := f, pbuf := b\<rparr>)"
| p_end: "pflown s = xs @ x # ys \<Longrightarrow> xfate x = None \<Longrightarrow> (if ft = Kept then ackT b = ackT (pbuf s) else ackT b = ackT (completeRange (xrange x) (pbuf s)))
    \<Longrightarrow> pstep dec s (s\<lparr>pbuf := b, pflown := xs @ x\<lparr>xfate := Some ft\<rparr> # ys\<rparr>)"
| p_checkpoint: "pstep dec s (s\<lparr>pcheckpoint := unat (mark (ackT (pbuf s)))\<rparr>)"
| p_truncate: "bnd \<le> pcheckpoint s + 1 \<Longrightarrow> pstep dec s (s\<lparr>ptruncated := max (ptruncated s) bnd\<rparr>)"

subsection \<open>Acknowledged numbers\<close>

definition isOpen :: "'a flown \<Rightarrow> bool" where
  "isOpen x \<longleftrightarrow> xfate x = None \<or> xfate x = Some Kept"

definition openSpans :: "'a flown list \<Rightarrow> nat set" where
  "openSpans xs = (\<Union>x \<in> set (filter isOpen xs). span (xrange x))"

definition acks_ok :: "buf \<Rightarrow> 'a flown list \<Rightarrow> u64 \<Rightarrow> bool" where
  "acks_ok b xs from \<longleftrightarrow> (\<exists>h. tracks (ackT b) h \<and> h \<inter> openSpans xs = {} \<and> h \<union> openSpans xs = {..<unat from})
     \<and> sorted_wrt (\<lambda>x y. rangeTo (xrange x) < rangeFrom (xrange y)) xs
     \<and> (\<forall>x \<in> set xs. range_ok (xrange x) \<and> rangeTo (xrange x) < from)"

lemma complete_tracks:
  assumes "tracks (ackT b) h" and "f \<le> l" and "unat l + 1 < 2 ^ 64" and "{unat f..unat l} \<inter> h = {}"
  shows "tracks (ackT (complete f l n sz b)) (h \<union> {unat f..unat l})"
proof -
  obtain r t where a: "ack f l n sz (ackT b) = (r, t)" by (meson surj_pair)
  from ack_tracks [OF assms(1) a assms(2-4)] show ?thesis using a by simp
qed

lemma acks_ok_cong: "ackT b = ackT b' \<Longrightarrow> acks_ok b xs from = acks_ok b' xs from"
  by (simp add: acks_ok_def)

text \<open>Numbers acknowledged in front of the next batch.\<close>

lemma acks_ok_direct:
  assumes "acks_ok b xs from" and "from \<le> to" and "unat to + 1 < 2 ^ 64"
  shows "acks_ok (complete from to n sz b) xs (to + 1)"
proof -
  obtain h where h: "tracks (ackT b) h" "h \<inter> openSpans xs = {}" "h \<union> openSpans xs = {..<unat from}"
    using assms(1) unfolding acks_ok_def by blast
  have hb: "h \<subseteq> {..<unat from}" "openSpans xs \<subseteq> {..<unat from}" using h(3) by blast+
  then have "{unat from..unat to} \<inter> h = {}" by force
  from complete_tracks [OF h(1) assms(2,3) this]
  have t: "tracks (ackT (complete from to n sz b)) (h \<union> {unat from..unat to})" .
  have to: "unat (to + 1) = unat to + 1" using assms(3) by (rule unat_plus_one)
  have "{..<unat from} \<union> {unat from..unat to} = {..<unat (to + 1)}" using assms(2) to by (auto simp: word_le_nat_alt)
  then have "(h \<union> {unat from..unat to}) \<union> openSpans xs = {..<unat (to + 1)}" using h(3) by blast
  moreover have "(h \<union> {unat from..unat to}) \<inter> openSpans xs = {}" using h(2) hb(2) by force
  moreover have "from < to + 1" using assms(2) to by (simp add: word_less_nat_alt word_le_nat_alt)
  then have "\<forall>x \<in> set xs. rangeTo (xrange x) < to + 1" using assms(1) unfolding acks_ok_def by (meson less_trans)
  ultimately show ?thesis using t assms(1) unfolding acks_ok_def by blast
qed

text \<open>A batch that is dispatched.\<close>

lemma acks_ok_dispatch:
  assumes "acks_ok b xs (rangeFrom p)" and "range_ok p"
  shows "acks_ok b (xs @ [\<lparr>xbatch = bt, xrange = p, xfate = None\<rparr>]) (rangeTo p + 1)"
proof -
  let ?x = "\<lparr>xbatch = bt, xrange = p, xfate = None\<rparr>"
  obtain h where h: "tracks (ackT b) h" "h \<inter> openSpans xs = {}" "h \<union> openSpans xs = {..<unat (rangeFrom p)}"
    using assms(1) unfolding acks_ok_def by blast
  have to: "unat (rangeTo p + 1) = unat (rangeTo p) + 1" using assms(2) unfolding range_ok_def by (intro unat_plus_one) simp
  have o: "openSpans (xs @ [?x]) = openSpans xs \<union> span p" by (simp add: openSpans_def isOpen_def Un_commute)
  have u: "{..<unat (rangeFrom p)} \<union> span p = {..<unat (rangeTo p + 1)}"
    using assms(2) to by (auto simp: span_def range_ok_def word_le_nat_alt)
  have "h \<subseteq> {..<unat (rangeFrom p)}" using h(3) by blast
  then have d: "h \<inter> span p = {}" by (force simp: span_def)
  have lt: "rangeTo p < rangeTo p + 1" "rangeFrom p \<le> rangeTo p" using to assms(2) by (simp_all add: word_less_nat_alt range_ok_def)
  have "\<forall>x \<in> set xs. rangeTo (xrange x) < rangeTo p + 1"
    using assms(1) lt unfolding acks_ok_def by (meson le_less_trans less_imp_le less_le_trans)
  then show ?thesis
    using h d u assms lt unfolding acks_ok_def o sorted_wrt_append by (intro conjI exI [of _ h]) (simp_all, blast+)
qed

lemma tracks_mono:
  assumes "tracks t h" and "tracks t' h'" and "h \<subseteq> h'"
  shows "mark t \<le> mark t'"
proof -
  have "{0..unat (mark t)} \<subseteq> h'" "Suc (unat (mark t')) \<notin> h'" using tracks_mark assms by blast+
  then have "\<not> Suc (unat (mark t')) \<le> unat (mark t)" by auto
  then show ?thesis by (simp add: word_le_nat_alt)
qed

lemma direct_mark:
  assumes "acks_ok b xs from" and "from \<le> to" and "unat to + 1 < 2 ^ 64"
  shows "mark (ackT b) \<le> mark (ackT (complete from to n sz b))"
proof -
  obtain h where h: "tracks (ackT b) h" "h \<union> openSpans xs = {..<unat from}" using assms(1) unfolding acks_ok_def by blast
  have "h \<subseteq> {..<unat from}" using h(2) by blast
  then have "{unat from..unat to} \<inter> h = {}" by force
  from tracks_mono [OF h(1) complete_tracks [OF h(1) assms(2,3) this]] show ?thesis by blast
qed

text \<open>A delivery that ends.\<close>

lemma spans_apart:
  assumes "sorted_wrt (\<lambda>x y. rangeTo (xrange x) < rangeFrom (xrange y)) (xs @ x # ys)" and "\<forall>y \<in> set (xs @ x # ys). range_ok (xrange y)"
  shows "span (xrange x) \<inter> openSpans (xs @ ys) = {}"
proof -
  have "span (xrange x) \<inter> span (xrange y) = {}" if "y \<in> set xs \<or> y \<in> set ys" for y
  proof -
    have "rangeTo (xrange y) < rangeFrom (xrange x) \<or> rangeTo (xrange x) < rangeFrom (xrange y)"
      using assms(1) that by (auto simp: sorted_wrt_append)
    then show ?thesis by (auto simp: span_def word_less_nat_alt)
  qed
  then show ?thesis by (auto simp: openSpans_def)
qed

lemma acks_ok_end:
  assumes ok: "acks_ok b (xs @ x # ys) from" and x: "xfate x = None"
    and b: "if ft = Kept then ackT b' = ackT b else ackT b' = ackT (completeRange (xrange x) b)"
  shows "acks_ok b' (xs @ x\<lparr>xfate := Some ft\<rparr> # ys) from \<and> mark (ackT b) \<le> mark (ackT b')"
proof -
  let ?x = "x\<lparr>xfate := Some ft\<rparr>"
  obtain h where h: "tracks (ackT b) h" "h \<inter> openSpans (xs @ x # ys) = {}" "h \<union> openSpans (xs @ x # ys) = {..<unat from}"
    and srt: "sorted_wrt (\<lambda>x y. rangeTo (xrange x) < rangeFrom (xrange y)) (xs @ x # ys)"
    and rng: "\<forall>y \<in> set (xs @ x # ys). range_ok (xrange y) \<and> rangeTo (xrange y) < from"
    using ok unfolding acks_ok_def by blast
  have srt': "sorted_wrt (\<lambda>x y. rangeTo (xrange x) < rangeFrom (xrange y)) (xs @ ?x # ys)" using srt by (simp add: sorted_wrt_append)
  have rng': "\<forall>y \<in> set (xs @ ?x # ys). range_ok (xrange y) \<and> rangeTo (xrange y) < from" using rng by simp
  have o: "openSpans (xs @ x # ys) = span (xrange x) \<union> openSpans (xs @ ys)" using x by (auto simp: openSpans_def isOpen_def)
  show ?thesis
  proof (cases "ft = Kept")
    case True
    then have "openSpans (xs @ ?x # ys) = openSpans (xs @ x # ys)" using x by (auto simp: openSpans_def isOpen_def)
    then show ?thesis using True b h srt' rng' unfolding acks_ok_def by auto
  next
    case False
    then have o': "openSpans (xs @ ?x # ys) = openSpans (xs @ ys)" by (auto simp: openSpans_def isOpen_def)
    have r: "range_ok (xrange x)" using rng by simp
    have "span (xrange x) \<inter> h = {}" using h(2) o by blast
    then have t: "tracks (ackT b') (h \<union> span (xrange x))"
      using b False complete_tracks [OF h(1), of "rangeFrom (xrange x)" "rangeTo (xrange x)"] r
      by (simp add: completeRange_def span_def range_ok_def)
    have "span (xrange x) \<inter> openSpans (xs @ ys) = {}" using spans_apart [OF srt] rng by blast
    then have "(h \<union> span (xrange x)) \<inter> openSpans (xs @ ys) = {}" "(h \<union> span (xrange x)) \<union> openSpans (xs @ ys) = {..<unat from}"
      using h o by blast+
    then show ?thesis using t srt' rng' tracks_mono [OF h(1) t] unfolding acks_ok_def o' by blast
  qed
qed

subsection \<open>What the flusher holds\<close>

text \<open>Records with consecutive numbers from \<open>start\<close>, each decoded from the log's payload of that number.\<close>

definition consecutive :: "(bytes \<Rightarrow> (error + 'a) outcome) \<Rightarrow> (nat \<times> bytes) list \<Rightarrow> u64 \<Rightarrow> 'a list \<Rightarrow> bool" where
  "consecutive dec lg start vs \<longleftrightarrow> (\<forall>i < length vs. \<exists>p. (unat start + i, p) \<in> set lg \<and> decodePayload dec p = Inr (vs ! i))"

definition batch_ok :: "(bytes \<Rightarrow> (error + 'a) outcome) \<Rightarrow> (nat \<times> bytes) list \<Rightarrow> 'a flusher \<Rightarrow> bool" where
  "batch_ok dec lg f \<longleftrightarrow> fid f = ffrom f \<and> consecutive dec lg (fid f) (frecords f)
     \<and> unat (fid f) + length (frecords f) \<le> unat (fto f) + 1 \<and> wantLSN f = fid f + of_nat (length (frecords f))"

definition held_ok :: "(bytes \<Rightarrow> (error + 'a) outcome) \<Rightarrow> (nat \<times> bytes) list \<Rightarrow> nat \<Rightarrow> 'a flusher \<Rightarrow> bool" where
  "held_ok dec lg pos f \<longleftrightarrow> (\<forall>v k sz. held f = Some (v, k, sz) \<longrightarrow> unat (fto f) < unat k \<and> unat k < pos
     \<and> (\<exists>p. (unat k, p) \<in> set lg \<and> decodePayload dec p = Inr v) \<and> (frecords f \<noteq> [] \<longrightarrow> cut f))"

text \<open>Every record of the log below the cursor is skipped, in the batch, held over, or the one that stopped the flusher.\<close>

definition kept_ok :: "(nat \<times> bytes) list \<Rightarrow> nat set \<Rightarrow> nat \<Rightarrow> 'a flusher \<Rightarrow> bool" where
  "kept_ok lg sk pos f \<longleftrightarrow>
     (\<forall>n \<in> fst ` set lg. unat (ffrom f) \<le> n \<longrightarrow> n \<le> unat (fto f) \<longrightarrow> n \<in> sk \<or> frecords f \<noteq> [] \<and> n < unat (fid f) + length (frecords f))
   \<and> (\<forall>n \<in> fst ` set lg. unat (fto f) < n \<longrightarrow> n < pos \<longrightarrow> fstop f \<noteq> None \<or> (\<exists>v k sz. held f = Some (v, k, sz) \<and> unat k = n))"

definition flush_ok :: "(bytes \<Rightarrow> (error + 'a) outcome) \<Rightarrow> (nat \<times> bytes) list \<Rightarrow> nat set \<Rightarrow> nat \<Rightarrow> 'a flusher \<Rightarrow> bool" where
  "flush_ok dec lg sk pos f \<longleftrightarrow> 0 < unat (ffrom f) \<and> unat (ffrom f) \<le> unat (fto f) + 1 \<and> unat (fto f) + 1 \<le> pos \<and> pos < 2 ^ 64
     \<and> (frecords f \<noteq> [] \<longrightarrow> batch_ok dec lg f) \<and> held_ok dec lg pos f \<and> kept_ok lg sk pos f"

text \<open>Every record below the current batch was skipped or dispatched, in its place in a batch.\<close>

definition sent_as :: "(bytes \<Rightarrow> (error + 'a) outcome) \<Rightarrow> 'a flown \<Rightarrow> nat \<Rightarrow> bytes \<Rightarrow> bool" where
  "sent_as dec x n p \<longleftrightarrow> unat (bID (xbatch x)) \<le> n \<and> n - unat (bID (xbatch x)) < length (bRecords (xbatch x))
     \<and> decodePayload dec p = Inr (bRecords (xbatch x) ! (n - unat (bID (xbatch x)))) \<and> n \<in> span (xrange x)"

definition handled :: "(bytes \<Rightarrow> (error + 'a) outcome) \<Rightarrow> nat \<Rightarrow> (nat \<times> bytes) list \<Rightarrow> nat set \<Rightarrow> 'a flown list \<Rightarrow> nat \<Rightarrow> bool" where
  "handled dec c0 lg sk xs from \<longleftrightarrow> (\<forall>(n, p) \<in> set lg. c0 < n \<longrightarrow> n < from \<longrightarrow> n \<in> sk \<or> (\<exists>x \<in> set xs. sent_as dec x n p))"

definition flown_ok :: "(bytes \<Rightarrow> (error + 'a) outcome) \<Rightarrow> (nat \<times> bytes) list \<Rightarrow> 'a flown \<Rightarrow> bool" where
  "flown_ok dec lg x \<longleftrightarrow> bRecords (xbatch x) \<noteq> [] \<and> consecutive dec lg (bID (xbatch x)) (bRecords (xbatch x))
     \<and> rangeFrom (xrange x) = bID (xbatch x) \<and> pid (xrange x) = bID (xbatch x) \<and> pcount (xrange x) = int (length (bRecords (xbatch x)))
     \<and> unat (bID (xbatch x)) + length (bRecords (xbatch x)) \<le> unat (rangeTo (xrange x)) + 1"

definition core :: "(bytes \<Rightarrow> (error + 'a) outcome) \<Rightarrow> nat \<Rightarrow> (nat \<times> bytes) list \<Rightarrow> nat set \<Rightarrow> nat \<Rightarrow> 'a flown list \<Rightarrow> 'a flusher \<Rightarrow> buf \<Rightarrow> bool" where
  "core dec c0 lg sk pos xs f b \<longleftrightarrow> acks_ok b xs (ffrom f) \<and> flush_ok dec lg sk pos f \<and> handled dec c0 lg sk xs (unat (ffrom f))
     \<and> (\<forall>x \<in> set xs. flown_ok dec lg x)"

text \<open>A batch that is opened: the numbers in front of it are acknowledged, for none of them still needs a delivery.\<close>

lemma open_batch:
  assumes c: "core dec c0 lg sk pos xs f b" and none: "frecords f = []" and lsn: "unat (fto f) < unat lsn" "unat lsn < pos'" "pos \<le> pos'" "pos' < 2 ^ 64"
    and p: "(unat lsn, p) \<in> set lg" "decodePayload dec p = Inr v"
    and gap: "\<forall>n \<in> fst ` set lg. unat (fto f) < n \<longrightarrow> n < pos' \<longrightarrow> n = unat lsn"
    and st: "startBatch lsn f b = (f1, b1)"
    and f': "f' = f1\<lparr>frecords := frecords f1 @ [v], wantLSN := lsn + 1, nbytes := nb, fto := lsn, held := None\<rparr>"
  shows "core dec c0 lg sk pos' xs f' b1 \<and> mark (ackT b) \<le> mark (ackT b1)"
proof -
  have a: "acks_ok b xs (ffrom f)" and fl: "flush_ok dec lg sk pos f" and h: "handled dec c0 lg sk xs (unat (ffrom f))"
    and fo: "\<forall>x \<in> set xs. flown_ok dec lg x"
    using c by (simp_all add: core_def)
  have ff: "0 < unat (ffrom f)" "unat (ffrom f) \<le> unat lsn" using fl lsn(1) by (auto simp: flush_ok_def)
  have top: "unat lsn + 1 < 2 ^ 64" using lsn by simp
  have pre: "unat (lsn - 1) = unat lsn - 1" using lsn(1) by (intro unat_minus_one) (auto simp: unat_eq_0 [symmetric])
  have f1: "ffrom f1 = lsn" "fid f1 = lsn" "wantLSN f1 = lsn" "frecords f1 = []" "cut f1 = cut f" "fstop f1 = fstop f"
    using st none ff(2) by (auto simp: startBatch_def not_less word_le_nat_alt word_less_nat_alt word_unat_eq_iff split: if_splits)
  have ab: "acks_ok b1 xs lsn \<and> mark (ackT b) \<le> mark (ackT b1)"
  proof (cases "lsn > ffrom f")
    case True
    then have b1: "b1 = complete (ffrom f) (lsn - 1) (skipCount f) (skipBytes f) b" using st by (auto simp: startBatch_def)
    have le: "ffrom f \<le> lsn - 1" "unat (lsn - 1) + 1 < 2 ^ 64" using True pre top by (simp_all add: word_le_nat_alt word_less_nat_alt)
    show ?thesis using acks_ok_direct [OF a le] direct_mark [OF a le] by (simp add: b1)
  next
    case False
    then have "lsn = ffrom f" using ff(2) by (simp add: not_less word_le_nat_alt word_unat_eq_iff)
    moreover from False have "b1 = b" using st by (simp add: startBatch_def)
    ultimately show ?thesis using a by simp
  qed
  have skp: "n \<in> sk" if "n \<in> fst ` set lg" "unat (ffrom f) \<le> n" "n < unat lsn" for n
  proof (cases "n \<le> unat (fto f)")
    case True
    then show ?thesis using fl that none by (auto simp: flush_ok_def kept_ok_def)
  next
    case False
    then have "unat (fto f) < n" "n < pos'" using that lsn by simp_all
    then have "n = unat lsn" using gap that(1) by blast
    then show ?thesis using that by simp
  qed
  then have hd: "handled dec c0 lg sk xs (unat lsn)" using h unfolding handled_def by (fastforce simp: not_le)
  have "batch_ok dec lg f'" using p f1 top unfolding batch_ok_def f' consecutive_def by auto
  moreover have nx: False if "n \<in> fst ` set lg" "unat lsn < n" "n < pos'" for n
    using gap that less_trans [OF lsn(1) that(2)] by (metis less_irrefl)
  then have "kept_ok lg sk pos' f'" unfolding kept_ok_def f' using f1 by (auto dest: le_antisym)
  moreover have "held_ok dec lg pos' f'" by (simp add: held_ok_def f')
  ultimately have "flush_ok dec lg sk pos' f'"
    using f1 lsn ff unfolding flush_ok_def f' by auto
  then show ?thesis using ab hd fo f1 unfolding core_def f' by simp
qed

lemma takeHeld_core:
  assumes c: "core dec c0 lg sk pos xs f b" and go: "fstop f = None" and t: "takeHeld f b = (f', b')"
  shows "core dec c0 lg sk pos xs f' b' \<and> mark (ackT b) \<le> mark (ackT b')"
proof (cases "held f = None \<or> frecords f \<noteq> []")
  case True
  then have "f' = f" "b' = b" using t by (auto simp: takeHeld_def split: option.splits)
  then show ?thesis using c by simp
next
  case False
  then obtain v lsn sz where hd: "held f = Some (v, lsn, sz)" by auto
  obtain f1 b1 where st: "startBatch lsn f b = (f1, b1)" by (meson surj_pair)
  have fl: "flush_ok dec lg sk pos f" using c by (simp add: core_def)
  obtain p where p: "unat (fto f) < unat lsn" "unat lsn < pos" "(unat lsn, p) \<in> set lg" "decodePayload dec p = Inr v"
    using fl hd by (auto simp: flush_ok_def held_ok_def)
  have gap: "\<forall>n \<in> fst ` set lg. unat (fto f) < n \<longrightarrow> n < pos \<longrightarrow> n = unat lsn"
    using fl hd go unfolding flush_ok_def kept_ok_def by auto
  have top: "pos < 2 ^ 64" using fl by (simp add: flush_ok_def)
  have eq: "f' = f1\<lparr>frecords := frecords f1 @ [v], wantLSN := lsn + 1, nbytes := nbytes f1 + sz, fto := lsn, held := None\<rparr>" "b' = b1"
    using t hd False st by (auto simp: takeHeld_def)
  show ?thesis
    using open_batch [OF c _ p(1,2) order_refl top p(3,4) gap st eq(1)] False eq(2) by simp
qed

lemma core_buf: "ackT b = ackT b' \<Longrightarrow> core dec c0 lg sk pos xs f b = core dec c0 lg sk pos xs f b'"
  unfolding core_def using acks_ok_cong by metis

text \<open>Reading a record that is passed over.\<close>

lemma skipRecord_core:
  assumes c: "core dec c0 lg sk pos xs f b" and go: "fstop f = None" "\<not> cut f" "held f = None \<or> frecords f \<noteq> []"
    and n: "pos \<le> n" "n + 1 < 2 ^ 64" and gap: "\<forall>e \<in> set lg. fst e < pos \<or> n \<le> fst e"
  shows "core dec c0 lg (insert n sk) (n + 1) xs (skipRecord (of_nat n) sz f) b"
proof -
  let ?f = "skipRecord (of_nat n) sz f :: 'a flusher"
  have u: "unat (of_nat n :: u64) = n" using n by (simp add: unat_of_nat_u64)
  have fl: "flush_ok dec lg sk pos f" using c by (simp add: core_def)
  have nh: "held f = None" using fl go by (cases "held f") (auto simp: flush_ok_def held_ok_def)
  have sk: "handled dec c0 lg (insert n sk) xs (unat (ffrom f))" using c unfolding core_def handled_def by fastforce
  have "kept_ok lg (insert n sk) (n + 1) ?f"
    using fl n gap nh go(1) u unfolding flush_ok_def kept_ok_def skipRecord_def by fastforce
  then have "flush_ok dec lg (insert n sk) (n + 1) ?f"
    using fl n nh u by (auto simp: flush_ok_def skipRecord_def batch_ok_def held_ok_def)
  then show ?thesis using c sk by (simp add: core_def skipRecord_def)
qed

lemma addRecord_core:
  assumes c: "core dec c0 lg sk pos xs f b" and go: "fstop f = None" "\<not> cut f" "held f = None \<or> frecords f \<noteq> []"
    and n: "pos \<le> n" "n + 1 < 2 ^ 64" "(n, p) \<in> set lg" "decodePayload dec p = Inr v" and gap: "\<forall>e \<in> set lg. fst e < pos \<or> n \<le> fst e"
    and add: "addRecord (of_nat n) sz v f b = (f', b')"
  shows "core dec c0 lg sk (n + 1) xs f' b' \<and> mark (ackT b) \<le> mark (ackT b')"
proof -
  have u: "unat (of_nat n :: u64) = n" using n by (simp add: unat_of_nat_u64)
  have fl: "flush_ok dec lg sk pos f" using c by (simp add: core_def)
  have nh: "held f = None" using fl go by (cases "held f") (auto simp: flush_ok_def held_ok_def)
  have between: "\<forall>m \<in> fst ` set lg. unat (fto f) < m \<longrightarrow> m < n + 1 \<longrightarrow> m = n"
    using fl gap nh go(1) unfolding flush_ok_def kept_ok_def by fastforce
  have fto: "unat (fto f) < n" using fl n(1) by (simp add: flush_ok_def)
  show ?thesis
  proof (cases "frecords f = []")
    case True
    obtain f1 b1 where st: "startBatch (of_nat n) f b = (f1, b1)" by (meson surj_pair)
    have f1: "frecords f1 = []" "wantLSN f1 = of_nat n" "held f1 = None" using st True nh by (auto simp: startBatch_def split: if_splits)
    have "f' = f1\<lparr>frecords := frecords f1 @ [v], wantLSN := of_nat n + 1, nbytes := nbytes f1 + sz, fto := of_nat n, held := None\<rparr>" "b' = b1"
      using add True st f1 by (auto simp: addRecord_def)
    with open_batch [OF c True, where lsn = "of_nat n" and pos' = "n + 1" and p = p and v = v and ?f1.0 = f1 and ?b1.0 = b1] show ?thesis
      using u n fto between st by simp
  next
    case False
    have bo: "batch_ok dec lg f" using fl False by (simp add: flush_ok_def)
    have b': "b' = b" using add False by (auto simp: addRecord_def split: if_splits)
    show ?thesis
    proof (cases "of_nat n = wantLSN f")
      case True
      then have f': "f' = f\<lparr>frecords := frecords f @ [v], wantLSN := wantLSN f + 1, nbytes := nbytes f + sz, fto := of_nat n\<rparr>"
        using add False by (simp add: addRecord_def)
      have bnd: "unat (fid f) + length (frecords f) \<le> unat (fto f) + 1" using bo unfolding batch_ok_def by blast
      then have sum: "unat (fid f) + length (frecords f) < 2 ^ 64" using fto n(2) by linarith
      then have "unat (of_nat (length (frecords f)) :: u64) = length (frecords f)" by (intro unat_of_nat_u64) simp
      then have "unat (wantLSN f) = unat (fid f) + length (frecords f)"
        using bo sum unat_plus_no_wrap [of "fid f" "of_nat (length (frecords f))"] by (simp add: batch_ok_def)
      then have e: "unat (fid f) + length (frecords f) = n" using True u by simp
      have "consecutive dec lg (fid f) (frecords f @ [v])"
        using bo n e by (auto simp: batch_ok_def consecutive_def nth_append less_Suc_eq)
      then have "batch_ok dec lg f'" using bo e u by (simp add: batch_ok_def f' add.assoc)
      moreover have "kept_ok lg sk (n + 1) f'"
        using fl between fto e u unfolding flush_ok_def kept_ok_def f' by fastforce
      ultimately have "flush_ok dec lg sk (n + 1) f'"
        using fl n u nh unfolding flush_ok_def held_ok_def f' by simp
      then show ?thesis using c b' by (simp add: core_def f')
    next
      case neq: False
      then have f': "f' = f\<lparr>held := Some (v, of_nat n, sz), cut := True\<rparr>"
        using add False by (simp add: addRecord_def)
      have "kept_ok lg sk (n + 1) f'"
        using fl between u unfolding flush_ok_def kept_ok_def f' by auto
      moreover have "held_ok dec lg (n + 1) f'" using fto u n by (auto simp: held_ok_def f')
      ultimately have "flush_ok dec lg sk (n + 1) f'"
        using fl n bo unfolding flush_ok_def batch_ok_def f' by simp
      then show ?thesis using c b' by (simp add: core_def f')
    qed
  qed
qed

lemma takeRecord_core:
  assumes c: "core dec c0 lg sk pos xs f b" and go: "fstop f = None" "\<not> cut f" "held f = None \<or> frecords f \<noteq> []"
    and n: "pos \<le> n" "n + 1 < 2 ^ 64" "(n, p) \<in> set lg" and gap: "\<forall>e \<in> set lg. fst e < pos \<or> n \<le> fst e"
    and t: "takeRecord dec (of_nat n) p f b = (f', b')"
  shows "core dec c0 lg (if skips dec (of_nat n) p b then insert n sk else sk) (n + 1) xs f' b' \<and> mark (ackT b) \<le> mark (ackT b')"
proof -
  consider (skip) "skips dec (of_nat n) p b" "f' = skipRecord (of_nat n) (int (length p)) f" "ackT b' = ackT b"
    | (stop) e where "\<not> skips dec (of_nat n) p b" "f' = f\<lparr>fstop := Some e\<rparr>" "b' = b"
    | (add) v where "\<not> skips dec (of_nat n) p b" "decodePayload dec p = Inr v" "addRecord (of_nat n) (int (length p)) v f b = (f', b')"
    using t unfolding takeRecord_def skips_def
    by (cases "of_nat n < dropFloor b"; cases "decodePayload dec p")
      (auto simp: dropped_def Let_def split: prod.splits decodeAction.splits)
  then show ?thesis
  proof cases
    case skip
    then show ?thesis using skipRecord_core [OF c go n(1,2) gap, of "int (length p)"]
      core_buf [OF skip(3), of dec c0 lg "insert n sk" "n + 1" xs f'] by simp
  next
    case stop
    have fl: "flush_ok dec lg sk pos f" using c by (simp add: core_def)
    have nh: "held f = None" using fl go by (cases "held f") (auto simp: flush_ok_def held_ok_def)
    have "flush_ok dec lg sk (n + 1) f'"
      using fl n nh unfolding flush_ok_def kept_ok_def held_ok_def batch_ok_def stop(2) by auto
    then show ?thesis using c stop by (simp add: core_def)
  next
    case add
    then show ?thesis using addRecord_core [OF c go n add(2) gap add(3)] by simp
  qed
qed

text \<open>Flushers that differ only in what does not matter here.\<close>

definition alike :: "'a flusher \<Rightarrow> 'a flusher \<Rightarrow> bool" where
  "alike f g \<longleftrightarrow> frecords f = frecords g \<and> fid f = fid g \<and> wantLSN f = wantLSN g \<and> ffrom f = ffrom g \<and> fto f = fto g
     \<and> fstop f = fstop g \<and> held f = held g \<and> (frecords f \<noteq> [] \<longrightarrow> cut f = cut g)"

lemma alike_core: "alike f g \<Longrightarrow> core dec c0 lg sk pos xs f b = core dec c0 lg sk pos xs g b"
  by (auto simp: alike_def core_def flush_ok_def batch_ok_def held_ok_def kept_ok_def)

text \<open>What the flusher does with what it has read.\<close>

lemma dispatch_quiet:
  assumes "dispatch script lid vs p b = Some (fl, b')" and "\<forall>b. ackT (fst script b) = ackT b"
  shows "ackT b' = ackT b \<and> (fl = None \<or> fl = Some (\<lparr>bID = pid p, bLogID = lid, bRecords = vs, bAttempt = 0\<rparr>, p))"
  using assms by (auto simp: dispatch_def Let_def split: if_splits prod.splits)

lemma flusherAct_cases:
  assumes "flusherAct script lid f b = Some (next, fl, b')" and q: "\<forall>b. ackT (fst script b) = ackT b"
  obtains (sent) "frecords f \<noteq> []" "fl = Some (\<lparr>bID = fid f, bLogID = lid, bRecords = frecords f, bAttempt = 0\<rparr>, pendingOf f)"
      "ackT b' = ackT b" "alike (goesOn f next fl) (resetBatch f)"
    | (acked) "frecords f = []" "fl = None" "ffrom f \<le> fto f" "ackT b' = ackT (complete (ffrom f) (fto f) (skipCount f) (skipBytes f) b)"
      "alike (goesOn f next fl) (resetBatch f)"
    | (idle) "fl = None" "ackT b' = ackT b" "alike (goesOn f next fl) f"
proof (cases "fstop f")
  case (Some e)
  have pp: "pid (pendingOf f) = fid f" by (simp add: pendingOf_def)
  have s: "stopFlusher script lid (snd e) f b = Some (fl, b')" and nx: "next = Return"
    using assms(1) Some by (cases e; auto simp: flusherAct_def)+
  have g: "goesOn f next fl = leftOver f fl" by (simp add: nx goesOn_def)
  have rf: "alike g g" for g :: "'a flusher" by (simp add: alike_def)
  show ?thesis
  proof (cases "frecords f = []")
    case False
    then obtain b2 where d: "dispatch script lid (frecords f) (pendingOf f) b = Some (fl, b2)" and b': "ackT b' = ackT b2"
      using s by (auto simp: stopFlusher_def bufFail_def)
    note di = dispatch_quiet [OF d q]
    show ?thesis
    proof (cases "fl = None")
      case True
      then show ?thesis using di b' False g rf by (intro idle) (simp_all add: leftOver_def)
    next
      case fly: False
      then show ?thesis using di b' False g rf pp by (intro sent) (auto simp: leftOver_def)
    qed
  next
    case True
    then have b': "fl = None" "ackT b' = (if ffrom f \<le> fto f then ackT (complete (ffrom f) (fto f) (skipCount f) (skipBytes f) b) else ackT b)"
      using s by (auto simp: stopFlusher_def bufFail_def split: if_splits)
    show ?thesis
    proof (cases "ffrom f \<le> fto f")
      case fto: True
      then show ?thesis using b' True g rf Some by (intro acked) (simp_all add: leftOver_def)
    next
      case fto: False
      then show ?thesis using b' True g rf by (intro idle) (simp_all add: leftOver_def)
    qed
  qed
next
  case None
  define f1 where "f1 = (if forceFlush b then f\<lparr>expired := True\<rparr> else f)"
  define b1 where "b1 = b\<lparr>forceFlush := False\<rparr>"
  have f1: "pendingOf f1 = pendingOf f" "frecords f1 = frecords f" "ffrom f1 = ffrom f" "fto f1 = fto f" "resetBatch f1 = resetBatch f"
      "skipCount f1 = skipCount f" "skipBytes f1 = skipBytes f" "alike f1 f" "alike (resetSkipped f1) (resetBatch f1) = (frecords f = [])"
    by (auto simp: f1_def pendingOf_def resetBatch_def alike_def resetSkipped_def)
  have b1: "ackT b1 = ackT b" by (simp add: b1_def)
  have lo: "leftOver f None = f" using None by (simp add: leftOver_def)
  have rf: "alike g g" for g :: "'a flusher" by (simp add: alike_def)
  have pp: "pid (pendingOf f) = fid f" by (simp add: pendingOf_def)
  show ?thesis
    using assms(1) None sent acked idle f1 b1 lo rf dispatch_quiet [OF _ q, of lid "frecords f" "pendingOf f" b1]
    by (auto simp: flusherAct_def f1_def [symmetric] b1_def [symmetric] Let_def goesOn_def pp split: if_splits option.splits prod.splits)
qed

lemma pendingOf_sel [simp]:
  "pid (pendingOf f) = fid f" "rangeFrom (pendingOf f) = ffrom f" "rangeTo (pendingOf f) = fto f" "pcount (pendingOf f) = int (length (frecords f))"
  by (simp_all add: pendingOf_def)

text \<open>A batch that is reset: what it covered has to be dealt with by then.\<close>

lemma resetBatch_flush_ok:
  assumes "flush_ok dec lg sk pos f"
  shows "flush_ok dec lg sk pos (resetBatch f)"
proof -
  have "unat (fto f + 1) = unat (fto f) + 1" using assms by (intro unat_plus_one) (simp add: flush_ok_def)
  then show ?thesis using assms by (auto simp: flush_ok_def kept_ok_def held_ok_def resetBatch_def)
qed

lemma act_core:
  assumes c: "core dec c0 lg sk pos xs f b" and d: "distinct (map fst lg)"
    and act: "flusherAct script lid f b = Some (next, fl, b')" and q: "\<forall>b. ackT (fst script b) = ackT b"
    and xs': "xs' = xs @ (case fl of None \<Rightarrow> [] | Some (bt, p) \<Rightarrow> [\<lparr>xbatch = bt, xrange = p, xfate = None\<rparr>])"
  shows "core dec c0 lg sk pos xs' (goesOn f next fl) b' \<and> mark (ackT b) \<le> mark (ackT b')"
proof -
  have a: "acks_ok b xs (ffrom f)" and fl: "flush_ok dec lg sk pos f" and h: "handled dec c0 lg sk xs (unat (ffrom f))"
    and fo: "\<forall>x \<in> set xs. flown_ok dec lg x"
    using c by (simp_all add: core_def)
  have fl': "flush_ok dec lg sk pos (resetBatch f)" using fl by (rule resetBatch_flush_ok)
  have from': "ffrom (resetBatch f) = fto f + 1" by (simp add: resetBatch_def)
  have top: "unat (fto f) + 1 < 2 ^ 64" using fl by (simp add: flush_ok_def)
  have u: "unat (fto f + 1) = unat (fto f) + 1" using top by (rule unat_plus_one)
  from act q show ?thesis
  proof (cases rule: flusherAct_cases)
    case sent
    let ?x = "\<lparr>xbatch = \<lparr>bID = fid f, bLogID = lid, bRecords = frecords f, bAttempt = 0\<rparr>, xrange = pendingOf f, xfate = None\<rparr>"
    have x: "xs' = xs @ [?x]" using xs' sent(2) by simp
    have bo: "batch_ok dec lg f" using fl sent(1) by (simp add: flush_ok_def)
    have "0 < length (frecords f)" "unat (ffrom f) + length (frecords f) \<le> unat (fto f) + 1"
      using sent(1) bo unfolding batch_ok_def by (blast, metis)
    then have "unat (ffrom f) \<le> unat (fto f)" by linarith
    then have "range_ok (pendingOf f)" using top by (simp add: range_ok_def word_le_nat_alt)
    then have "acks_ok b xs' (fto f + 1)" using acks_ok_dispatch [of b xs "pendingOf f"] a x by simp
    moreover have "flown_ok dec lg ?x" using bo sent(1) by (auto simp: flown_ok_def batch_ok_def)
    moreover have "handled dec c0 lg sk xs' (unat (fto f + 1))"
      unfolding handled_def
    proof (intro ballI, clarify)
      fix n p
      assume e: "(n, p) \<in> set lg" and n: "c0 < n" "n < unat (fto f + 1)" and nsk: "\<not> (\<exists>x\<in>set xs'. sent_as dec x n p)"
      show "n \<in> sk"
      proof (cases "n < unat (ffrom f)")
        case True
        then show ?thesis using h e n(1) nsk x unfolding handled_def by fastforce
      next
        case False
        then have "n \<in> sk \<or> n < unat (fid f) + length (frecords f)" using fl e n u unfolding flush_ok_def kept_ok_def by force
        moreover have "sent_as dec ?x n p" if "n < unat (fid f) + length (frecords f)"
        proof -
          have f: "ffrom f = fid f" "consecutive dec lg (fid f) (frecords f)" using bo by (auto simp: batch_ok_def)
          have i: "unat (fid f) + (n - unat (fid f)) = n" "n - unat (fid f) < length (frecords f)" using f(1) that False by auto
          obtain p' where "(n, p') \<in> set lg" "decodePayload dec p' = Inr (frecords f ! (n - unat (fid f)))"
            using f(2) i unfolding consecutive_def by fastforce
          moreover have "p' = p" using d calculation(1) e by (rule eq_key_imp_eq_value)
          ultimately show ?thesis using that False f n(2) u by (auto simp: sent_as_def span_def)
        qed
        ultimately show ?thesis using nsk x by auto
      qed
    qed
    ultimately have "core dec c0 lg sk pos xs' (resetBatch f) b" using fl' fo x from' by (simp add: core_def)
    then show ?thesis by (simp add: alike_core [OF sent(4)] core_buf [OF sent(3)] sent(3))
  next
    case acked
    have x: "xs' = xs" using xs' acked(2) by simp
    have "handled dec c0 lg sk xs (unat (fto f + 1))"
      using h fl acked(1) u unfolding handled_def flush_ok_def kept_ok_def by (fastforce simp: not_less)
    then have "core dec c0 lg sk pos xs (resetBatch f) (complete (ffrom f) (fto f) (skipCount f) (skipBytes f) b)"
      using acks_ok_direct [OF a acked(3) top] fl' fo from' by (simp add: core_def)
    then show ?thesis using x direct_mark [OF a acked(3) top] by (simp add: alike_core [OF acked(5)] core_buf [OF acked(4)] acked(4))
  next
    case idle
    show ?thesis using c xs' idle(1) alike_core [OF idle(3)] by (simp add: core_buf [OF idle(2)] idle(2))
  qed
qed

text \<open>Deliveries that end and records that are appended.\<close>

lemma end_core:
  assumes c: "core dec c0 lg sk pos (xs @ x # ys) f b" and x: "xfate x = None"
    and b: "if ft = Kept then ackT b' = ackT b else ackT b' = ackT (completeRange (xrange x) b)"
  shows "core dec c0 lg sk pos (xs @ x\<lparr>xfate := Some ft\<rparr> # ys) f b' \<and> mark (ackT b) \<le> mark (ackT b')"
proof -
  have "sent_as dec (x\<lparr>xfate := Some ft\<rparr>) n p = sent_as dec x n p" "flown_ok dec lg (x\<lparr>xfate := Some ft\<rparr>) = flown_ok dec lg x" for n p
    by (simp_all add: sent_as_def flown_ok_def)
  then show ?thesis using c acks_ok_end [OF _ x b, of xs ys "ffrom f"] unfolding core_def handled_def by auto
qed

lemma append_core:
  assumes c: "core dec c0 lg sk pos xs f b" and es: "\<forall>e \<in> set es. pos \<le> fst e"
  shows "core dec c0 (lg @ es) sk pos xs f b"
proof -
  have fl: "flush_ok dec lg sk pos f" using c by (simp add: core_def)
  have "consecutive dec lg k vs \<Longrightarrow> consecutive dec (lg @ es) k vs" for k vs unfolding consecutive_def by fastforce
  then have "flush_ok dec (lg @ es) sk pos f" "\<forall>x \<in> set xs. flown_ok dec (lg @ es) x"
    using c es unfolding core_def flush_ok_def batch_ok_def held_ok_def kept_ok_def flown_ok_def by (fastforce+)
  moreover have "handled dec c0 (lg @ es) sk xs (unat (ffrom f))"
    using c es fl unfolding core_def handled_def flush_ok_def by fastforce
  ultimately show ?thesis using c by (simp add: core_def)
qed

definition pipe_inv :: "(bytes \<Rightarrow> (error + 'a) outcome) \<Rightarrow> nat \<Rightarrow> 'a pipe \<Rightarrow> bool" where
  "pipe_inv dec c0 s \<longleftrightarrow> core dec c0 (plog s) (pskipped s) (pcursor s) (pflown s) (pflush s) (pbuf s)
     \<and> sorted_wrt (<) (map fst (plog s)) \<and> (\<forall>e \<in> set (plog s). fst e + 1 < 2 ^ 64)
     \<and> pcheckpoint s \<le> unat (mark (ackT (pbuf s))) \<and> ptruncated s \<le> pcheckpoint s + 1"

lemma sorted_distinct: "sorted_wrt (<) (map fst (lg :: (nat \<times> bytes) list)) \<Longrightarrow> distinct (map fst lg)"
  by (simp add: strict_sorted_iff)

lemma pipe_invI:
  assumes "pipe_inv dec c0 s" and "core dec c0 (plog s) (pskipped s') (pcursor s') (pflown s') (pflush s') (pbuf s') \<and> mark (ackT (pbuf s)) \<le> mark (ackT (pbuf s'))"
    and "plog s' = plog s" and "pcheckpoint s' = pcheckpoint s" and "ptruncated s' = ptruncated s"
  shows "pipe_inv dec c0 s'"
  using assms by (simp add: pipe_inv_def word_le_nat_alt)

lemma wakeUp_alike:
  assumes "wakeUp sel f b = Some (Some f', b')"
  shows "alike f' f" and "ackT b' = ackT b"
  using assms by (auto simp: wakeUp_def alike_def split: flusherSelect.splits if_splits)

lemma pstep_inv:
  assumes "pstep dec s s'" and inv: "pipe_inv dec c0 s"
  shows "pipe_inv dec c0 s'"
  using assms(1)
proof cases
  case (p_other b)
  have "core dec c0 (plog s) (pskipped s) (pcursor s) (pflown s) (pflush s) b"
    using inv by (simp add: pipe_inv_def core_buf [OF p_other(2)])
  then show ?thesis using p_other by (intro pipe_invI [OF inv]) simp_all
next
  case (p_append es)
  have "core dec c0 (plog s @ es) (pskipped s) (pcursor s) (pflown s) (pflush s) (pbuf s)"
    using inv p_append(3) by (intro append_core) (simp_all add: pipe_inv_def)
  moreover have "sorted_wrt (<) (map fst (plog s @ es))"
    using inv p_append by (auto simp: pipe_inv_def sorted_wrt_append)
  ultimately show ?thesis using inv p_append by (auto simp: pipe_inv_def)
next
  case (p_held f b)
  have "core dec c0 (plog s) (pskipped s) (pcursor s) (pflown s) (pflush s) (pbuf s)" using inv by (simp add: pipe_inv_def)
  from takeHeld_core [OF this p_held(3,4)] show ?thesis using p_held(1) by (intro pipe_invI [OF inv]) simp_all
next
  case (p_read n payload f b)
  have "core dec c0 (plog s) (pskipped s) (pcursor s) (pflown s) (pflush s) (pbuf s)" "n + 1 < 2 ^ 64"
    using inv p_read(6) by (auto simp: pipe_inv_def)
  from takeRecord_core [OF this(1) p_read(5,4,3,7) this(2) p_read(6,8,9)] show ?thesis
    using p_read(1) by (intro pipe_invI [OF inv]) simp_all
next
  case (p_act script lid "next" fl b)
  have "core dec c0 (plog s) (pskipped s) (pcursor s) (pflown s) (pflush s) (pbuf s)" "distinct (map fst (plog s))"
    using inv sorted_distinct by (auto simp: pipe_inv_def)
  from act_core [OF this p_act(5,4) refl] show ?thesis using p_act(1) by (intro pipe_invI [OF inv]) simp_all
next
  case (p_wake sel f b)
  have "core dec c0 (plog s) (pskipped s) (pcursor s) (pflown s) f b"
    using inv by (simp add: pipe_inv_def alike_core [OF wakeUp_alike(1) [OF p_wake(2)]] core_buf [OF wakeUp_alike(2) [OF p_wake(2)]])
  then show ?thesis using p_wake(1) wakeUp_alike(2) [OF p_wake(2)] by (intro pipe_invI [OF inv]) simp_all
next
  case (p_end xs x ys ft b)
  have "core dec c0 (plog s) (pskipped s) (pcursor s) (xs @ x # ys) (pflush s) (pbuf s)" using inv p_end(2) by (simp add: pipe_inv_def)
  from end_core [OF this p_end(3,4)] show ?thesis using p_end(1) by (intro pipe_invI [OF inv]) simp_all
next
  case p_checkpoint
  then show ?thesis using inv by (auto simp: pipe_inv_def)
next
  case (p_truncate bnd)
  then show ?thesis using inv by (auto simp: pipe_inv_def)
qed

definition pipeStart :: "buf \<Rightarrow> u64 \<Rightarrow> (nat \<times> bytes) list \<Rightarrow> 'a pipe" where
  "pipeStart b c lg = \<lparr>pbuf = b, pflush = newFlusher (c + 1), pcursor = unat c + 1, plog = lg, pflown = [], pskipped = {},
     pcheckpoint = unat c, ptruncated = 0, preturned = False\<rparr>"

lemma pipeStart_inv:
  assumes "ackT b = newAckTracker c" and "unat c + 1 < 2 ^ 64" and "sorted_wrt (<) (map fst lg)" and "\<forall>e \<in> set lg. fst e + 1 < 2 ^ 64"
  shows "pipe_inv dec (unat c) (pipeStart b c lg)"
proof -
  have u: "unat (c + 1) = unat c + 1" using assms(2) by (rule unat_plus_one)
  have t: "tracks (ackT b) {0..unat c}" using tracks_new [OF assms(2)] assms(1) by simp
  have "{0..unat c} = {..<unat (c + 1)}" using u by auto
  then have "acks_ok b [] (c + 1)" using t by (auto simp: acks_ok_def openSpans_def)
  moreover have "flush_ok dec lg {} (unat c + 1) (newFlusher (c + 1) :: 'a flusher)"
    using assms(2) u by (auto simp: flush_ok_def held_ok_def kept_ok_def newFlusher_def)
  moreover have "handled dec (unat c) lg {} [] (unat c + 1)" by (auto simp: handled_def)
  ultimately have "core dec (unat c) lg {} (unat c + 1) [] (newFlusher (c + 1) :: 'a flusher) b"
    using u by (simp add: core_def newFlusher_def)
  then show ?thesis using assms by (simp add: pipe_inv_def pipeStart_def mark_def newAckTracker_def)
qed

interpretation pipeline: invariant_system "pstep dec" "pipe_inv dec c0" for dec c0
  by unfold_locales (rule pstep_inv)

lemma reached_inv:
  assumes "ackT b = newAckTracker c" and "unat c + 1 < 2 ^ 64" and "sorted_wrt (<) (map fst lg)" and "\<forall>e \<in> set lg. fst e + 1 < 2 ^ 64"
    and "(pstep dec)\<^sup>*\<^sup>* (pipeStart b c lg) s"
  shows "pipe_inv dec (unat c) s"
  using pipeline.steps_inv [OF assms(5) pipeStart_inv [OF assms(1-4)]] .

lemma below_mark:
  assumes "pipe_inv dec c0 s" and "(n, p) \<in> set (plog s)" and "c0 < n" and "n \<le> unat (mark (ackT (pbuf s)))"
  shows "n \<in> pskipped s \<or> (\<exists>x \<in> set (pflown s). sent_as dec x n p \<and> \<not> isOpen x)"
proof -
  have a: "acks_ok (pbuf s) (pflown s) (ffrom (pflush s))" and hd: "handled dec c0 (plog s) (pskipped s) (pflown s) (unat (ffrom (pflush s)))"
    using assms(1) by (simp_all add: pipe_inv_def core_def)
  obtain h where h: "tracks (ackT (pbuf s)) h" "h \<inter> openSpans (pflown s) = {}" "h \<union> openSpans (pflown s) = {..<unat (ffrom (pflush s))}"
    using a unfolding acks_ok_def by blast
  have n: "n \<in> h" using tracks_mark [OF h(1)] assms(4) by auto
  then have "n < unat (ffrom (pflush s))" using h(3) by blast
  then consider "n \<in> pskipped s" | x where "x \<in> set (pflown s)" "sent_as dec x n p" using hd assms(2,3) unfolding handled_def by blast
  then show ?thesis
  proof cases
    case 2
    then have "n \<in> span (xrange x)" by (simp add: sent_as_def)
    then have "\<not> isOpen x" using 2(1) n h(2) unfolding openSpans_def by auto
    then show ?thesis using 2 by blast
  qed simp
qed

end
