(* ===== verification/FlusherRefinement.thy ===== *)
theory FlusherRefinement
  imports Pipeline ReaderGrowth
begin

text \<open>
  The loop of the flusher implements the steps of \<open>Pipeline\<close>: a run of \<open>flusherRun\<close> on the reader and the log of the model
  is a sequence of steps of the relation, with the same flights and the same buffer at the end, and the log at the end agrees with
  that of the pipeline.

  During such a run the other goroutines change the buffer and the log. \<open>fairTurns\<close> states what the flusher relies on of them: of the numbers, they acknowledge only the
  ranges of flights that the flusher has started, each once, at any moment; and they truncate the log up to the mark.
\<close>

subsection \<open>What the flusher relies on\<close>

text \<open>
  What the others do to the buffer: they leave the tracker alone, or the delivery of a flight that has been started ends and acknowledges its range
  (\<open>completeRange\<close>, the only way in which a delivery acknowledges anything). A delivery that keeps its batch changes nothing here.
\<close>

definition bufMove :: "'a flight list \<Rightarrow> buf \<Rightarrow> buf \<Rightarrow> bool" where
  "bufMove fls b b' \<longleftrightarrow> ackT b' = ackT b \<or> (\<exists>(bt, p) \<in> set fls. unacked p b \<and> ackT b' = ackT (completeRange p b))"

text \<open>
  Beside this, they append to the log, commit, rotate and checkpoint, and truncate the log up to the number behind the mark that the tracker has at that moment.
  Which part of a commit round they are in, the flusher does not see.
\<close>

inductive ostep :: "'a flight list \<Rightarrow> buf \<times> log \<times> fs \<Rightarrow> buf \<times> log \<times> fs \<Rightarrow> bool" for fls where
  o_buf: "bufMove fls b b' \<Longrightarrow> ostep fls (b, l, w) (b', l, w)"
| o_log: "refined (l, ph, w) \<Longrightarrow> tstep (unat (mark (ackT b)) + 1) (l, ph, w) (l', ph', w') \<Longrightarrow> ostep fls (b, l, w) (b, l', w')"

text \<open>The others take any number of such steps where the loop gives way to them.\<close>

definition fairEnv :: "'a flight list \<Rightarrow> sysEnv \<Rightarrow> bool" where
  "fairEnv fls env \<longleftrightarrow> (\<forall>b l w. (\<exists>ph. refined (l, ph, w)) \<longrightarrow> (ostep fls)\<^sup>*\<^sup>* (b, l, w) (env b l w))"

definition fairTurn :: "'a flight list \<Rightarrow> flusherTurn \<Rightarrow> bool" where
  "fairTurn fls t \<longleftrightarrow> fairEnv fls (ftBefore t) \<and> (\<forall>env \<in> set (ftReads t). fairEnv fls env) \<and> fairEnv fls (ftSleep t)
     \<and> (\<forall>b. (bufMove fls)\<^sup>*\<^sup>* b (fst (ftSend t) b))"

abbreviation sentOf :: "'b option \<Rightarrow> 'b list" where
  "sentOf fl \<equiv> (case fl of None \<Rightarrow> [] | Some x \<Rightarrow> [x])"

text \<open>One turn of the loop: the flight it starts and the state it goes on in, if it goes on.\<close>

definition turnOn :: "flusherTurn \<Rightarrow> (bytes \<Rightarrow> (error + 'a) outcome) \<Rightarrow> 'a flusher \<Rightarrow> reader \<Rightarrow> buf \<Rightarrow> log \<Rightarrow> fs
    \<Rightarrow> ('a flight list \<times> 'a flusher \<times> reader \<times> buf \<times> log \<times> fs) option" where
  "turnOn t dec f r b l w = (case ftBefore t b l w of (b0, l0, w0) \<Rightarrow>
     if fatalErr b0 \<noteq> None then None
     else case takeHeld f b0 of (f1, b1) \<Rightarrow> case fillBatch (ftReads t) dec f1 r b1 l0 w0 of
         Some (True, f2, r2, b2, l2, w2) \<Rightarrow> (case flusherAct (ftSend t) (logID l2) f2 b2 of
             Some (Continue f3, fl, b3) \<Rightarrow> Some (sentOf fl, f3, r2, b3, l2, w2)
           | Some (Sleep f3, fl, b3) \<Rightarrow> (case ftSleep t b3 l2 w2 of (b4, l4, w4) \<Rightarrow> case wakeUp (ftSelect t) f3 b4 of
               Some (Some f5, b5) \<Rightarrow> Some (sentOf fl, f5, r2, b5, l4, w4)
             | _ \<Rightarrow> None)
           | _ \<Rightarrow> None)
       | _ \<Rightarrow> None)"

lemma turnOn_loop:
  assumes "flusherLoop (t # ts) dec f r b l w = Some (fls, r', b', l', w')" and "turnOn t dec f r b l w = Some (fl, f1, r1, b1, l1, w1)"
  shows "\<exists>fls'. flusherLoop ts dec f1 r1 b1 l1 w1 = Some (fls', r', b', l', w') \<and> fls = fl @ fls'"
  using assms by (auto simp: turnOn_def Let_def split: prod.splits if_splits option.splits bool.splits flusherNext.splits)

text \<open>In every turn of a run, the flights started so far are those of the turns before it.\<close>

fun fairTurns :: "flusherTurn list \<Rightarrow> (bytes \<Rightarrow> (error + 'a) outcome) \<Rightarrow> 'a flight list \<Rightarrow> 'a flusher \<Rightarrow> reader \<Rightarrow> buf \<Rightarrow> log \<Rightarrow> fs \<Rightarrow> bool" where
  "fairTurns [] dec fls f r b l w \<longleftrightarrow> True"
| "fairTurns (t # ts) dec fls f r b l w \<longleftrightarrow> fairTurn fls t \<and> (case turnOn t dec f r b l w of
      None \<Rightarrow> True
    | Some (fl, f1, r1, b1, l1, w1) \<Rightarrow> fairTurns ts dec (fls @ fl) f1 r1 b1 l1 w1)"

definition fairRun :: "flusherTurn list \<Rightarrow> (bytes \<Rightarrow> (error + 'a) outcome) \<Rightarrow> u64 \<Rightarrow> buf \<Rightarrow> log \<Rightarrow> fs \<Rightarrow> bool" where
  "fairRun ts dec from b l w \<longleftrightarrow> (case newReader from l of Inl e \<Rightarrow> True | Inr r \<Rightarrow> fairTurns ts dec [] (newFlusher from) r b l w)"

subsection \<open>What a state of the code shows\<close>

text \<open>
  The log holds what the pipeline has, except what is truncated; the reader stands at the cursor of the pipeline, or behind a gap that starts there.
\<close>

definition tracked :: "log \<Rightarrow> fs \<Rightarrow> reader \<Rightarrow> 'a pipe \<Rightarrow> bytes list list \<Rightarrow> bool" where
  "tracked l w r s pss \<longleftrightarrow> segs_hold l w pss \<and> rd_ok l w pss r \<and> unat (rnextLSN r) \<le> seg_end (active l)
     \<and> pcursor s \<le> unat (rnextLSN r) \<and> vacant l pss (pcursor s) (unat (rnextLSN r))
     \<and> set (contents (segs l) pss) \<subseteq> set (plog s) \<and> (\<forall>e \<in> set (plog s). fst e < ptruncated s \<or> e \<in> set (contents (segs l) pss))
     \<and> (\<forall>e \<in> set (plog s). fst e < seg_end (active l))"

definition shown :: "(bytes \<Rightarrow> (error + 'a) outcome) \<Rightarrow> nat \<Rightarrow> log \<Rightarrow> fs \<Rightarrow> reader \<Rightarrow> 'a flusher \<Rightarrow> buf \<Rightarrow> 'a pipe \<Rightarrow> bool" where
  "shown dec c0 l w r f b s \<longleftrightarrow> (\<exists>ph. refined (l, ph, w)) \<and> pipe_inv dec c0 s \<and> (\<exists>pss. tracked l w r s pss)
     \<and> pflush s = f \<and> pbuf s = b \<and> \<not> preturned s \<and> (\<forall>x \<in> set (pflown s). xfate x \<noteq> Some Kept)"

definition flights :: "'a pipe \<Rightarrow> 'a flight list" where
  "flights s = map (\<lambda>x. (xbatch x, xrange x)) (pflown s)"

definition atHand :: "'a flusher \<Rightarrow> bool" where
  "atHand f \<longleftrightarrow> held f = None \<or> frecords f \<noteq> []"

lemma vacant_trans: "vacant l pss a b \<Longrightarrow> vacant l pss b c \<Longrightarrow> b \<le> c \<Longrightarrow> vacant l pss a c"
  unfolding vacant_def by fastforce

text \<open>What is acknowledged lies below the cursor.\<close>

lemma mark_below_cursor:
  assumes "pipe_inv dec c0 s"
  shows "unat (mark (ackT (pbuf s))) + 1 \<le> pcursor s" and "ptruncated s \<le> pcursor s"
proof -
  obtain h where h: "tracks (ackT (pbuf s)) h" "h \<union> openSpans (pflown s) = {..<unat (ffrom (pflush s))}"
    using assms by (auto simp: pipe_inv_def core_def acks_ok_def)
  have "unat (mark (ackT (pbuf s))) \<in> h" using tracks_mark [OF h(1)] by auto
  then have "unat (mark (ackT (pbuf s))) < unat (ffrom (pflush s))" using h(2) by blast
  then show "unat (mark (ackT (pbuf s))) + 1 \<le> pcursor s" using assms by (simp add: pipe_inv_def core_def flush_ok_def)
  then show "ptruncated s \<le> pcursor s" using assms by (simp add: pipe_inv_def)
qed

text \<open>A step of the log is matched by appending to the pipeline, or by a checkpoint and a truncation.\<close>

lemma numbered_sorted: "sorted_wrt (<) (map fst (numbered k xs))"
  by (auto simp: sorted_wrt_iff_nth_less nth_numbered)

lemma log_step:
  fixes s :: "'a pipe"
  assumes st: "tstep (unat (mark (ackT (pbuf s))) + 1) (l, ph, w) (l', ph', w')" and ref: "refined (l, ph, w)"
    and inv: "pipe_inv dec c0 s" and tr: "tracked l w r s pss"
  shows "\<exists>s' pss'. (pstep dec)\<^sup>*\<^sup>* s s' \<and> tracked l' w' r s' pss' \<and> pflush s' = pflush s \<and> pbuf s' = pbuf s \<and> preturned s' = preturned s
     \<and> pflown s' = pflown s"
proof -
  let ?c = "unat (mark (ackT (pbuf s))) + 1" and ?cs = "contents (segs l) pss"
  have h: "segs_hold l w pss" "rd_ok l w pss r" and cur: "unat (rnextLSN r) \<le> seg_end (active l)" "pcursor s \<le> unat (rnextLSN r)"
    and vac: "vacant l pss (pcursor s) (unat (rnextLSN r))"
    and lg: "set ?cs \<subseteq> set (plog s)" "\<forall>e \<in> set (plog s). fst e < ptruncated s \<or> e \<in> set ?cs" "\<forall>e \<in> set (plog s). fst e < seg_end (active l)"
    using tr by (simp_all add: tracked_def)
  have c: "?c \<le> unat (rnextLSN r)" using mark_below_cursor(1) [OF inv] cur(2) by simp
  obtain pss' k ps where h': "segs_hold l' w' pss'" "rd_ok l' w' pss' r"
    and cs: "contents (segs l') pss' = drop k ?cs @ numbered (seg_end (active l)) ps" "seg_end (active l') = seg_end (active l) + length ps"
    and low: "\<forall>e \<in> set (take k ?cs). fst e < ?c" "k = 0 \<or> ps = []"
    using tstep_beside [OF st c ref h] unfolding moved_on_def by blast
  let ?es = "numbered (seg_end (active l)) ps"
  have es: "seg_end (active l) \<le> fst e" "fst e < seg_end (active l')" if "e \<in> set ?es" for e
    using that in_numbered [of "fst e" "snd e"] cs(2) by auto
  have end64: "seg_end (active l') < 2 ^ 64" using segs_hold_active [OF h'(1)] seg_holds_end [OF segs_hold_active [OF h'(1)]] by (simp add: seg_holds_def)
  have cur': "unat (rnextLSN r) \<le> seg_end (active l')" using cur(1) cs(2) by simp
  have vac': "vacant l' pss' (pcursor s) (unat (rnextLSN r))"
    using vac es(1) cur(1) in_set_dropD [of _ k ?cs] unfolding vacant_def cs(1) by fastforce
  show ?thesis
  proof (cases "k = 0")
    case True
    let ?s = "s\<lparr>plog := plog s @ ?es\<rparr>"
    have "pstep dec s ?s"
      using numbered_sorted es lg(3) cur end64 by (intro p_append) (auto, fastforce+)
    moreover have "tracked l' w' r ?s pss'"
      using h' cur' cur(2) vac' lg es cs True unfolding tracked_def by fastforce
    ultimately show ?thesis by (intro exI [of _ ?s] exI [of _ pss']) auto
  next
    case False
    then have ps: "ps = []" using low(2) by simp
    let ?s1 = "s\<lparr>pcheckpoint := unat (mark (ackT (pbuf s)))\<rparr>"
    let ?s = "?s1\<lparr>ptruncated := max (ptruncated ?s1) ?c\<rparr>"
    have "pstep dec s ?s1" "pstep dec ?s1 ?s" using p_checkpoint [of dec s] p_truncate [of ?c ?s1 dec] by auto
    then have steps: "(pstep dec)\<^sup>*\<^sup>* s ?s" by (meson converse_rtranclp_into_rtranclp rtranclp.rtrancl_refl)
    have "e \<in> set (take k ?cs) \<or> e \<in> set (drop k ?cs)" if "e \<in> set ?cs" for e using that by (metis append_take_drop_id set_append Un_iff)
    then have "\<forall>e \<in> set (plog s). fst e < max (ptruncated s) ?c \<or> e \<in> set (contents (segs l') pss')"
      using lg(2) low(1) unfolding cs(1) ps by fastforce
    moreover have "set (contents (segs l') pss') \<subseteq> set (plog s)" using lg(1) in_set_dropD [of _ k ?cs] unfolding cs(1) ps by auto
    ultimately have "tracked l' w' r ?s pss'"
      using h' cur' cur(2) vac' lg(3) cs(2) ps unfolding tracked_def by simp
    then show ?thesis using steps by (intro exI [of _ ?s] exI [of _ pss']) simp
  qed
qed

lemma shown_other:
  assumes "shown dec c0 l w r f b s" and "ackT b' = ackT b"
  shows "pstep dec s (s\<lparr>pbuf := b'\<rparr>) \<and> shown dec c0 l w r f b' (s\<lparr>pbuf := b'\<rparr>)"
proof -
  have st: "pstep dec s (s\<lparr>pbuf := b'\<rparr>)" using assms by (intro p_other) (simp add: shown_def)
  have "pipe_inv dec c0 s" using assms(1) by (simp add: shown_def)
  from pipeline.step_inv [OF this st] have "pipe_inv dec c0 (s\<lparr>pbuf := b'\<rparr>)" .
  then show ?thesis using st assms(1) by (simp add: shown_def tracked_def)
qed

text \<open>A delivery that ends is a step of the pipeline: its range is that of one flight, which has not ended.\<close>

lemma unacked_open:
  assumes "acks_ok b xs from" and "x \<in> set xs" and "unacked (xrange x) b"
  shows "isOpen x"
proof -
  obtain h where h: "tracks (ackT b) h" "span (xrange x) \<inter> h = {}" using assms(3) by (auto simp: unacked_def)
  obtain g where g: "tracks (ackT b) g" "g \<union> openSpans xs = {..<unat from}" using assms(1) by (auto simp: acks_ok_def)
  have rx: "range_ok (xrange x)" "rangeTo (xrange x) < from" using assms(1,2) by (auto simp: acks_ok_def)
  have "g = h" using h(1) g(1) by (simp add: tracks_def)
  have "unat (rangeFrom (xrange x)) \<in> span (xrange x)" using rx(1) by (simp add: span_def range_ok_def word_le_nat_alt)
  moreover from this have "unat (rangeFrom (xrange x)) < unat from" using rx by (auto simp: span_def word_less_nat_alt)
  ultimately have "unat (rangeFrom (xrange x)) \<in> openSpans xs" using g(2) h(2) \<open>g = h\<close> by blast
  then obtain y where y: "y \<in> set xs" "isOpen y" "unat (rangeFrom (xrange x)) \<in> span (xrange y)" by (auto simp: openSpans_def)
  obtain us vs where xs: "xs = us @ x # vs" using assms(2) by (meson split_list)
  have "span (xrange x) \<inter> openSpans (us @ vs) = {}" using assms(1) xs by (intro spans_apart) (auto simp: acks_ok_def)
  then have "y \<notin> set us \<and> y \<notin> set vs" using y \<open>unat (rangeFrom (xrange x)) \<in> span (xrange x)\<close> by (auto simp: openSpans_def)
  then show ?thesis using y(1,2) xs by auto
qed

lemma shown_move:
  assumes sh: "shown dec c0 l w r f b s" and mv: "bufMove (flights s) b b'"
  shows "\<exists>s'. pstep dec s s' \<and> shown dec c0 l w r f b' s' \<and> flights s' = flights s"
proof (cases "ackT b' = ackT b")
  case True
  from shown_other [OF sh this] show ?thesis by (intro exI [of _ "s\<lparr>pbuf := b'\<rparr>"]) (simp add: flights_def)
next
  case False
  have inv: "pipe_inv dec c0 s" and f: "pbuf s = b" and nk: "\<forall>x \<in> set (pflown s). xfate x \<noteq> Some Kept" using sh by (simp_all add: shown_def)
  obtain x where x: "x \<in> set (pflown s)" "unacked (xrange x) b" "ackT b' = ackT (completeRange (xrange x) b)"
    using mv False by (auto simp: bufMove_def flights_def)
  have "acks_ok b (pflown s) (ffrom (pflush s))" using inv f by (simp add: pipe_inv_def core_def)
  from unacked_open [OF this x(1,2)] have fate: "xfate x = None" using nk x(1) by (auto simp: isOpen_def)
  obtain us vs where xs: "pflown s = us @ x # vs" using x(1) by (meson split_list)
  let ?s = "s\<lparr>pbuf := b', pflown := us @ x\<lparr>xfate := Some Delivered\<rparr> # vs\<rparr>"
  have st: "pstep dec s ?s" using x(3) f by (intro p_end [OF xs fate]) simp
  have "\<forall>x \<in> set (pflown ?s). xfate x \<noteq> Some Kept" using nk xs by simp
  then have "shown dec c0 l w r f b' ?s" using sh pipeline.step_inv [OF inv st] by (simp add: shown_def tracked_def)
  then show ?thesis using st xs by (intro exI [of _ ?s]) (simp add: flights_def)
qed

lemma shown_log:
  assumes sh: "shown dec c0 l w r f b s" and ph: "refined (l, ph, w)" "tstep (unat (mark (ackT b)) + 1) (l, ph, w) (l', ph', w')"
  shows "\<exists>s'. (pstep dec)\<^sup>*\<^sup>* s s' \<and> shown dec c0 l' w' r f b s' \<and> flights s' = flights s"
proof -
  have inv: "pipe_inv dec c0 s" and f: "pflush s = f" "pbuf s = b" "\<not> preturned s" using sh by (simp_all add: shown_def)
  obtain pss where tr: "tracked l w r s pss" using sh by (auto simp: shown_def)
  from log_step [OF ph(2) [folded f(2)] ph(1) inv tr] obtain s1 pss1 where s1: "(pstep dec)\<^sup>*\<^sup>* s s1" "tracked l' w' r s1 pss1"
      "pflush s1 = pflush s" "pbuf s1 = pbuf s" "preturned s1 = preturned s" "pflown s1 = pflown s" by blast
  have "refined (l', ph', w')" using refined.step_inv [OF ph(1) tstep_lstep [OF ph(2)]] .
  then have "shown dec c0 l' w' r f b s1" using s1 f sh pipeline.steps_inv [OF s1(1) inv] unfolding shown_def by auto
  then show ?thesis using s1(1,6) by (auto simp: flights_def)
qed

lemma shown_steps:
  assumes "(ostep (flights s))\<^sup>*\<^sup>* (b, l, w) (b', l', w')" and sh: "shown dec c0 l w r f b s"
  shows "\<exists>s'. (pstep dec)\<^sup>*\<^sup>* s s' \<and> shown dec c0 l' w' r f b' s' \<and> flights s' = flights s"
  using assms(1)
proof (induction "(b', l', w')" arbitrary: b' l' w' rule: rtranclp_induct)
  case base
  then show ?case using sh by blast
next
  case (step y)
  obtain b1 l1 w1 where y: "y = (b1, l1, w1)" by (metis prod_cases3)
  from step.hyps(3) [OF y] obtain s1 where s1: "(pstep dec)\<^sup>*\<^sup>* s s1" "shown dec c0 l1 w1 r f b1 s1" "flights s1 = flights s" by blast
  from step.hyps(2) obtain s2 where "(pstep dec)\<^sup>*\<^sup>* s1 s2" "shown dec c0 l' w' r f b' s2" "flights s2 = flights s1"
    unfolding y
  proof cases
    case o_buf
    then show ?thesis using shown_move [OF s1(2)] s1(3) that by (metis r_into_rtranclp)
  next
    case (o_log ph ph')
    then show ?thesis using shown_log [OF s1(2)] that by blast
  qed
  then show ?case using s1 by (metis rtranclp_trans)
qed

lemma shown_env:
  assumes sh: "shown dec c0 l w r f b s" and fe: "fairEnv (flights s) env" and e: "env b l w = (b', l', w')"
  shows "\<exists>s'. (pstep dec)\<^sup>*\<^sup>* s s' \<and> shown dec c0 l' w' r f b' s' \<and> flights s' = flights s"
proof -
  have "\<exists>ph. refined (l, ph, w)" using sh by (simp add: shown_def)
  then have "(ostep (flights s))\<^sup>*\<^sup>* (b, l, w) (b', l', w')" using fe e unfolding fairEnv_def by metis
  from shown_steps [OF this sh] show ?thesis .
qed

text \<open>A call of the reader that returns nothing may step over a gap.\<close>

lemma tracked_limits: "shown dec c0 l w r f b s \<Longrightarrow> limit_ok (maxRecord l) \<and> 0 \<le> MaxRecordBytes (opts l)"
  using refined_limits by (auto simp: shown_def)

lemma shown_idle_read:
  assumes sh: "shown dec c0 l w r f b s" and rd: "readerNext l r w = (Inl x, r', w')"
  shows "shown dec c0 l w' r' f b s"
proof -
  obtain pss where tr: "tracked l w r s pss" using sh by (auto simp: shown_def)
  have h: "segs_hold l w pss" "rd_ok l w pss r" using tr by (simp_all add: tracked_def)
  note nx = readerNext_ok [OF h(1) conjunct1 [OF tracked_limits [OF sh]] conjunct2 [OF tracked_limits [OF sh]] h(2) rd]
  have v: "vacant l pss (unat (rnextLSN r)) (unat (rnextLSN r'))" "unat (rnextLSN r) \<le> unat (rnextLSN r')" "reads w w'" "rd_ok l w' pss r'"
      "rnextLSN r' = rnextLSN r \<or> rnextLSN r' \<in> baseLSN ` set (segs l)"
    using nx by auto
  have "unat (rnextLSN r') \<le> seg_end (active l)" using v(5) tr bases_below_end [OF h(1)] by (auto simp: tracked_def)
  moreover have "vacant l pss (pcursor s) (unat (rnextLSN r'))" using tr vacant_trans [OF _ v(1,2)] by (simp add: tracked_def)
  ultimately have "tracked l w' r' s pss" using tr v segs_hold_reads [OF v(3)] unfolding tracked_def by auto
  then show ?thesis using sh refined_reads [OF _ v(3)] unfolding shown_def by blast
qed

text \<open>One read is one step.\<close>

lemma read_step:
  assumes sh: "shown dec c0 l w r f b s" and at: "atHand f" "\<not> cut f" "fstop f = None"
    and rd: "readerNext l r w = (Inr (n, p), r', w')" and t: "takeRecord dec n p f b = (f', b')"
  shows "\<exists>s'. pstep dec s s' \<and> shown dec c0 l w' r' f' b' s' \<and> pflown s' = pflown s"
proof -
  have inv: "pipe_inv dec c0 s" and fs: "pflush s = f" "pbuf s = b" "\<not> preturned s" "\<forall>x \<in> set (pflown s). xfate x \<noteq> Some Kept"
    using sh by (simp_all add: shown_def)
  obtain pss where tr: "tracked l w r s pss" using sh by (auto simp: shown_def)
  let ?cs = "contents (segs l) pss"
  have h: "segs_hold l w pss" "rd_ok l w pss r" and v: "pcursor s \<le> unat (rnextLSN r)" "vacant l pss (pcursor s) (unat (rnextLSN r))"
    and lg: "set ?cs \<subseteq> set (plog s)" "\<forall>e \<in> set (plog s). fst e < ptruncated s \<or> e \<in> set ?cs" "\<forall>e \<in> set (plog s). fst e < seg_end (active l)"
    using tr by (simp_all add: tracked_def)
  have lim: "limit_ok (maxRecord l)" "0 \<le> MaxRecordBytes (opts l)" using tracked_limits [OF sh] by simp_all
  have n: "(unat n, p) \<in> set ?cs" "unat (rnextLSN r) \<le> unat n" "vacant l pss (unat (rnextLSN r)) (unat n)"
      "unat (rnextLSN r') = unat n + 1" "reads w w'" "rd_ok l w' pss r'"
    using readerNext_ok [OF h(1) lim h(2) rd] by auto
  have gap: "\<forall>e \<in> set (plog s). fst e < pcursor s \<or> unat n \<le> fst e"
    using vacant_trans [OF v(2) n(3,2)] lg(2) mark_below_cursor(2) [OF inv] unfolding vacant_def by (meson less_le_trans)
  let ?s = "s\<lparr>pflush := f', pbuf := b', pcursor := unat n + 1,
      pskipped := (if skips dec (of_nat (unat n)) p (pbuf s) then insert (unat n) (pskipped s) else pskipped s)\<rparr>"
  have st: "pstep dec s ?s"
    using fs at n t v gap lg(1) by (intro p_read) (auto simp: atHand_def)
  have "unat (rnextLSN r') \<le> seg_end (active l)" using n(1,4) lg(1,3) by fastforce
  then have "tracked l w' r' ?s pss"
    using tr n segs_hold_reads [OF n(5)] unfolding tracked_def by simp
  moreover have "pipe_inv dec c0 ?s" using pipeline.step_inv [OF inv st] .
  moreover have "\<exists>ph. refined (l, ph, w')" using sh refined_reads [OF _ n(5)] by (auto simp: shown_def)
  ultimately have "shown dec c0 l w' r' f' b' ?s" using fs unfolding shown_def by auto
  then show ?thesis using st by (intro exI [of _ ?s]) simp
qed

lemma takeRecord_atHand:
  assumes "takeRecord dec lsn p f b = (f', b')" and "atHand f"
  shows "atHand f'"
  using assms by (auto simp: takeRecord_def atHand_def skipRecord_def addRecord_def startBatch_def Let_def
      split: if_splits sum.splits prod.splits decodeAction.splits)

lemma takeHeld_atHand: "takeHeld f b = (f', b') \<Longrightarrow> atHand f'"
  by (auto simp: takeHeld_def atHand_def split: option.splits if_splits prod.splits)

lemma takeHeld_stop: "takeHeld f b = (f', b') \<Longrightarrow> fstop f' = fstop f"
  by (auto simp: takeHeld_def startBatch_def split: option.splits if_splits prod.splits)

lemma fillBatch_steps:
  assumes "shown dec c0 l w r f b s" and "atHand f" and "\<forall>env \<in> set envs. fairEnv (flights s) env"
    and "fillBatch envs dec f r b l w = Some (go, f', r', b', l', w')"
  shows "\<exists>s'. (pstep dec)\<^sup>*\<^sup>* s s' \<and> shown dec c0 l' w' r' f' b' s' \<and> flights s' = flights s \<and> atHand f'"
  using assms
proof (induction envs arbitrary: f r b l w s)
  case Nil
  then show ?case by (auto simp: fillBatch.simps split: if_splits)
next
  case (Cons env rest)
  show ?case
  proof (cases "cut f \<or> isFull f b \<or> fstop f \<noteq> None")
    case True
    then show ?thesis using Cons.prems by (auto simp: fillBatch.simps)
  next
    case False
    obtain b0 l0 w0 where e: "env b l w = (b0, l0, w0)" by (metis prod_cases3)
    have "fairEnv (flights s) env" using Cons.prems(3) by simp
    from shown_env [OF Cons.prems(1) this e] obtain s0 where s0: "(pstep dec)\<^sup>*\<^sup>* s s0" "shown dec c0 l0 w0 r f b0 s0" "flights s0 = flights s" by blast
    obtain res r1 w1 where rd: "readerNext l0 r w0 = (res, r1, w1)" by (metis prod_cases3)
    show ?thesis
    proof (cases res)
      case (Inl x)
      have s1: "shown dec c0 l0 w1 r1 f b0 s0" using shown_idle_read [OF s0(2)] rd Inl by blast
      have res: "f' = f" "r' = r1" "l' = l0" "w' = w1" "b' = b0 \<or> b' = bufFail (Wrap ''batch: read log'' [x]) b0"
        using Cons.prems(4) False e rd Inl by (auto simp: fillBatch.simps split: if_splits)
      then have "ackT b' = ackT b0" by (auto simp: bufFail_def)
      from shown_other [OF s1 this] s0(1,3) res Cons.prems(2) show ?thesis
        by (intro exI [of _ "s0\<lparr>pbuf := b'\<rparr>"]) (auto simp: flights_def)
    next
      case (Inr y)
      obtain n p where y: "y = (n, p)" by (cases y) auto
      obtain f1 b1 where t: "takeRecord dec n p f b0 = (f1, b1)" by (meson surj_pair)
      have go: "\<not> cut f" "fstop f = None" using False by blast+
      obtain s1 where s1: "pstep dec s0 s1" "shown dec c0 l0 w1 r1 f1 b1 s1" "flights s1 = flights s"
        using read_step [OF s0(2) Cons.prems(2) go rd [unfolded Inr y] t] s0(3) by (auto simp: flights_def)
      have "fillBatch rest dec f1 r1 b1 l0 w1 = Some (go, f', r', b', l', w')"
        using Cons.prems(4) False e rd Inr y t by (simp add: fillBatch.simps)
      from Cons.IH [OF s1(2) takeRecord_atHand [OF t Cons.prems(2)] _ this] Cons.prems(3) s1(3)
      obtain s' where "(pstep dec)\<^sup>*\<^sup>* s1 s'" "shown dec c0 l' w' r' f' b' s'" "flights s' = flights s1" "atHand f'" by auto
      moreover from this(1) have "(pstep dec)\<^sup>*\<^sup>* s s'" using s0(1) s1(1) by (meson converse_rtranclp_into_rtranclp rtranclp_trans)
      ultimately show ?thesis using s1(3) by (intro exI [of _ s']) simp
    qed
  qed
qed

lemma flusherAct_stop:
  assumes "flusherAct script lid f b = Some (next, fl, b')"
  shows "next = Continue f' \<or> next = Sleep f' \<Longrightarrow> fstop f' = None"
  using assms by (auto simp: flusherAct_def Let_def resetBatch_def resetSkipped_def split: option.splits if_splits prod.splits)

text \<open>At the end, the log and the pipeline agree.\<close>

definition agrees :: "log \<Rightarrow> fs \<Rightarrow> 'a pipe \<Rightarrow> bool" where
  "agrees l w s \<longleftrightarrow> (\<exists>pss. segs_hold l w pss \<and> set (contents (segs l) pss) \<subseteq> set (plog s)
     \<and> (\<forall>e \<in> set (plog s). fst e < ptruncated s \<or> e \<in> set (contents (segs l) pss)))"

lemma shown_agrees: "shown dec c0 l w r f b s \<Longrightarrow> agrees l w s"
  by (auto simp: shown_def tracked_def agrees_def)

lemma act_step:
  assumes sh: "shown dec c0 l w r f b s" and at: "atHand f" and q: "\<forall>b. ackT (fst script b) = ackT b"
    and act: "flusherAct script lid f b = Some (next, fl, b')"
  shows "\<exists>s'. pstep dec s s' \<and> pbuf s' = b' \<and> flights s' = flights s @ sentOf fl \<and> agrees l w s'
     \<and> (next \<noteq> Return \<longrightarrow> shown dec c0 l w r (goesOn f next fl) b' s')"
proof -
  let ?s = "s\<lparr>pflush := goesOn (pflush s) next fl, pbuf := b', preturned := (next = Return),
          pflown := pflown s @ (case fl of None \<Rightarrow> [] | Some (bt, p) \<Rightarrow> [\<lparr>xbatch = bt, xrange = p, xfate = None\<rparr>])\<rparr>"
  have st: "pstep dec s ?s" using sh at q act by (intro p_act) (auto simp: shown_def atHand_def)
  moreover have "flights ?s = flights s @ sentOf fl"
    by (auto simp: flights_def split: option.splits)
  moreover have "pipe_inv dec c0 ?s" using sh pipeline.step_inv [OF _ st] by (simp add: shown_def)
  moreover have "agrees l w ?s" using shown_agrees [OF sh] by (simp add: agrees_def)
  moreover have "\<forall>x \<in> set (pflown ?s). xfate x \<noteq> Some Kept" using sh by (auto simp: shown_def split: option.splits)
  ultimately show ?thesis using sh by (intro exI [of _ ?s]) (auto simp: shown_def tracked_def)
qed

text \<open>
  While a batch waits for a slot, deliveries may end. They may as well end before the flusher acts, for it looks at nothing else of the buffer in between:
  with the tracker they leave behind, it acts in the same way, and nothing is acknowledged while it waits.
\<close>

definition settledFor :: "bufEnv \<times> bool \<Rightarrow> buf \<Rightarrow> bufEnv \<times> bool" where
  "settledFor script b = ((\<lambda>c. if ackT c = ackT (fst script b) then fst script b else c), snd script)"

lemma dispatch_settled:
  assumes "ackT c = ackT (fst script b)"
  shows "dispatch (settledFor script b) lid rs p c = dispatch script lid rs p b"
  using assms by (cases script) (simp add: dispatch_def settledFor_def)

definition waits :: "'a flusher \<Rightarrow> buf \<Rightarrow> bool" where
  "waits f b \<longleftrightarrow> frecords f \<noteq> [] \<and> (fstop f \<noteq> None \<or> isFull f b \<or> forceFlush b \<or> expired f \<or> draining f \<or> cut f)"

text \<open>The buffer in which the wait starts.\<close>

definition waitBuf :: "'a flusher \<Rightarrow> buf \<Rightarrow> buf" where
  "waitBuf f b = (if fstop f = None then b\<lparr>forceFlush := False\<rparr> else b)"

lemma flusherAct_settled:
  assumes "waits f b" and "t = ackT (fst script (waitBuf f b))"
  shows "flusherAct (settledFor script (waitBuf f b)) lid f (b\<lparr>ackT := t\<rparr>) = flusherAct script lid f b"
proof -
  have d: "dispatch (settledFor script (waitBuf f b)) lid rs p c = dispatch script lid rs p (waitBuf f b)" if "ackT c = t" for rs :: "'a list" and p c
    using dispatch_settled that assms(2) by blast
  show ?thesis
  proof (cases "fstop f")
    case None
    let ?f = "if forceFlush b then f\<lparr>expired := True\<rparr> else f"
    have "frecords ?f \<noteq> [] \<and> (isFull ?f c \<or> expired ?f \<or> draining ?f \<or> cut ?f)" if "cfg c = cfg b" for c
      using assms(1) None that by (simp add: waits_def isFull_def) argo
    then show ?thesis using None d [of "b\<lparr>ackT := t, forceFlush := False\<rparr>"]
      by (simp add: flusherAct_def Let_def waitBuf_def del: if_split)
  next
    case (Some x)
    have "waitBuf f b = b" "frecords f \<noteq> []" using assms(1) Some by (simp_all add: waitBuf_def waits_def)
    then show ?thesis using Some d [of "b\<lparr>ackT := t\<rparr>"] by (cases x) (simp add: flusherAct_def stopFlusher_def)
  qed
qed

lemma flusherAct_still:
  assumes "\<not> waits f b"
  shows "flusherAct script lid f b = flusherAct (id, False) lid f b"
proof (cases "fstop f")
  case None
  let ?f = "if forceFlush b then f\<lparr>expired := True\<rparr> else f"
  have "\<not> (frecords ?f \<noteq> [] \<and> (isFull ?f (b\<lparr>forceFlush := False\<rparr>) \<or> expired ?f \<or> draining ?f \<or> cut ?f))"
    using assms None by (simp add: waits_def isFull_def) argo
  then show ?thesis using None by (simp only: flusherAct_def Let_def option.case if_False)
next
  case (Some x)
  then have "frecords f = []" using assms by (simp add: waits_def)
  then show ?thesis using Some by (simp add: flusherAct_def stopFlusher_def)
qed

lemma moves_ackT: "(bufMove fls)\<^sup>*\<^sup>* b b' \<Longrightarrow> ackT c = ackT b \<Longrightarrow> (bufMove fls)\<^sup>*\<^sup>* c (c\<lparr>ackT := ackT b'\<rparr>)"
proof (induction rule: rtranclp_induct)
  case base
  then have "c\<lparr>ackT := ackT b\<rparr> = c" by (cases c) simp
  then show ?case by simp
next
  case (step y z)
  have "bufMove fls (c\<lparr>ackT := ackT y\<rparr>) (c\<lparr>ackT := ackT z\<rparr>)"
    using step.hyps(2) by (auto simp: bufMove_def unacked_def completeRange_def)
  then show ?case using step by (meson rtranclp.rtrancl_into_rtrancl)
qed

lemma shown_moves:
  assumes "(bufMove (flights s))\<^sup>*\<^sup>* b b'" and sh: "shown dec c0 l w r f b s"
  shows "\<exists>s'. (pstep dec)\<^sup>*\<^sup>* s s' \<and> shown dec c0 l w r f b' s' \<and> flights s' = flights s"
proof -
  have "(ostep (flights s))\<^sup>*\<^sup>* (b, l, w) (b', l, w)"
    using assms(1) by (induction rule: rtranclp_induct) (auto intro: o_buf rtranclp.rtrancl_into_rtrancl)
  from shown_steps [OF this sh] show ?thesis .
qed

lemma act_steps:
  assumes sh: "shown dec c0 l w r f b s" and at: "atHand f" and q: "\<forall>b. (bufMove (flights s))\<^sup>*\<^sup>* b (fst script b)"
    and act: "flusherAct script lid f b = Some (next, fl, b')"
  shows "\<exists>s'. (pstep dec)\<^sup>*\<^sup>* s s' \<and> pbuf s' = b' \<and> flights s' = flights s @ sentOf fl \<and> agrees l w s'
     \<and> (next \<noteq> Return \<longrightarrow> shown dec c0 l w r (goesOn f next fl) b' s')"
proof (cases "waits f b")
  case True
  let ?c = "waitBuf f b"
  let ?t = "ackT (fst script ?c)"
  have "(bufMove (flights s))\<^sup>*\<^sup>* b (b\<lparr>ackT := ?t\<rparr>)"
    using q by (intro moves_ackT [of _ ?c]) (simp_all add: waitBuf_def)
  from shown_moves [OF this sh] obtain s1 where s1: "(pstep dec)\<^sup>*\<^sup>* s s1" "shown dec c0 l w r f (b\<lparr>ackT := ?t\<rparr>) s1" "flights s1 = flights s" by blast
  have "\<forall>b. ackT (fst (settledFor script ?c) b) = ackT b" by (simp add: settledFor_def)
  from act_step [OF s1(2) at this, of lid "next" fl b'] obtain s' where "pstep dec s1 s'" "pbuf s' = b'" "flights s' = flights s1 @ sentOf fl" "agrees l w s'"
     "next \<noteq> Return \<longrightarrow> shown dec c0 l w r (goesOn f next fl) b' s'"
    using act flusherAct_settled [OF True refl, of script lid] by auto
  then show ?thesis using s1 by (metis rtranclp.rtrancl_into_rtrancl)
next
  case False
  from act_step [OF sh at, of "(id, False)" lid "next" fl b'] show ?thesis
    using act flusherAct_still [OF False, of script lid] by auto
qed

text \<open>The part of a turn before the flusher acts, and the part in which it sleeps.\<close>

lemma fill_steps:
  assumes "shown dec c0 l w r f b s" and "fstop f = None" and "\<forall>e \<in> set envs. fairEnv (flights s) e"
    and "takeHeld f b = (f1, b1)" and "fillBatch envs dec f1 r b1 l w = Some (go, f2, r2, b2, l2, w2)"
  shows "\<exists>s'. (pstep dec)\<^sup>*\<^sup>* s s' \<and> shown dec c0 l2 w2 r2 f2 b2 s' \<and> flights s' = flights s \<and> atHand f2"
proof -
  let ?s1 = "s\<lparr>pflush := f1, pbuf := b1\<rparr>"
  have p: "pstep dec s ?s1" using assms(1,2,4) by (intro p_held) (auto simp: shown_def)
  have "pipe_inv dec c0 s" using assms(1) by (simp add: shown_def)
  from pipeline.step_inv [OF this p] have s1: "shown dec c0 l w r f1 b1 ?s1" using assms(1) by (simp add: shown_def tracked_def)
  have fl: "flights ?s1 = flights s" by (simp add: flights_def)
  from fillBatch_steps [OF s1 takeHeld_atHand [OF assms(4)] _ assms(5)] assms(3) fl obtain s' where
    "(pstep dec)\<^sup>*\<^sup>* ?s1 s'" "shown dec c0 l2 w2 r2 f2 b2 s'" "flights s' = flights s" "atHand f2" by auto
  moreover from this(1) have "(pstep dec)\<^sup>*\<^sup>* s s'" using p by (meson converse_rtranclp_into_rtranclp)
  ultimately show ?thesis by auto
qed

lemma sleep_steps:
  assumes "shown dec c0 l w r f b s" and "fairEnv (flights s) env" and "env b l w = (b1, l1, w1)" and "wakeUp sel f b1 = Some (nf, b2)"
  shows "\<exists>s'. (pstep dec)\<^sup>*\<^sup>* s s' \<and> pbuf s' = b2 \<and> flights s' = flights s \<and> agrees l1 w1 s' \<and> (\<forall>f'. nf = Some f' \<longrightarrow> shown dec c0 l1 w1 r f' b2 s')"
proof -
  from shown_env [OF assms(1-3)] obtain s1 where s1: "(pstep dec)\<^sup>*\<^sup>* s s1" "shown dec c0 l1 w1 r f b1 s1" "flights s1 = flights s"
    by blast
  show ?thesis
  proof (cases nf)
    case None
    then have "b2 = b1" using assms(4) by (auto simp: wakeUp_def split: flusherSelect.splits if_splits)
    then show ?thesis using s1 None shown_agrees [OF s1(2)] by (intro exI [of _ s1]) (auto simp: shown_def)
  next
    case (Some f')
    let ?s2 = "s1\<lparr>pflush := f', pbuf := b2\<rparr>"
    have p: "pstep dec s1 ?s2" using assms(4) Some s1(2) by (intro p_wake [of sel]) (simp add: shown_def)
    have "pipe_inv dec c0 s1" using s1(2) by (simp add: shown_def)
    from pipeline.step_inv [OF this p] have sh: "shown dec c0 l1 w1 r f' b2 ?s2" using s1(2) by (simp add: shown_def tracked_def)
    then show ?thesis using Some s1(1,3) p shown_agrees [OF sh] by (intro exI [of _ ?s2]) (auto simp: flights_def)
  qed
qed

text \<open>Where a turn leads: the flusher returns, or goes on in a state of the pipeline.\<close>

definition ended :: "'a pipe \<Rightarrow> 'a pipe \<Rightarrow> 'a flight list \<Rightarrow> buf \<Rightarrow> log \<Rightarrow> fs \<Rightarrow> bool" where
  "ended s s1 fls b l w \<longleftrightarrow> pbuf s1 = b \<and> flights s1 = flights s @ fls \<and> agrees l w s1"

definition leads :: "(bytes \<Rightarrow> (error + 'a) outcome) \<Rightarrow> nat \<Rightarrow> ('a flight list \<times> 'a flusher \<times> reader \<times> buf \<times> log \<times> fs) option \<Rightarrow> 'a pipe
    \<Rightarrow> 'a flight list \<times> reader \<times> buf \<times> log \<times> fs \<Rightarrow> bool" where
  "leads dec c0 on s res \<longleftrightarrow> (\<exists>s1. (pstep dec)\<^sup>*\<^sup>* s s1 \<and> (case on of
      None \<Rightarrow> (case res of (fls, r', b', l', w') \<Rightarrow> ended s s1 fls b' l' w')
    | Some (fl, f1, r1, b1, l1, w1) \<Rightarrow> flights s1 = flights s @ fl \<and> shown dec c0 l1 w1 r1 f1 b1 s1 \<and> fstop f1 = None))"

lemma leads_ended: "(pstep dec)\<^sup>*\<^sup>* s s1 \<Longrightarrow> ended s s1 fls b l w \<Longrightarrow> leads dec c0 None s (fls, r, b, l, w)"
  unfolding leads_def by auto

lemma leads_on:
  "(pstep dec)\<^sup>*\<^sup>* s s1 \<Longrightarrow> flights s1 = flights s @ fl \<Longrightarrow> shown dec c0 l1 w1 r1 f1 b1 s1 \<Longrightarrow> fstop f1 = None
   \<Longrightarrow> leads dec c0 (Some (fl, f1, r1, b1, l1, w1)) s res"
  unfolding leads_def by auto

lemma leads_before:
  assumes "(pstep dec)\<^sup>*\<^sup>* s s0" and "flights s0 = flights s" and "leads dec c0 on s0 res"
  shows "leads dec c0 on s res"
proof -
  have e: "ended s0 = ended s" using assms(2) by (simp add: ended_def fun_eq_iff)
  obtain s1 where s1: "(pstep dec)\<^sup>*\<^sup>* s0 s1" "case on of None \<Rightarrow> (case res of (fls, r', b', l', w') \<Rightarrow> ended s0 s1 fls b' l' w')
    | Some (fl, f1, r1, b1, l1, w1) \<Rightarrow> flights s1 = flights s0 @ fl \<and> shown dec c0 l1 w1 r1 f1 b1 s1 \<and> fstop f1 = None"
    using assms(3) unfolding leads_def by blast
  show ?thesis using rtranclp_trans [OF assms(1) s1(1)] s1(2) unfolding leads_def e assms(2) by blast
qed

lemma shown_ended:
  assumes "shown dec c0 l w r f b s1" and "flights s1 = flights s"
  shows "ended s s1 [] b l w"
  using assms(2) shown_agrees [OF assms(1)] assms(1) by (simp add: ended_def shown_def)

lemma act_leads:
  assumes sh: "shown dec c0 l w r f b s" and at: "atHand f" and ft: "fairTurn (flights s) t"
    and act: "flusherAct (ftSend t) (logID l) f b = Some (nx, fl, b1)"
    and rest: "(case nx of Return \<Rightarrow> Some (sentOf fl, r, b1, l, w)
      | Continue f3 \<Rightarrow> map_option (map_prod (append (sentOf fl)) id) (flusherLoop ts dec f3 r b1 l w)
      | Sleep f3 \<Rightarrow> (case ftSleep t b1 l w of (b4, l4, w4) \<Rightarrow> case wakeUp (ftSelect t) f3 b4 of None \<Rightarrow> None
          | Some (None, b5) \<Rightarrow> Some (sentOf fl, r, b5, l4, w4)
          | Some (Some f5, b5) \<Rightarrow> map_option (map_prod (append (sentOf fl)) id) (flusherLoop ts dec f5 r b5 l4 w4))) = Some res"
    and on: "on = (case nx of Return \<Rightarrow> None | Continue f3 \<Rightarrow> Some (sentOf fl, f3, r, b1, l, w)
      | Sleep f3 \<Rightarrow> (case ftSleep t b1 l w of (b4, l4, w4) \<Rightarrow> case wakeUp (ftSelect t) f3 b4 of
            Some (Some f5, b5) \<Rightarrow> Some (sentOf fl, f5, r, b5, l4, w4) | _ \<Rightarrow> None))"
  shows "leads dec c0 on s res"
proof -
  have qs: "fairEnv (flights s) (ftSleep t)" "\<forall>b. (bufMove (flights s))\<^sup>*\<^sup>* b (fst (ftSend t) b)" using ft by (simp_all add: fairTurn_def)
  from act_steps [OF sh at qs(2) act] obtain s3 where
    s3: "(pstep dec)\<^sup>*\<^sup>* s s3" "pbuf s3 = b1" "flights s3 = flights s @ sentOf fl" "agrees l w s3" "nx \<noteq> Return \<longrightarrow> shown dec c0 l w r (goesOn f nx fl) b1 s3"
    by blast
  show ?thesis
  proof (cases nx)
    case Return
    then show ?thesis using rest on s3 by (auto simp: ended_def intro: leads_ended)
  next
    case (Continue f3)
    have "fstop f3 = None" using flusherAct_stop [OF act] Continue by blast
    then show ?thesis using on s3 Continue by (auto simp: goesOn_def intro: leads_on [OF s3(1,3)])
  next
    case (Sleep f3)
    have fl: "fl = None" using act Sleep by (auto simp: flusherAct_def Let_def split: option.splits if_splits prod.splits)
    have sl: "shown dec c0 l w r f3 b1 s3" using s3(5) Sleep by (simp add: goesOn_def)
    obtain b4 l4 w4 where e4: "ftSleep t b1 l w = (b4, l4, w4)" by (metis prod_cases3)
    obtain nf b5 where wk: "wakeUp (ftSelect t) f3 b4 = Some (nf, b5)" using rest Sleep e4 by (auto split: option.splits)
    have fe: "fairEnv (flights s3) (ftSleep t)" using qs(1) s3(3) fl by simp
    from sleep_steps [OF sl fe e4 wk] obtain s5 where
      s5: "(pstep dec)\<^sup>*\<^sup>* s s5" "pbuf s5 = b5" "flights s5 = flights s @ sentOf fl" "agrees l4 w4 s5"
        "\<forall>f'. nf = Some f' \<longrightarrow> shown dec c0 l4 w4 r f' b5 s5"
      using s3(1,3) by (metis rtranclp_trans)
    show ?thesis
    proof (cases nf)
      case None
      then show ?thesis using rest on Sleep e4 wk s5 by (auto simp: ended_def intro: leads_ended)
    next
      case (Some f5)
      have "fstop f5 = None"
        using flusherAct_stop [OF act] Sleep wakeUp_alike(1) [of "ftSelect t" f3 b4 f5 b5] wk Some by (simp add: alike_def)
      then show ?thesis using on Sleep e4 wk Some s5 by (auto intro: leads_on [OF s5(1,3)])
    qed
  qed
qed

lemma turn_steps:
  assumes sh: "shown dec c0 l w r f b s" and st: "fstop f = None" and ft: "fairTurn (flights s) t"
    and loop: "flusherLoop (t # ts) dec f r b l w = Some res"
  shows "leads dec c0 (turnOn t dec f r b l w) s res"
proof -
  obtain b0 l0 w0 where e: "ftBefore t b l w = (b0, l0, w0)" by (metis prod_cases3)
  have qs: "fairEnv (flights s) (ftBefore t)" "\<forall>env \<in> set (ftReads t). fairEnv (flights s) env" using ft by (simp_all add: fairTurn_def)
  from shown_env [OF sh qs(1) e] obtain s0 where s0: "(pstep dec)\<^sup>*\<^sup>* s s0" "shown dec c0 l0 w0 r f b0 s0" "flights s0 = flights s"
    by blast
  show ?thesis
  proof (cases "fatalErr b0 = None")
    case False
    then have "res = ([], r, b0, l0, w0)" "turnOn t dec f r b l w = None" using loop e by (auto simp: turnOn_def)
    then show ?thesis using leads_ended [OF s0(1) shown_ended [OF s0(2,3)]] by metis
  next
    case True
    obtain f1 b1 where th: "takeHeld f b0 = (f1, b1)" by (meson surj_pair)
    obtain go f2 r2 b2 l2 w2 where fill: "fillBatch (ftReads t) dec f1 r b1 l0 w0 = Some (go, f2, r2, b2, l2, w2)"
      using loop e True th by (auto split: option.splits)
    from fill_steps [OF s0(2) st _ th fill] s0 qs(2) obtain s2 where
      s2: "(pstep dec)\<^sup>*\<^sup>* s s2" "shown dec c0 l2 w2 r2 f2 b2 s2" "flights s2 = flights s" "atHand f2" by (metis rtranclp_trans)
    show ?thesis
    proof (cases go)
      case False
      then have "res = ([], r2, b2, l2, w2)" "turnOn t dec f r b l w = None" using loop e True th fill by (auto simp: turnOn_def)
      then show ?thesis using leads_ended [OF s2(1) shown_ended [OF s2(2,3)]] by metis
    next
      case go: True
      obtain nx fl b3 where act: "flusherAct (ftSend t) (logID l2) f2 b2 = Some (nx, fl, b3)"
        using loop e True th fill go by (auto split: option.splits)
      have ft2: "fairTurn (flights s2) t" using ft s2(3) by simp
      have on: "turnOn t dec f r b l w = (case nx of Return \<Rightarrow> None | Continue f3 \<Rightarrow> Some (sentOf fl, f3, r2, b3, l2, w2)
        | Sleep f3 \<Rightarrow> (case ftSleep t b3 l2 w2 of (b4, l4, w4) \<Rightarrow> case wakeUp (ftSelect t) f3 b4 of
            Some (Some f5, b5) \<Rightarrow> Some (sentOf fl, f5, r2, b5, l4, w4) | _ \<Rightarrow> None))"
        using e True th fill go act by (cases nx) (simp_all add: turnOn_def)
      show ?thesis
        by (rule leads_before [OF s2(1,3) act_leads [OF s2(2,4) ft2 act _ on, of ts]])
          (use loop e True th fill go act in \<open>simp add: Let_def\<close>)
    qed
  qed
qed

lemma flusherLoop_steps:
  assumes "shown dec c0 l w r f b s" and "fstop f = None" and "fairTurns ts dec (flights s) f r b l w"
    and "flusherLoop ts dec f r b l w = Some (fls, r', b', l', w')"
  shows "\<exists>s'. (pstep dec)\<^sup>*\<^sup>* s s' \<and> ended s s' fls b' l' w'"
  using assms
proof (induction ts arbitrary: f r b l w s fls)
  case (Cons t ts)
  have qt: "fairTurn (flights s) t" using Cons.prems(3) by simp
  from turn_steps [OF Cons.prems(1,2) qt Cons.prems(4)] obtain s1 where s1: "(pstep dec)\<^sup>*\<^sup>* s s1"
    and on: "case turnOn t dec f r b l w of None \<Rightarrow> ended s s1 fls b' l' w'
      | Some (fl, f1, r1, b1, l1, w1) \<Rightarrow> flights s1 = flights s @ fl \<and> shown dec c0 l1 w1 r1 f1 b1 s1 \<and> fstop f1 = None"
    unfolding leads_def by auto
  show ?case
  proof (cases "turnOn t dec f r b l w")
    case None
    then show ?thesis using s1 on by auto
  next
    case (Some y)
    obtain fl f1 r1 b1 l1 w1 where y: "y = (fl, f1, r1, b1, l1, w1)" by (metis prod.collapse)
    have n: "flights s1 = flights s @ fl" "shown dec c0 l1 w1 r1 f1 b1 s1" "fstop f1 = None" using on Some y by auto
    obtain fls' where lp: "flusherLoop ts dec f1 r1 b1 l1 w1 = Some (fls', r', b', l', w')" "fls = fl @ fls'"
      using turnOn_loop [OF Cons.prems(4)] Some y by blast
    have "fairTurns ts dec (flights s1) f1 r1 b1 l1 w1" using Cons.prems(3) Some y n(1) by simp
    from Cons.IH [OF n(2,3) this lp(1)] obtain s' where "(pstep dec)\<^sup>*\<^sup>* s1 s'" "ended s1 s' fls' b' l' w'" by blast
    then show ?thesis using s1 lp(2) n(1) unfolding ended_def by (metis append_assoc rtranclp_trans)
  qed
qed simp

lemma newReader_end:
  assumes h: "segs_hold l w pss" and n: "newReader k l = Inr r" and k: "unat k \<le> seg_end (active l)"
  shows "unat (rnextLSN r) \<le> seg_end (active l)"
proof -
  have "hd (segs l) \<in> set (segs l)" using h by (simp add: segs_hold_def)
  from bases_below_end [OF h this] have "unat (baseLSN (hd (segs l))) \<le> seg_end (active l)" .
  moreover have "hd (fst (snapshot l)) = segView_of (hd (segs l))" "fst (snapshot l) \<noteq> []" using h by (simp_all add: segs_hold_def snapshot_def hd_map)
  then have "rnextLSN r = k \<or> rnextLSN r = baseLSN (hd (segs l))"
    using n by (auto simp: newReader_def Let_def segView_of_def split: if_splits)
  ultimately show ?thesis using k by auto
qed

lemma readerClose_reads: "reads w (snd (snd (readerClose r w)))"
  by (auto simp: readerClose_def file_close_def reads_refl split: option.splits fault.splits)

lemma flusherRun_steps:
  assumes ref: "refined (l, ph, w)" and h: "segs_hold l w pss" and ack: "ackT b = newAckTracker c" and c: "unat c < seg_end (active l)"
    and q: "fairRun ts dec (c + 1) b l w" and run: "flusherRun ts dec (c + 1) b l w = Some (fls, b', l', w')"
  shows "\<exists>s. (pstep dec)\<^sup>*\<^sup>* (pipeStart b c (contents (segs l) pss)) s \<and> pbuf s = b' \<and> flights s = fls \<and> agrees l' w' s"
proof -
  let ?cs = "contents (segs l) pss"
  let ?s = "pipeStart b c ?cs :: 'a pipe"
  have f0: "flights ?s = []" by (simp add: flights_def pipeStart_def)
  have e64: "seg_end (active l) < 2 ^ 64" using segs_hold_active [OF h] seg_holds_end [OF segs_hold_active [OF h]] by (simp add: seg_holds_def)
  have srt: "sorted_wrt (<) (map fst ?cs)" and top: "\<forall>e \<in> set ?cs. fst e < seg_end (active l)"
    using contents_sorted [of "maxRecord l" w "segs l" pss] h by (auto simp: segs_hold_def active_def)
  have c64: "unat c + 1 < 2 ^ 64" "unat (c + 1) = unat c + 1" using c e64 unat_plus_one [of c] by simp_all
  have ag: "agrees l w ?s" using h by (auto simp: agrees_def pipeStart_def)
  show ?thesis
  proof (cases "newReader (c + 1) l")
    case (Inl e)
    then have r: "fls = []" "b' = (bufFail (Wrap ''batch: open log reader'' [e]) b)\<lparr>drained := True\<rparr>" "l' = l" "w' = w"
      using run by (auto simp: flusherRun_def)
    then have "pstep dec ?s (?s\<lparr>pbuf := b'\<rparr>)" by (intro p_other) (simp add: pipeStart_def bufFail_def)
    then show ?thesis using r f0 ag by (intro exI [of _ "?s\<lparr>pbuf := b'\<rparr>"]) (auto simp: flights_def agrees_def)
  next
    case (Inr r)
    obtain r1 b1 w1 where lp: "flusherLoop ts dec (newFlusher (c + 1)) r b l w = Some (fls, r1, b1, l', w1)" "b' = b1\<lparr>drained := True\<rparr>"
        "w' = snd (snd (readerClose r1 w1))"
      using run Inr by (auto simp: flusherRun_def)
    have inv: "pipe_inv dec (unat c) ?s" using reached_inv [OF ack c64(1) srt] top e64 by fastforce
    have "unat (rnextLSN r) \<le> seg_end (active l)" using newReader_end [OF h Inr] c c64(2) by simp
    then have "tracked l w r ?s pss"
      using newReader_ok [OF h Inr] h top c64(2) by (simp add: tracked_def pipeStart_def)
    then have sh: "shown dec (unat c) l w r (newFlusher (c + 1)) b ?s" using ref inv by (auto simp: shown_def pipeStart_def)
    have ft: "fairTurns ts dec (flights ?s) (newFlusher (c + 1)) r b l w" using q Inr f0 by (simp add: fairRun_def)
    have "fstop (newFlusher (c + 1) :: 'a flusher) = None" by (simp add: newFlusher_def)
    from flusherLoop_steps [OF sh this ft lp(1)] obtain s where s: "(pstep dec)\<^sup>*\<^sup>* ?s s" "pbuf s = b1" "flights s = fls" "agrees l' w1 s"
      by (auto simp: f0 ended_def)
    have "pstep dec s (s\<lparr>pbuf := b'\<rparr>)" using s(2) lp(2) by (intro p_other) simp
    then have "(pstep dec)\<^sup>*\<^sup>* ?s (s\<lparr>pbuf := b'\<rparr>)" using s(1) by simp
    moreover have "agrees l' w' (s\<lparr>pbuf := b'\<rparr>)" using s(4) segs_hold_reads [OF readerClose_reads] lp(3) by (simp add: agrees_def) blast
    ultimately show ?thesis using s(3) by (intro exI [of _ "s\<lparr>pbuf := b'\<rparr>"]) (simp add: flights_def)
  qed
qed

end
