(* ===== verification/PipelineProperties.thy ===== *)
theory PipelineProperties
  imports FlusherRefinement
begin

text \<open>
  What the flusher, the deliveries and the checkpointer guarantee together.
\<close>

subsection \<open>A run\<close>

text \<open>One record is read, dispatched because the buffer drains, delivered, checkpointed, and its segment released.\<close>

definition demo_dec :: "bytes \<Rightarrow> (error + bytes) outcome" where
  "demo_dec p = Returns (Inr p)"

definition demo_buf :: buf where
  "demo_buf = (newBuffer defaults False 0)\<lparr>drainNow := True\<rparr>"

definition demo0 :: "bytes pipe" where
  "demo0 = pipeStart demo_buf 0 [(1, [7])]"

definition demo1 :: "bytes pipe" where
  "demo1 = demo0\<lparr>pflush := (newFlusher 1)\<lparr>frecords := [[7]], fid := 1, wantLSN := 2, nbytes := 1, fto := 1\<rparr>, pcursor := 2\<rparr>"

definition demo2 :: "bytes pipe" where
  "demo2 = demo1\<lparr>pflush := (pflush demo1)\<lparr>draining := True\<rparr>\<rparr>"

definition demo_flown :: "fate option \<Rightarrow> bytes flown" where
  "demo_flown ft = \<lparr>xbatch = \<lparr>bID = 1, bLogID = [], bRecords = [[7]], bAttempt = 0\<rparr>, xrange = pendingOf (pflush demo2), xfate = ft\<rparr>"

definition demo3 :: "bytes pipe" where
  "demo3 = demo2\<lparr>pflush := resetBatch (pflush demo2), pbuf := demo_buf\<lparr>semUsed := 1\<rparr>, pflown := [demo_flown None]\<rparr>"

definition demo4 :: "bytes pipe" where
  "demo4 = demo3\<lparr>pbuf := completeRange (pendingOf (pflush demo2)) (pbuf demo3), pflown := [demo_flown (Some Delivered)]\<rparr>"

definition demo5 :: "bytes pipe" where
  "demo5 = demo4\<lparr>pcheckpoint := 1\<rparr>"

definition demo6 :: "bytes pipe" where
  "demo6 = demo5\<lparr>ptruncated := 2\<rparr>"

lemmas demo_states = demo0_def demo1_def demo2_def demo3_def demo4_def demo5_def demo6_def demo_flown_def

lemma demo_buf_fields: "dropFloor demo_buf = 1" "cfg demo_buf = defaults" "forceFlush demo_buf = False" "semUsed demo_buf = 0"
    "drainNow demo_buf" "ackT demo_buf = newAckTracker 0" "aborted demo_buf = False"
  by (simp_all add: demo_buf_def newBuffer_def)

lemma demo_step1: "pstep demo_dec demo0 demo1"
proof -
  have "takeRecord demo_dec (of_nat 1) [7] (pflush demo0) (pbuf demo0) = (pflush demo1, pbuf demo1)"
    by (simp add: takeRecord_def demo_states pipeStart_def demo_buf_fields decodePayload_def demo_dec_def addRecord_def startBatch_def newFlusher_def)
  from p_read [OF _ _ _ _ _ _ _ this] show ?thesis
    by (simp add: demo_states pipeStart_def newFlusher_def skips_def demo_buf_fields decodePayload_def demo_dec_def numeral_2_eq_2)
qed

lemma demo_step2: "pstep demo_dec demo1 demo2"
proof -
  have "wakeUp FlusherDrain (pflush demo1) (pbuf demo1) = Some (Some (pflush demo2), pbuf demo1)"
    by (simp add: wakeUp_def demo_states pipeStart_def demo_buf_fields)
  from p_wake [OF this] show ?thesis by (simp add: demo_states pipeStart_def)
qed

lemma demo_step3: "pstep demo_dec demo2 demo3"
proof -
  have "flusherAct (id, False) [] (pflush demo2) (pbuf demo2) = Some (Continue (pflush demo3), Some (xbatch (demo_flown None), xrange (demo_flown None)), pbuf demo3)"
    by (simp add: flusherAct_def demo_states pipeStart_def demo_buf_fields newFlusher_def dispatch_def pendingOf_def Let_def defaults_def)
  from p_act [OF _ _ _ this] show ?thesis by (simp add: demo_states pipeStart_def newFlusher_def goesOn_def)
qed

lemma demo_step4: "pstep demo_dec demo3 demo4"
proof -
  have "pflown demo3 = [] @ demo_flown None # []" "xfate (demo_flown None) = None" by (simp_all add: demo3_def demo_flown_def)
  from p_end [OF this, of Delivered "pbuf demo4"] show ?thesis by (simp add: demo4_def demo_flown_def)
qed

lemma demo_mark: "mark (ackT (pbuf demo4)) = 1"
  by (simp add: demo_states pipeStart_def demo_buf_fields completeRange_def pendingOf_def newFlusher_def ack_def newAckTracker_def ackLoop.simps mark_def)

lemma demo_step5: "pstep demo_dec demo4 demo5"
  using p_checkpoint [of demo_dec demo4] by (simp add: demo5_def demo_mark)

lemma demo_step6: "pstep demo_dec demo5 demo6"
  using p_truncate [of 2 demo5 demo_dec] by (simp add: demo6_def demo5_def demo_states pipeStart_def)

lemma demo_run3: "(pstep demo_dec)\<^sup>*\<^sup>* demo0 demo3"
  using demo_step1 demo_step2 demo_step3 by (meson converse_rtranclp_into_rtranclp rtranclp.rtrancl_refl)

lemma demo_run: "(pstep demo_dec)\<^sup>*\<^sup>* demo0 demo6"
  using demo_run3 demo_step4 demo_step5 demo_step6 by (meson rtranclp.rtrancl_into_rtrancl)

lemma drained_all:
  assumes inv: "pipe_inv dec c0 s" and fin: "flusherAct script lid (pflush s) (pbuf s) = Some (Return, None, b')"
    and st: "fstop (pflush s) = None" "frecords (pflush s) = []" "held (pflush s) = None"
    and all: "\<forall>e \<in> set (plog s). fst e < pcursor s"
  shows "handled dec c0 (plog s) (pskipped s) (pflown s) (pcursor s)"
proof -
  let ?f = "pflush s"
  have fl: "flush_ok dec (plog s) (pskipped s) (pcursor s) ?f" and h: "handled dec c0 (plog s) (pskipped s) (pflown s) (unat (ffrom ?f))"
    using inv by (simp_all add: pipe_inv_def core_def)
  have "\<not> ffrom ?f \<le> fto ?f" using fin st by (auto simp: flusherAct_def Let_def split: if_splits)
  then have "unat (fto ?f) + 1 = unat (ffrom ?f)" using fl by (simp add: flush_ok_def word_le_nat_alt)
  then have "n < unat (ffrom ?f)" if "n \<in> fst ` set (plog s)" for n
    using fl that all st unfolding flush_ok_def kept_ok_def by fastforce
  then show ?thesis using h unfolding handled_def by force
qed

subsection \<open>Properties\<close>

text \<open>C1. At least once. However the steps interleave, a record behind the starting checkpoint that
  the mark or the checkpoint has passed, or that truncation may have deleted, was passed over and counted as dropped, or is in its place,
  decoded from the log, in a batch whose delivery has ended without being kept: delivered, dead-lettered or dropped, with an event for it. A
  crash at any moment loses nothing else, for the next Open resumes behind the checkpoint.\<close>

theorem delivered_at_least_once:
  assumes "ackT b = newAckTracker c" and "unat c + 1 < 2 ^ 64" and "sorted_wrt (<) (map fst lg)" and "\<forall>e \<in> set lg. fst e + 1 < 2 ^ 64"
    and "(pstep dec)\<^sup>*\<^sup>* (pipeStart b c lg) s"
    and "(n, p) \<in> set (plog s)" and "unat c < n" and "n \<le> unat (mark (ackT (pbuf s))) \<or> n \<le> pcheckpoint s \<or> n < ptruncated s"
  shows "n \<in> pskipped s \<or> (\<exists>x \<in> set (pflown s). sent_as dec x n p \<and> (\<exists>ft. xfate x = Some ft \<and> ft \<noteq> Kept))"
proof -
  have inv: "pipe_inv dec (unat c) s" using reached_inv [OF assms(1-5)] .
  then have "n \<le> unat (mark (ackT (pbuf s)))" using assms(8) by (auto simp: pipe_inv_def)
  from below_mark [OF inv assms(6,7) this] show ?thesis by (auto simp: isOpen_def)
qed

theorem delivered_at_least_once_witness:
  "(\<exists>x \<in> set (pflown demo6). sent_as demo_dec x 1 [7] \<and> (\<exists>ft. xfate x = Some ft \<and> ft \<noteq> Kept)) \<and> ptruncated demo6 = 2"
proof -
  have "(1, [7]) \<in> set (plog demo6)" "ptruncated demo6 = 2" "pskipped demo6 = {}" by (simp_all add: demo_states pipeStart_def)
  with delivered_at_least_once [of demo_buf 0 "[(1, [7])]" demo_dec demo6 1 "[7]"] demo_run show ?thesis
    by (simp add: demo_buf_fields demo0_def [symmetric] del: One_nat_def)
qed

text \<open>C6. Batches are consecutive and do not overlap. Every batch handed out holds at least one record, and the
  records it holds are those of the log with the numbers from the batch's identity on, without a gap; each batch starts behind the end
  of the one before. So the position of a record in its batch gives its number, as sinks rely on for deduplication.\<close>

theorem batches_are_consecutive:
  assumes "ackT b = newAckTracker c" and "unat c + 1 < 2 ^ 64" and "sorted_wrt (<) (map fst lg)" and "\<forall>e \<in> set lg. fst e + 1 < 2 ^ 64"
    and "(pstep dec)\<^sup>*\<^sup>* (pipeStart b c lg) s"
  shows "sorted_wrt (\<lambda>x y. unat (bID (xbatch x)) + length (bRecords (xbatch x)) \<le> unat (bID (xbatch y))) (pflown s)
     \<and> (\<forall>x \<in> set (pflown s). bRecords (xbatch x) \<noteq> [] \<and> (\<forall>i < length (bRecords (xbatch x)).
          \<exists>p. (unat (bID (xbatch x)) + i, p) \<in> set (plog s) \<and> decodePayload dec p = Inr (bRecords (xbatch x) ! i)))"
proof -
  have inv: "pipe_inv dec (unat c) s" using reached_inv [OF assms(1-5)] .
  then have fo: "\<forall>x \<in> set (pflown s). flown_ok dec (plog s) x"
      and srt: "sorted_wrt (\<lambda>x y. rangeTo (xrange x) < rangeFrom (xrange y)) (pflown s)"
    by (simp_all add: pipe_inv_def core_def acks_ok_def)
  from srt have "sorted_wrt (\<lambda>x y. unat (bID (xbatch x)) + length (bRecords (xbatch x)) \<le> unat (bID (xbatch y))) (pflown s)"
    by (rule sorted_wrt_mono_rel [rotated]) (use fo in \<open>auto simp: flown_ok_def word_less_nat_alt\<close>)
  then show ?thesis using fo unfolding flown_ok_def consecutive_def by blast
qed

theorem batches_are_consecutive_witness:
  "pflown demo6 = [demo_flown (Some Delivered)]
     \<and> (\<exists>p. (unat (bID (xbatch (demo_flown (Some Delivered)))) + 0, p) \<in> set (plog demo6) \<and> decodePayload demo_dec p = Inr [7])"
proof -
  have x: "pflown demo6 = [demo_flown (Some Delivered)]" "bRecords (xbatch (demo_flown (Some Delivered))) = [[7]]" by (simp_all add: demo_states)
  from batches_are_consecutive [of demo_buf 0 "[(1, [7])]" demo_dec demo6] demo_run
  have "\<forall>i < length (bRecords (xbatch (demo_flown (Some Delivered)))). \<exists>p. (unat (bID (xbatch (demo_flown (Some Delivered)))) + i, p) \<in> set (plog demo6)
      \<and> decodePayload demo_dec p = Inr (bRecords (xbatch (demo_flown (Some Delivered))) ! i)"
    by (simp add: demo_buf_fields demo0_def [symmetric] x del: One_nat_def)
  then show ?thesis using x by auto
qed

text \<open>C19. Draining hands out everything. When the flusher returns because the buffer drains, with its reader at the end of the
  log, every record behind the starting checkpoint was passed over or handed to a delivery.\<close>

theorem drain_hands_out_everything:
  assumes "ackT b = newAckTracker c" and "unat c + 1 < 2 ^ 64" and "sorted_wrt (<) (map fst lg)" and "\<forall>e \<in> set lg. fst e + 1 < 2 ^ 64"
    and "(pstep dec)\<^sup>*\<^sup>* (pipeStart b c lg) s"
    and "flusherAct script lid (pflush s) (pbuf s) = Some (Return, None, b')"
    and "fstop (pflush s) = None" and "frecords (pflush s) = []" and "held (pflush s) = None" and "\<forall>e \<in> set (plog s). fst e < pcursor s"
  shows "\<forall>(n, p) \<in> set (plog s). unat c < n \<longrightarrow> n \<in> pskipped s \<or> (\<exists>x \<in> set (pflown s). sent_as dec x n p)"
proof -
  have "pipe_inv dec (unat c) s" using reached_inv [OF assms(1-5)] .
  from drained_all [OF this assms(6-10)] show ?thesis using assms(10) unfolding handled_def by fastforce
qed

theorem drain_hands_out_everything_witness:
  "flusherAct (id, False) [] (pflush demo3) (pbuf demo3) = Some (Return, None, pbuf demo3)
     \<and> (1 \<in> pskipped demo3 \<or> (\<exists>x \<in> set (pflown demo3). sent_as demo_dec x 1 [7]))"
proof -
  have a: "flusherAct (id, False) [] (pflush demo3) (pbuf demo3) = Some (Return, None, pbuf demo3)"
    by (simp add: flusherAct_def demo_states pipeStart_def demo_buf_fields newFlusher_def resetBatch_def Let_def word_le_nat_alt)
  have d: "fstop (pflush demo3) = None" "frecords (pflush demo3) = []" "held (pflush demo3) = None" "\<forall>e \<in> set (plog demo3). fst e < pcursor demo3"
      "plog demo3 = [(1, [7])]"
    by (simp_all add: demo_states pipeStart_def newFlusher_def resetBatch_def)
  with drain_hands_out_everything [OF _ _ _ _ _ a, of demo_buf 0 "[(1, [7])]" demo_dec] demo_run3 a show ?thesis
    by (simp add: demo_buf_fields demo0_def [symmetric] del: One_nat_def)
qed

text \<open>C7. The flusher's loop implements the pipeline. Take any run of the flusher that returns. At every point where it gives way, the other goroutines
  may append to the log, commit, roll back, rotate, checkpoint, and truncate up to the mark, with any I/O errors; and deliveries of batches that the flusher has started may end and acknowledge
  their ranges, each once, in any order; nothing else is acknowledged. The run is a sequence of steps of the pipeline from its start state,
  with the same flights in the same order and the same buffer at the end; and then the log holds the records of the pipeline, except those that the pipeline has truncated.
  The flusher starts behind a checkpoint below the end of the log.\<close>

theorem flusher_refines_pipeline:
  assumes "refined (l, ph, w)" and "segs_hold l w pss" and "ackT b = newAckTracker c" and "unat c < seg_end (active l)"
    and "fairRun ts dec (c + 1) b l w" and "flusherRun ts dec (c + 1) b l w = Some (fls, b', l', w')"
  shows "\<exists>s. (pstep dec)\<^sup>*\<^sup>* (pipeStart b c (contents (segs l) pss)) s \<and> pbuf s = b' \<and> flights s = fls \<and> agrees l' w' s"
  using assms by (rule flusherRun_steps)

text \<open>
  A run: the log is empty when the flusher starts; then a record is appended and committed, the flusher reads and dispatches it, its delivery ends and acknowledges it,
  and the buffer fails.
\<close>

definition demo_turn :: "sysEnv \<Rightarrow> flusherTurn" where
  "demo_turn before = \<lparr>ftBefore = before, ftReads = [\<lambda>b l w. (b, l, w)], ftSend = (id, False),
     ftSleep = (\<lambda>b l w. (b, l, w)), ftSelect = FlusherTick\<rparr>"

definition demo_append :: sysEnv where
  "demo_append b l w = (if l = fresh_log small_opts \<and> w = fresh_fs then (b, settled1, written_fs) else (b, l, w))"

definition demo_flight :: "bytes flight" where
  "demo_flight = (\<lparr>bID = 1, bLogID = logID settled1, bRecords = [[7]], bAttempt = 0\<rparr>, pendingOf (pflush demo1))"

definition demo_ends :: sysEnv where
  "demo_ends b l w = ((if ackT b = newAckTracker 0 then completeRange (snd demo_flight) b else b)\<lparr>fatalErr := Some BErrPanic\<rparr>, l, w)"

definition full_buf :: buf where
  "full_buf = newBuffer (defaults\<lparr>flushRecords := 1\<rparr>) False 0"

lemma demo_range: "span (snd demo_flight) = {1}" "ackT (completeRange (snd demo_flight) b) = snd (ack 1 1 1 1 (ackT b))"
  by (auto simp: demo_flight_def span_def pendingOf_def demo_states pipeStart_def newFlusher_def completeRange_def split: prod.splits)

lemma demo_append_fair: "fairEnv fls demo_append"
proof -
  have st: "(ostep fls)\<^sup>*\<^sup>* (b, l, w) (b, l', w') \<and> refined (l', ph', w')"
    if "(tstep (unat (mark (ackT b)) + 1))\<^sup>*\<^sup>* (l, ph, w) (l', ph', w')" "refined (l, ph, w)" for b l w l' w' ph ph'
    using that(1)
  proof (induction "(l', ph', w')" arbitrary: l' ph' w' rule: rtranclp_induct)
    case base
    then show ?case using that(2) by simp
  next
    case (step y)
    obtain l1 ph1 w1 where y: "y = (l1, ph1, w1)" by (metis prod_cases3)
    then have "(ostep fls)\<^sup>*\<^sup>* (b, l, w) (b, l1, w1)" "refined (l1, ph1, w1)" using step.hyps(3) by blast+
    then show ?case using step.hyps(2) y o_log refined.step_inv tstep_lstep by (metis rtranclp.rtrancl_into_rtrancl)
  qed
  have "(ostep fls)\<^sup>*\<^sup>* (b, fresh_log small_opts, fresh_fs) (b, settled1, written_fs)" for b
    using st [OF run_tsteps fresh_refined] by blast
  then show ?thesis by (simp add: fairEnv_def demo_append_def)
qed

lemma demo_ends_fair: "fairEnv [demo_flight] demo_ends"
proof -
  have "(ostep [demo_flight])\<^sup>*\<^sup>* (b, l, w) (demo_ends b l w)" for b l w
  proof -
    let ?b = "if ackT b = newAckTracker 0 then completeRange (snd demo_flight) b else b"
    have "unacked (snd demo_flight) b" if "ackT b = newAckTracker 0"
      using that tracks_new [of 0] demo_range(1) by (auto simp: unacked_def)
    then have "bufMove [demo_flight] b ?b" by (auto simp: bufMove_def case_prod_beta)
    moreover have "bufMove [demo_flight] ?b (?b\<lparr>fatalErr := Some BErrPanic\<rparr>)" by (simp add: bufMove_def)
    ultimately show ?thesis unfolding demo_ends_def by (meson o_buf converse_rtranclp_into_rtranclp rtranclp.rtrancl_refl)
  qed
  then show ?thesis by (simp add: fairEnv_def)
qed

lemma demo_turn_fair: "fairEnv fls env \<Longrightarrow> fairTurn fls (demo_turn env)"
  by (simp add: fairTurn_def demo_turn_def fairEnv_def)

lemma demo_first_turn:
  "newReader 1 (fresh_log small_opts) = Inr early_reader"
  "\<exists>f r. turnOn (demo_turn demo_append) demo_dec (newFlusher 1) early_reader full_buf (fresh_log small_opts) fresh_fs
     = Some ([demo_flight], f, r, full_buf\<lparr>semUsed := 1\<rparr>, settled1, written_fs)"
proof -
  show "newReader 1 (fresh_log small_opts) = Inr early_reader"
    by (simp add: early_reader_def newReader_def Let_def snapshot_def segView_of_def newSegment_def fresh_fields)
  obtain r' where r': "readerNext settled1 early_reader written_fs = (Inr (1, [7]), r', written_fs)" using early_next by blast
  show "\<exists>f r. turnOn (demo_turn demo_append) demo_dec (newFlusher 1) early_reader full_buf (fresh_log small_opts) fresh_fs
     = Some ([demo_flight], f, r, full_buf\<lparr>semUsed := 1\<rparr>, settled1, written_fs)"
    using r' by (simp add: turnOn_def demo_turn_def demo_append_def newFlusher_def takeHeld_def fillBatch.simps full_buf_def newBuffer_def isFull_def
        defaults_def takeRecord_def decodePayload_def demo_dec_def addRecord_def startBatch_def flusherAct_def dispatch_def Let_def
        pendingOf_def demo1_def demo_flight_def)
qed

lemma demo_fair: "fairRun [demo_turn demo_append, demo_turn demo_ends] demo_dec (0 + 1) full_buf (fresh_log small_opts) fresh_fs"
proof -
  obtain f r where t: "turnOn (demo_turn demo_append) demo_dec (newFlusher 1) early_reader full_buf (fresh_log small_opts) fresh_fs
     = Some ([demo_flight], f, r, full_buf\<lparr>semUsed := 1\<rparr>, settled1, written_fs)" using demo_first_turn(2) by blast
  show ?thesis using t demo_first_turn(1) demo_turn_fair [OF demo_append_fair, of "[] :: bytes flight list"] demo_turn_fair [OF demo_ends_fair]
    by (simp add: fairRun_def split: option.splits)
qed

lemma demo_flusher_run:
  "\<exists>b l w. flusherRun [demo_turn demo_append, demo_turn demo_ends] demo_dec (0 + 1) full_buf (fresh_log small_opts) fresh_fs
     = Some ([demo_flight], b, l, w) \<and> mark (ackT b) = 1"
proof -
  obtain r' where r': "readerNext settled1 early_reader written_fs = (Inr (1, [7]), r', written_fs)" using early_next by blast
  show ?thesis
    using r' demo_first_turn(1) by (simp add: flusherRun_def demo_turn_def demo_append_def newFlusher_def takeHeld_def fillBatch.simps full_buf_def newBuffer_def isFull_def
        defaults_def takeRecord_def decodePayload_def demo_dec_def addRecord_def startBatch_def flusherAct_def dispatch_def Let_def
        pendingOf_def demo_ends_def demo1_def demo_flight_def completeRange_def ack_def newAckTracker_def ackLoop.simps mark_def)
qed

theorem flusher_refines_pipeline_witness:
  "\<exists>s l w. (pstep demo_dec)\<^sup>*\<^sup>* (pipeStart full_buf 0 []) s \<and> agrees l w s \<and> flights s = [demo_flight] \<and> mark (ackT (pbuf s)) = 1"
proof -
  obtain b l w where r: "flusherRun [demo_turn demo_append, demo_turn demo_ends] demo_dec (0 + 1) full_buf (fresh_log small_opts) fresh_fs
     = Some ([demo_flight], b, l, w)" "mark (ackT b) = 1"
    using demo_flusher_run by blast
  have "ackT full_buf = newAckTracker 0" by (simp add: full_buf_def newBuffer_def)
  moreover have "unat (0 :: u64) < seg_end (active (fresh_log small_opts))" by (simp add: fresh_fields active_def seg_end_def newSegment_def)
  moreover have "contents (segs (fresh_log small_opts)) [[]] = []" by (simp add: fresh_fields)
  ultimately show ?thesis using flusher_refines_pipeline [OF fresh_refined fresh_holds _ _ demo_fair r(1)] r(2) by metis
qed

end
