(* ===== verification/LifecycleProperties.thy ===== *)
theory LifecycleProperties
  imports Lifecycle PipelineProperties RecoveryProperties
begin

text \<open>
  What opening, checkpointing, flushing and closing a buffer guarantee.
\<close>

subsection \<open>Checkpoints\<close>

text \<open>A checkpoint that a crash does not lose.\<close>

definition cpStands :: "u64 \<Rightarrow> fs \<Rightarrow> bool" where
  "cpStands v w \<longleftrightarrow> (\<exists>i. map_of (dents w) checkpointName = Some i \<and> data w i = numberLine v \<and> stable w i = numberLine v)
     \<and> (\<exists>i. map_of (sdents w) checkpointName = Some i \<and> stable w i = numberLine v)"

lemma is_meta_checkpoint [simp]: "is_meta checkpointName"
  by (simp add: is_meta_def checkpointName_def)

lemma cpStands_write:
  assumes "fs_ok w" and "writeCheckpoint v w = (Inr u, w')"
  shows "cpStands v w'"
  using replaceFile_outcome [OF assms(1) _ assms(2) [unfolded writeCheckpoint_def]]
  by (auto simp: cpStands_def swapped_def)

lemma cpStands_untouched:
  assumes "cpStands v w" and "untouched P w w'" and "checkpointName \<notin> P"
  shows "cpStands v w'"
proof -
  obtain i j where i: "map_of (dents w) checkpointName = Some i" "data w i = numberLine v" "stable w i = numberLine v"
    and j: "map_of (sdents w) checkpointName = Some j" "stable w j = numberLine v"
    using assms(1) by (auto simp: cpStands_def)
  have i': "map_of (dents w') checkpointName = Some i" "data w' i = numberLine v" "stable w' i = numberLine v"
    using assms(2,3) i unfolding untouched_def by auto
  have "map_of (sdents w') checkpointName = Some i \<or>
      map_of (sdents w') checkpointName = Some j \<and> (stable w' j = numberLine v \<or> i = j)"
    using assms(2,3) i j is_meta_checkpoint unfolding untouched_def by (metis option.inject)
  then show ?thesis using i' unfolding cpStands_def by blast
qed

lemma cpStands_crash:
  assumes "cpStands v w"
  shows "fst (readCheckpoint (after_kill w)) = Inr v \<and> fst (readCheckpoint (after_power_loss w)) = Inr v"
proof -
  have "file_at w checkpointName = Some (numberLine v)" "stable_at w checkpointName = Some (numberLine v)"
    using assms by (auto simp: cpStands_def file_at_def stable_at_def lookup_name_def)
  then show ?thesis by (simp add: readCheckpoint_def readNumber_calm)
qed

text \<open>What the other goroutines do to the log: they append, and they leave the checkpoint alone.\<close>

definition logRely :: "sysEnv \<Rightarrow> bool" where
  "logRely env \<longleftrightarrow> (\<forall>b l w b' l' w' cs n. env b l w = (b', l', w') \<longrightarrow> disk_ok l w cs n
     \<longrightarrow> (\<exists>more n'. disk_ok l' w' (cs @ more) n') \<and> (\<forall>v. cpStands v w \<longrightarrow> cpStands v w'))"

lemma persist_ok:
  assumes d: "disk_ok l w cs n" and r: "logRely (fst envs)" "logRely (snd envs)" and p: "persist envs b l w = (b', l', w')"
  shows "\<exists>more k n'. disk_ok l' w' (drop k (cs @ more)) n' \<and> (\<forall>e \<in> set (take k (cs @ more)). fst e \<le> unat (mark (ackT b)))
     \<and> (0 < k \<longrightarrow> cpStands (mark (ackT b)) w')"
proof -
  let ?m = "mark (ackT b)"
  obtain b1 l1 w1 where e1: "fst envs b l w = (b1, l1, w1)" by (metis prod_cases3)
  obtain more1 n1 where d1: "disk_ok l1 w1 (cs @ more1) n1" using r(1) e1 d unfolding logRely_def by blast
  obtain res w2 where wc: "writeCheckpoint ?m w1 = (res, w2)" by (meson surj_pair)
  have d2: "disk_ok l1 w2 (cs @ more1) n1"
    using cp.write_frame [OF _ wc] meta_write_keeps [OF d1, of checkpointName w2] d1 by (auto simp: disk_ok_def)
  show ?thesis
  proof (cases "?m = 0 \<or> ?m = lastCP b")
    case True
    then show ?thesis using p d by (intro exI [of _ "[]"] exI [of _ 0] exI [of _ n]) (simp add: persist_def Let_def)
  next
    case go: False
    show ?thesis
    proof (cases res)
      case (Inl e)
      then have "l' = l1" "w' = w2" using p go e1 wc by (auto simp: persist_def Let_def)
      then show ?thesis using d2 by (intro exI [of _ more1] exI [of _ 0] exI [of _ n1]) simp
    next
      case (Inr u)
      have c2: "cpStands ?m w2" using cpStands_write [of w1] wc Inr d1 by (auto simp: disk_ok_def)
      obtain b3 l3 w3 where e3: "snd envs b1 l1 w2 = (b3, l3, w3)" by (metis prod_cases3)
      obtain more2 n3 where d3: "disk_ok l3 w3 ((cs @ more1) @ more2) n3" "cpStands ?m w3"
        using r(2) e3 d2 c2 unfolding logRely_def by blast
      obtain err l4 w4 where t: "truncateLog (?m + 1) l3 w3 = (err, l4, w4)" by (metis prod_cases3)
      have eq: "l' = l4" "w' = w4" using p go e1 wc Inr e3 t by (auto simp: persist_def Let_def split: option.splits)
      obtain k where k: "disk_ok l4 w4 (drop k ((cs @ more1) @ more2)) n3" "\<forall>e \<in> set (take k ((cs @ more1) @ more2)). fst e < unat (?m + 1)"
        using truncateLog_outcome [OF t d3(1)] by blast
      have "unat (?m + 1) \<le> unat ?m + 1" by (cases "unat ?m + 1 < 2 ^ 64") (auto simp: unat_plus_one unat_word_ariths)
      then have "\<forall>e \<in> set (take k ((cs @ more1) @ more2)). fst e \<le> unat ?m" using k(2) by fastforce
      moreover have "cpStands ?m w4" using truncateLog_segNames [OF t d3(1)] cpStands_untouched [OF d3(2)] by auto
      ultimately show ?thesis using k(1) eq by (intro exI [of _ "more1 @ more2"] exI [of _ k] exI [of _ n3]) simp
    qed
  qed
qed

subsection \<open>Counting the backlog\<close>

definition backlog :: "(nat \<times> bytes) list \<Rightarrow> nat \<Rightarrow> (nat \<times> bytes) list" where
  "backlog cs n = filter (\<lambda>e. n \<le> fst e) cs"

definition weight :: "(nat \<times> bytes) list \<Rightarrow> int" where
  "weight es = (\<Sum>e \<leftarrow> es. int (length (snd e)))"

lemma countLoop_calm:
  assumes h: "segs_hold l w pss" "limit_ok (maxRecord l)" "0 \<le> MaxRecordBytes (opts l)" and calm: "faults w = []" "no_hollow l"
    and dur: "\<forall>e \<in> set (contents (segs l) pss). fst e \<le> unat (durable l)"
    and ok: "rd_ok l w pss r" "baseLSN (hd (segs l)) \<le> rnextLSN r"
    and es: "backlog (contents (segs l) pss) (unat (rnextLSN r)) = es" "length es < fuel"
  shows "\<exists>r' lst'. countLoop fuel l r w k s lst = Some (Inr (k + int (length es), s + weight es, lst'), r', w)"
  using ok es
proof (induction es arbitrary: r fuel k s lst)
  case Nil
  obtain res r' w' where c: "readerNext l r w = (res, r', w')" by (metis prod_cases3)
  have "res = Inl ErrNoData" "w' = w"
    using readerNext_calm [OF h Nil(1) calm Nil(2) dur c] Nil(3) by (simp_all add: backlog_def)
  then show ?case using c Nil(4) by (cases fuel) (auto simp: weight_def)
next
  case (Cons e es)
  obtain res r' w' where c: "readerNext l r w = (res, r', w')" by (metis prod_cases3)
  obtain n where n: "res = Inr (n, snd e)" "w' = w" "rd_ok l w pss r'" "baseLSN (hd (segs l)) \<le> rnextLSN r'"
      "backlog (contents (segs l) pss) (unat (rnextLSN r')) = es"
    using readerNext_calm [OF h Cons.prems(1) calm Cons.prems(2) dur c] Cons.prems(3) by (auto simp: backlog_def)
  obtain m where m: "fuel = Suc m" "length es < m" using Cons.prems(4) by (cases fuel) auto
  from Cons.IH [OF n(3,4,5) m(2), of "k + 1" "s + int (length (snd e))" n] show ?case
    using c n(1,2) m(1) by (auto simp: weight_def add.assoc)
qed

lemma backlog_vacant: "vacant l pss a b \<Longrightarrow> a \<le> b \<Longrightarrow> backlog (contents (segs l) pss) a = backlog (contents (segs l) pss) b"
  unfolding backlog_def vacant_def by (intro filter_cong) fastforce+

lemma countBacklog_calm:
  assumes h: "segs_hold l w pss" "limit_ok (maxRecord l)" "0 \<le> MaxRecordBytes (opts l)" and calm: "faults w = []" "no_hollow l"
    and dur: "\<forall>e \<in> set (contents (segs l) pss). fst e \<le> unat (durable l)" and nr: "newReader k l = Inr r"
    and fuel: "length (contents (segs l) pss) < fuel"
  shows "\<exists>b' w'. countBacklog fuel now k b l w = Some (None, b', w') \<and> pendingRecords b' = int (length (backlog (contents (segs l) pss) (unat k)))
     \<and> pendingBytes b' = weight (backlog (contents (segs l) pss) (unat k)) \<and> ackT b' = ackT b \<and> dropFloor b' = dropFloor b \<and> cfg b' = cfg b"
proof -
  let ?es = "backlog (contents (segs l) pss) (unat k)"
  note ok = newReader_ok [OF h(1) nr]
  have bl: "backlog (contents (segs l) pss) (unat (rnextLSN r)) = ?es" using ok backlog_vacant by metis
  have len: "length ?es < fuel" unfolding backlog_def using length_filter_le fuel by (rule le_less_trans)
  obtain r' lst where "countLoop fuel l r w 0 0 0 = Some (Inr (0 + int (length ?es), 0 + weight ?es, lst), r', w)"
    using countLoop_calm [OF h calm dur _ _ bl len] ok by blast
  then show ?thesis using nr by (simp add: countBacklog_def Let_def)
qed

text \<open>A clamped checkpoint lies below the first number the log can give.\<close>

lemma clampCheckpoint_bounds:
  assumes "0 < firstLSN l" and "unat (durable l) + 1 < 2 ^ 64"
  shows "unat (clampCheckpoint l cp) + 1 < 2 ^ 64" and "firstLSN l \<le> clampCheckpoint l cp + 1" and "clampCheckpoint l cp + 1 \<noteq> 0"
proof -
  have f: "unat (firstLSN l - 1) = unat (firstLSN l) - 1" "0 < unat (firstLSN l)"
    using assms(1) unat_minus_one [of "firstLSN l"] by (auto simp: unat_gt_0 word_neq_0_conv)
  have ge: "firstLSN l - 1 \<le> clampCheckpoint l cp" and le: "clampCheckpoint l cp \<le> max (durable l) (firstLSN l - 1)"
    using assms(1) by (auto simp: clampCheckpoint_def Let_def min_def max_def)
  have "unat (clampCheckpoint l cp) \<le> max (unat (durable l)) (unat (firstLSN l) - 1)"
    using le f by (auto simp: word_le_nat_alt max_def split: if_splits)
  moreover have "unat (firstLSN l) - 1 < 18446744073709551615" using f(2) unat_u64_bound [of "firstLSN l"] by linarith
  ultimately show b: "unat (clampCheckpoint l cp) + 1 < 2 ^ 64" using assms(2) by (simp add: max_def split: if_splits)
  show "firstLSN l \<le> clampCheckpoint l cp + 1" using ge f unat_plus_one [OF b] by (simp add: word_le_nat_alt)
  show "clampCheckpoint l cp + 1 \<noteq> 0" using unat_plus_one [OF b] by (metis add_is_0 one_neq_zero unat_0)
qed

lemma newReader_resumes:
  assumes "segs l \<noteq> []" and "baseLSN (hd (segs l)) \<le> k" and "0 < k"
  shows "\<exists>r. newReader k l = Inr r"
  using assms by (auto simp: newReader_def Let_def refresh_def snapshot_def hd_map segView_of_def)


lemma startBuffer_counts:
  assumes h: "segs_hold l w pss" "limit_ok (maxRecord l)" "0 \<le> MaxRecordBytes (opts l)" and calm: "faults w = []" "no_hollow l"
    and dur: "\<forall>e \<in> set (contents (segs l) pss). fst e \<le> unat (durable l)"
    and first: "0 < firstLSN l" "firstLSN l = baseLSN (hd (segs l))" and top: "unat (durable l) + 1 < 2 ^ 64"
    and fuel: "length (contents (segs l) pss) < fuel" and c: "c = clampCheckpoint l persisted"
  shows "\<exists>b w'. startBuffer fuel now wakes cf dlq c l w = Some (Inr (b, l), w') \<and> ackT b = newAckTracker c \<and> dropFloor b = c + 1 \<and> cfg b = cf
     \<and> pendingRecords b = int (length (backlog (contents (segs l) pss) (unat c + 1)))
     \<and> pendingBytes b = weight (backlog (contents (segs l) pss) (unat c + 1))"
proof -
  note cb = clampCheckpoint_bounds [OF first(1) top, of persisted, folded c]
  have ne: "segs l \<noteq> []" using h(1) by (simp add: segs_hold_def)
  have "0 < c + 1" using cb(3) by (simp add: word_neq_0_conv)
  then obtain r where r: "newReader (c + 1) l = Inr r" using newReader_resumes [OF ne, of "c + 1"] cb(2) first(2) by auto
  obtain b w' where "countBacklog fuel now (c + 1) (newBuffer cf dlq c) l w = Some (None, b, w')"
      "pendingRecords b = int (length (backlog (contents (segs l) pss) (unat (c + 1))))"
      "pendingBytes b = weight (backlog (contents (segs l) pss) (unat (c + 1)))"
      "ackT b = newAckTracker c" "dropFloor b = c + 1" "cfg b = cf"
    using countBacklog_calm [OF h calm dur r fuel, of now "newBuffer cf dlq c"] by (auto simp: newBuffer_def)
  then show ?thesis using unat_plus_one [OF cb(1)] by (auto simp: startBuffer_def)
qed

subsection \<open>Flush and Close\<close>

lemma flushLoop_nil:
  assumes "flushLoop ts target b = Some (None, b')"
  shows "target \<le> mark (ackT b') \<and> fatalErr b' = None"
  using assms by (induction ts target b rule: flushLoop.induct) (auto simp: Let_def split: if_splits option.splits flushSelect.splits)

lemma Close_once:
  assumes "Close s b l w = Some (e, b', l', w')"
  shows "closedOnce b' \<and> bufCloseErr b' = e"
  using assms by (auto simp: Close_def shutDown_def Let_def split: if_splits option.splits prod.splits)


subsection \<open>Options\<close>

text \<open>The options a caller can give.\<close>

inductive publicOption :: "option_fn \<Rightarrow> bool" where
  "publicOption (WithSync mode d)"
| "publicOption (WithSegmentBytes n)"
| "publicOption (WithMaxRecordBytes n)"
| "publicOption (WithCapacity n k)"
| "publicOption (WithFlush n k d)"
| "publicOption (WithMaxInFlight n)"
| "publicOption (WithOnFull p)"
| "publicOption (WithRetry bo n)"
| "publicOption (WithDeadLetter t)"
| "publicOption (WithDeadLetterRetry bo n)"
| "publicOption (WithOnDecodeFailure f)"
| "publicOption (WithOnSinkError g)"
| "publicOption (WithObserver ob)"
| "publicOption (WithAsyncObserver ob n)"
| "publicOption WithSalvage"
| "publicOption (WithCheckpointInterval d)"

text \<open>None of them can set these to zero; zero stands for the default.\<close>

definition nonzero :: "config \<Rightarrow> bool" where
  "nonzero c \<longleftrightarrow> flushRecords c \<noteq> 0 \<and> flushBytes c \<noteq> 0 \<and> flushInterval c \<noteq> 0 \<and> maxInFlight c \<noteq> 0 \<and> checkpointInterval c \<noteq> 0"

lemma publicOption_nonzero: "publicOption o1 \<Longrightarrow> nonzero c \<Longrightarrow> nonzero (o1 c)"
  by (induction rule: publicOption.induct)
    (simp_all add: nonzero_def WithSync_def WithSegmentBytes_def WithMaxRecordBytes_def WithCapacity_def WithFlush_def WithMaxInFlight_def
      WithOnFull_def WithRetry_def WithDeadLetter_def WithDeadLetterRetry_def WithOnDecodeFailure_def WithOnSinkError_def WithObserver_def
      WithAsyncObserver_def WithSalvage_def WithCheckpointInterval_def Let_def split: option.splits)

lemma options_nonzero: "\<forall>o1 \<in> set os. publicOption o1 \<Longrightarrow> nonzero c \<Longrightarrow> nonzero (fold (\<lambda>o1. o1) os c)"
  by (induction os arbitrary: c) (auto intro: publicOption_nonzero)

text \<open>The configurations the rest of the program relies on.\<close>

definition conf_wf :: "config \<Rightarrow> bool" where
  "conf_wf c \<longleftrightarrow> 0 < flushRecords c \<and> 0 < flushBytes c \<and> 0 < flushInterval c \<and> 0 < maxInFlight c \<and> 0 < checkpointInterval c
     \<and> 0 \<le> maxRecords c \<and> 0 \<le> maxBytes c \<and> 0 \<le> maxAttempts c \<and> 0 \<le> dlqAttempts c
     \<and> 0 < MaxRecordBytes (withDefaults (walOpts c)) \<and> MaxRecordBytes (withDefaults (walOpts c)) \<le> MaxRecordLimit"

lemma validate_wf:
  assumes "nonzero c" and "validate c = None"
  shows "conf_wf (c\<lparr>walOpts := openOptions c\<rparr>)"
proof -
  have "invalidOptions c = []" using assms(2) by (auto simp: validate_def split: if_splits)
  then have "0 \<le> flushRecords c" "0 \<le> flushBytes c" "0 \<le> flushInterval c" "0 \<le> maxInFlight c" "0 \<le> checkpointInterval c"
    by (auto simp: invalidOptions_def split: if_splits)
  then show ?thesis using assms(1) validate_limits [OF assms(2)] by (simp add: conf_wf_def nonzero_def)
qed

lemma countBacklog_cfg: "countBacklog fuel now k b l w = Some (e, b', w') \<Longrightarrow> cfg b' = cfg b"
  by (auto simp: countBacklog_def Let_def split: sum.splits option.splits prod.splits if_splits)

lemma startBuffer_cfg: "startBuffer fuel now wakes c dlq cp l w = Some (Inr (b, l'), w') \<Longrightarrow> cfg b = c"
  by (auto simp: startBuffer_def failOpen_def newBuffer_def dest!: countBacklog_cfg split: option.splits prod.splits if_splits)

lemma openAtCheckpoint_cfg: "openAtCheckpoint fuel now wakes c dlq l w = Some (Inr (b, l'), w') \<Longrightarrow> cfg b = c"
  by (auto simp: openAtCheckpoint_def failOpen_def Let_def dest!: startBuffer_cfg split: option.splits prod.splits if_splits sum.splits)

lemma Open_cfg:
  assumes "Open s os w = Some (Inr (b, l), w')"
  shows "\<exists>c. c = fold (\<lambda>o1. o1) os defaults \<and> validate c = None \<and> cfg b = c\<lparr>walOpts := openOptions c\<rparr>"
  using assms by (auto simp: Open_def Let_def dest!: openAtCheckpoint_cfg split: option.splits prod.splits if_splits sum.splits)

lemma Close_reports:
  assumes "Close s b l w = Some (e, b', l', w')" and "\<not> closedOnce b" and "fatalErr b' \<noteq> None"
  shows "e \<noteq> None"
  using assms by (auto simp: Close_def shutDown_def Let_def split: if_splits option.splits prod.splits)

subsection \<open>Properties\<close>

text \<open>C5. Nothing is deleted before its checkpoint is on disk. Whatever calls fail and whatever is appended meanwhile, persisting the
  mark deletes only records at or below it, and if it has deleted any, the next process reads that mark as the checkpoint,
  after a kill and after a power loss: no record that still has to be delivered is lost, and none is expected that is gone.\<close>

theorem nothing_deleted_before_its_checkpoint:
  assumes "disk_ok l w cs n" and "logRely (fst envs)" and "logRely (snd envs)" and "persist envs b l w = (b', l', w')"
  shows "\<exists>more k n'. disk_ok l' w' (drop k (cs @ more)) n' \<and> (\<forall>e \<in> set (take k (cs @ more)). fst e \<le> unat (mark (ackT b)))
     \<and> (0 < k \<longrightarrow> fst (readCheckpoint (after_kill w')) = Inr (mark (ackT b))
          \<and> fst (readCheckpoint (after_power_loss w')) = Inr (mark (ackT b)))"
  using persist_ok [OF assms] cpStands_crash by blast

lemma settled_disk: "disk_ok settled1 written_fs [(1, [7])] (seg_end (active settled1))"
proof -
  have "refined (fresh_log small_opts, Idle, fresh_fs)" using start_rel fresh_ainv unfolding refined_def by blast
  then have "refined (settled1, Idle, written_fs)"
    using refined.steps_inv [OF run_steps] refined.step_inv [OF _ l_append [OF run_staged room1]] by blast
  then obtain cs n where "disk_ok settled1 written_fs cs n" by (auto simp: refined_def lrel_def)
  then show ?thesis using settled_holds settled_contents unfolding disk_ok_def by blast
qed

lemma idle_rely: "logRely (\<lambda>b l w. (b, l, w))"
  unfolding logRely_def by (metis append_Nil2 prod.inject)

theorem nothing_deleted_before_its_checkpoint_witness:
  "\<exists>b' l' w' more k n'. persist (\<lambda>b l w. (b, l, w), \<lambda>b l w. (b, l, w)) (newBuffer defaults False 1) settled1 written_fs = (b', l', w')
     \<and> disk_ok l' w' (drop k ([(1, [7])] @ more)) n' \<and> fst ` set (take k ([(1, [7])] @ more)) \<subseteq> {..1}"
proof -
  note d = settled_disk
  obtain b' l' w' where p: "persist (\<lambda>b l w. (b, l, w), \<lambda>b l w. (b, l, w)) (newBuffer defaults False 1) settled1 written_fs = (b', l', w')"
    by (metis prod_cases3)
  have m: "mark (ackT (newBuffer defaults False 1)) = 1" by (simp add: newBuffer_def newAckTracker_def mark_def)
  from nothing_deleted_before_its_checkpoint [OF d _ _ p] idle_rely obtain more k n' where
    "disk_ok l' w' (drop k ([(1, [7])] @ more)) n'" "\<forall>e \<in> set (take k ([(1, [7])] @ more)). fst e \<le> 1"
    unfolding m by (simp only: fst_conv snd_conv unat_1) blast
  moreover from this(2) have "fst ` set (take k ([(1, [7])] @ more)) \<subseteq> {..1}" by blast
  ultimately show ?thesis using p by blast
qed

text \<open>C21. Open counts the backlog exactly, in \<open>startBuffer\<close>, the part of \<^verbatim>\<open>Open\<close> that follows the recovery of the log and the reading of the
  checkpoint. If no call fails, every record of the log is durable, and no segment in the middle of the log is empty behind a gap, which would stop the count, then
  the buffer starts at the clamped checkpoint, with the number and the bytes of precisely the records above it as its pending total, so that
  capacity is accounted for from the first write on. One unit of fuel more than the log has records is enough.\<close>

theorem open_counts_the_backlog:
  assumes "segs_hold l w pss" and "limit_ok (maxRecord l)" and "0 \<le> MaxRecordBytes (opts l)" and "faults w = []" and "no_hollow l"
    and "\<forall>e \<in> set (contents (segs l) pss). fst e \<le> unat (durable l)"
    and "0 < firstLSN l" and "firstLSN l = baseLSN (hd (segs l))" and "unat (durable l) + 1 < 2 ^ 64"
    and "length (contents (segs l) pss) < fuel" and "c = clampCheckpoint l persisted"
  shows "\<exists>b w'. startBuffer fuel now wakes cf dlq c l w = Some (Inr (b, l), w') \<and> ackT b = newAckTracker c \<and> dropFloor b = c + 1 \<and> cfg b = cf
     \<and> pendingRecords b = int (length (filter (\<lambda>e. unat c < fst e) (contents (segs l) pss)))
     \<and> pendingBytes b = (\<Sum>e \<leftarrow> filter (\<lambda>e. unat c < fst e) (contents (segs l) pss). int (length (snd e)))"
  using startBuffer_counts [OF assms, of now wakes cf dlq] by (simp add: backlog_def weight_def Suc_le_eq)

theorem open_counts_the_backlog_witness:
  "\<exists>b w'. startBuffer 2 0 [] defaults False (clampCheckpoint settled1 0) settled1 written_fs = Some (Inr (b, settled1), w')
     \<and> pendingRecords b = 1 \<and> pendingBytes b = 1"
proof -
  have f: "firstLSN settled1 = 1" by (simp add: settled1_def resolve_def written1_def set_active_def taken1_def newRound_def fresh_log_def)
  have "limit_ok (maxRecord settled1)" "0 \<le> MaxRecordBytes (opts settled1)" using small_opts_ok by (simp_all add: settled_fields)
  moreover have "faults written_fs = []" by (simp add: written_fs_def staged_fs_def)
  moreover have "clampCheckpoint settled1 0 = 0" using f by (simp add: clampCheckpoint_def)
  moreover have "firstLSN settled1 = baseLSN (hd (segs settled1))" using f by (simp add: settled_fields newSegment_def)
  ultimately show ?thesis
    using open_counts_the_backlog [OF settled_holds _ _ _ settled_hollow, of 2 "clampCheckpoint settled1 0" 0 0 "[]" defaults False] f
    unfolding settled_contents by (simp add: settled_fields(1)) blast
qed

text \<open>C20. A Flush that returns nil has delivered. Every record that was durable when it was called, and lies behind the
  starting checkpoint, was passed over and counted as dropped, or is in its place in a batch whose delivery has ended without being kept; and the buffer has not failed.\<close>

theorem flush_nil_means_delivered:
  assumes "ackT b0 = newAckTracker c" and "unat c + 1 < 2 ^ 64" and "sorted_wrt (<) (map fst lg)" and "\<forall>e \<in> set lg. fst e + 1 < 2 ^ 64"
    and "(pstep dec)\<^sup>*\<^sup>* (pipeStart b0 c lg) s" and "pbuf s = b'"
    and "Flush ts l b = Some (None, b')" and "(n, p) \<in> set (plog s)" and "unat c < n" and "n \<le> unat (durable l)"
  shows "fatalErr b' = None \<and> (n \<in> pskipped s \<or> (\<exists>x \<in> set (pflown s). sent_as dec x n p \<and> (\<exists>ft. xfate x = Some ft \<and> ft \<noteq> Kept)))"
proof -
  have inv: "pipe_inv dec (unat c) s" using reached_inv [OF assms(1-5)] .
  have f: "durable l \<le> mark (ackT b')" "fatalErr b' = None" using flushLoop_nil assms(7) unfolding Flush_def by blast+
  then have "n \<le> unat (mark (ackT (pbuf s)))" using assms(6,10) by (simp add: word_le_nat_alt)
  from below_mark [OF inv assms(8,9) this] show ?thesis using f(2) by (auto simp: isOpen_def)
qed

theorem flush_nil_means_delivered_witness:
  "Flush [(id, FlushProgress)] settled1 (pbuf demo4) = Some (None, pbuf demo4)
     \<and> (1 \<in> pskipped demo4 \<or> (\<exists>x \<in> set (pflown demo4). sent_as demo_dec x 1 [7] \<and> (\<exists>ft. xfate x = Some ft \<and> ft \<noteq> Kept)))"
proof -
  have "fatalErr (pbuf demo4) = None" by (simp add: demo_states completeRange_def demo_buf_def newBuffer_def)
  then have f: "Flush [(id, FlushProgress)] settled1 (pbuf demo4) = Some (None, pbuf demo4)"
    by (simp add: Flush_def demo_mark settled_fields Let_def)
  have run: "(pstep demo_dec)\<^sup>*\<^sup>* (pipeStart demo_buf 0 [(1, [7])]) demo4"
    using demo_run3 demo_step4 unfolding demo0_def by (rule rtranclp.rtrancl_into_rtrancl)
  have "(1, [7]) \<in> set (plog demo4)" by (simp add: demo_states pipeStart_def)
  with flush_nil_means_delivered [OF _ _ _ _ run refl f] f show ?thesis by (simp add: demo_buf_fields settled_fields del: One_nat_def)
qed

text \<open>C22. Close is final and does not hide a failure. Once a call has returned, every later call returns the same error and changes
  nothing; and if the buffer has failed, that error is not nil.\<close>

theorem close_is_final:
  assumes "Close s b l w = Some (e, b', l', w')" and "\<not> closedOnce b"
  shows "(\<forall>s2 l2 w2. Close s2 b' l2 w2 = Some (e, b', l2, w2)) \<and> (fatalErr b' \<noteq> None \<longrightarrow> e \<noteq> None)"
  using Close_once [OF assms(1)] Close_reports [OF assms] by (auto simp: Close_def)

definition close_demo :: closeScript where
  "close_demo = (let stay = (\<lambda>b l w. (b, l, w)) in \<lparr>csWriters = stay, csFlusher = (\<lambda>b l w. (b\<lparr>drained := True\<rparr>, l, w)), csDeliveries = stay,
     csCtx1 = None, csCtx2 = None, csAbort = stay, csCheckpointer = (\<lambda>b l w. (b\<lparr>cpDone := True\<rparr>, l, w)), csPersist = (stay, stay),
     csWakes = [], csCallee = [], csStack = [], csDispatcher = True\<rparr>)"

theorem close_is_final_witness:
  "\<exists>b' l' w'. Close close_demo ((newBuffer defaults False 0)\<lparr>fatalErr := Some BErrPanic\<rparr>) (settled1\<lparr>closed := True\<rparr>) written_fs
      = Some (Some BErrPanic, b', l', w') \<and> (\<forall>s2 l2 w2. Close s2 b' l2 w2 = Some (Some BErrPanic, b', l2, w2))"
proof -
  obtain b' l' w' where c: "Close close_demo ((newBuffer defaults False 0)\<lparr>fatalErr := Some BErrPanic\<rparr>) (settled1\<lparr>closed := True\<rparr>) written_fs
      = Some (Some BErrPanic, b', l', w')"
    by (simp add: Close_def close_demo_def closeWaits_def shutDown_def persist_def closeLog_def newBuffer_def newAckTracker_def mark_def Let_def)
  from close_is_final [OF c] show ?thesis using c by (auto simp: newBuffer_def)
qed

text \<open>Open refuses bad arguments before it touches the directory: without a sink or a codec, with options that do not validate, or with
  a dead-letter sink of the wrong type it returns an error and leaves the file system as it was; options that do not validate give
  \<^verbatim>\<open>ErrInvalidOption\<close>.\<close>

theorem open_refuses_bad_options:
  assumes "\<not> osSink s \<or> \<not> osCodec s \<or> validate (fold (\<lambda>o1. o1) os defaults) \<noteq> None \<or> deadLetterGiven (fold (\<lambda>o1. o1) os defaults) = Some False"
  shows "\<exists>e. Open s os w = Some (Inl e, w)
     \<and> (osSink s \<and> osCodec s \<and> validate (fold (\<lambda>o1. o1) os defaults) \<noteq> None \<longrightarrow> errors_is e BErrInvalidOption)"
  using assms validate_errors by (auto simp: Open_def Let_def split: option.splits)

theorem open_refuses_bad_options_witness:
  "\<exists>e. Open \<lparr>osSink = True, osCodec = True, osFlock = None, osKept = (\<lambda>_. 0), osText = [], osNow = 0, osWakes = [], osFuel = 0\<rparr>
      [WithMaxInFlight (-1)] empty_fs = Some (Inl e, empty_fs) \<and> errors_is e BErrInvalidOption"
proof -
  have "validate (fold (\<lambda>o1. o1) [WithMaxInFlight (-1)] defaults) \<noteq> None"
    by (simp add: WithMaxInFlight_def defaults_def validate_def invalidOptions_def)
  with open_refuses_bad_options [of "\<lparr>osSink = True, osCodec = True, osFlock = None, osKept = (\<lambda>_. 0), osText = [], osNow = 0, osWakes = [], osFuel = 0\<rparr>"
      "[WithMaxInFlight (-1)]" empty_fs] show ?thesis by auto
qed

text \<open>C23. A configuration that validates is well formed. Whatever public options are given, in whatever order, a configuration that
  passes validation has positive batch limits, intervals and concurrency, no negative capacity or attempts, and a record limit the
  framing can hold; and it is the configuration of every buffer that Open returns.\<close>

theorem options_are_well_formed:
  assumes "\<forall>o1 \<in> set os. publicOption o1" and "c = fold (\<lambda>o1. o1) os defaults" and "validate c = None"
  shows "conf_wf (c\<lparr>walOpts := openOptions c\<rparr>)
     \<and> (\<forall>s w b l w'. Open s os w = Some (Inr (b, l), w') \<longrightarrow> cfg b = c\<lparr>walOpts := openOptions c\<rparr>)"
proof -
  have "nonzero c"
    using options_nonzero [OF assms(1), of defaults] assms(2) by (simp add: nonzero_def defaults_def seconds_def millis_def)
  then show ?thesis using Open_cfg assms(2) validate_wf [OF _ assms(3)] by metis
qed

theorem options_are_well_formed_witness:
  "conf_wf ((WithFlush 5 0 0 (WithCapacity 10 0 defaults))\<lparr>walOpts := openOptions (WithFlush 5 0 0 (WithCapacity 10 0 defaults))\<rparr>)"
proof -
  have "validate (fold (\<lambda>o1. o1) [WithCapacity 10 0, WithFlush 5 0 0] defaults) = None"
    by (simp add: WithFlush_def WithCapacity_def defaults_def validate_def invalidOptions_def walSyncMode_def zeroOptions_def MaxRecordLimit_def
        headerSize_def seconds_def millis_def)
  with options_are_well_formed [of "[WithCapacity 10 0, WithFlush 5 0 0]"] show ?thesis by (simp add: publicOption.intros)
qed

end
