(* ===== verification/Clickhouse.thy ===== *)
theory Clickhouse
  imports Delivery Text
begin

text \<open>
  The ClickHouse sink: \<^verbatim>\<open>clickhouse/classify.go\<close> and \<^verbatim>\<open>clickhouse/sink.go\<close>.

  The driver is not part of the repository. It is a parameter, the record \<open>conn\<close>, whose functions say how the
  calls of one insert answer; a flush returns what the sink made of the answers, and the rows that a
  successful \<^verbatim>\<open>Send\<close> carried.
\<close>

subsection \<open>Verdicts\<close>

definition rejected :: "int list" where
  "rejected = [6, 27, 38, 41, 53, 70, 72, 117, 349, 469]"

definition misdirected :: "int list" where
  "misdirected = [16, 62, 60, 81, 192, 193, 497, 516]"

text \<open>\<^verbatim>\<open>errors.AsType\<close> for an exception of the server: the first in the order in which errors are unwrapped.\<close>

fun exceptionCode :: "error \<Rightarrow> int option"
  and exceptionIn :: "error list \<Rightarrow> int option" where
  "exceptionCode (ChException code) = Some code"
| "exceptionCode (RetryAfterError d e) = exceptionCode e"
| "exceptionCode (Wrap s es) = exceptionIn es"
| "exceptionCode e = None"
| "exceptionIn [] = None"
| "exceptionIn (e # es) = (case exceptionCode e of Some c \<Rightarrow> Some c | None \<Rightarrow> exceptionIn es)"

definition codeIn :: "int list \<Rightarrow> error \<Rightarrow> bool" where
  "codeIn cs e = (case exceptionCode e of Some c \<Rightarrow> c \<in> set cs | None \<Rightarrow> False)"

definition classifyServer :: "error \<Rightarrow> error" where
  "classifyServer e = (if codeIn rejected e then Wrap ''permanent'' [BErrPermanent, e] else e)"

text \<open>The handler is only asked about failures; a nil error matches nothing.\<close>

definition Classify :: "sinkFailure \<Rightarrow> retryDecision" where
  "Classify f = (case sfErr f of
      None \<Rightarrow> zeroDecision
    | Some e \<Rightarrow>
        if errors_is e ErrRowShape then zeroDecision\<lparr>rdAction := FailBuffer\<rparr>
        else if codeIn misdirected e then zeroDecision\<lparr>rdAction := FailBuffer\<rparr>
        else if errors_is e BErrPermanent then zeroDecision\<lparr>rdAction := DeadLetterBatch\<rparr>
        else zeroDecision)"

subsection \<open>The sink\<close>

datatype chValue = ChString string | ChOther nat

type_synonym chSettings = "string \<rightharpoonup> chValue"

text \<open>A nil map is \<open>None\<close>.\<close>

record chConfig =
  dedup :: bool
  scope :: string
  settingsC :: "chSettings option"

definition zeroChConfig :: chConfig where
  "zeroChConfig = \<lparr>dedup = False, scope = [], settingsC = None\<rparr>"

definition WithDeduplication :: "string \<Rightarrow> chConfig \<Rightarrow> chConfig" where
  "WithDeduplication s c = c\<lparr>dedup := True, scope := s\<rparr>"

definition WithSettings :: "chSettings option \<Rightarrow> chConfig \<Rightarrow> chConfig" where
  "WithSettings s c = c\<lparr>settingsC := s\<rparr>"

text \<open>
  One insert as the driver answers it: the outcome of \<^verbatim>\<open>PrepareBatch\<close> with the settings and the query,
  of the \<^verbatim>\<open>Append\<close> of each row, and of \<^verbatim>\<open>Send\<close>.
\<close>

record 'v conn =
  prepareBatch :: "chSettings option \<Rightarrow> string \<Rightarrow> error option"
  appendRow :: "nat \<Rightarrow> 'v list \<Rightarrow> error option"
  sendRows :: "'v list list \<Rightarrow> error option"

record ('a, 'v) chSink =
  chQuery :: string
  chColumns :: nat
  chRow :: "'a \<Rightarrow> 'v list"
  chCfg :: chConfig

definition bq :: char where "bq = CHR 0x60"

text \<open>\<^verbatim>\<open>strings.ReplaceAll\<close> of a backquote by two.\<close>

definition quoteColumn :: "string \<Rightarrow> string" where
  "quoteColumn c = [bq] @ concat (map (\<lambda>x. if x = bq then [bq, bq] else [x]) c) @ [bq]"

fun joinStrings :: "string \<Rightarrow> string list \<Rightarrow> string" where
  "joinStrings sep [] = []"
| "joinStrings sep [x] = x"
| "joinStrings sep (x # y # xs) = x @ sep @ joinStrings sep (y # xs)"

definition newSink :: "bool \<Rightarrow> string \<Rightarrow> string list \<Rightarrow> ('a \<Rightarrow> 'v list) option \<Rightarrow> (chConfig \<Rightarrow> chConfig) list
    \<Rightarrow> error + ('a, 'v) chSink" where
  "newSink connGiven table columns row os =
     (if \<not> connGiven then Inl (ErrText ''clickhouse: nil conn'')
      else if table = [] then Inl (ErrText ''clickhouse: empty table name'')
      else if columns = [] then Inl (ErrText ''clickhouse: no columns'')
      else case row of
          None \<Rightarrow> Inl (ErrText ''clickhouse: nil row function'')
        | Some f \<Rightarrow>
            if list_ex (\<lambda>c. c = []) columns then Inl (ErrText ''clickhouse: column has an empty name'')
            else Inr \<lparr>chQuery = ''INSERT INTO '' @ table @ '' ('' @ joinStrings '', '' (map quoteColumn columns) @ '')'',
                      chColumns = length columns, chRow = f, chCfg = fold (\<lambda>o1. o1) os zeroChConfig\<rparr>)"

definition dedupToken :: "string \<Rightarrow> 'a batch \<Rightarrow> string" where
  "dedupToken sc b = sc @ '':'' @ bLogID b @ '':'' @ formatUint (bID b) @ ''-''
     @ formatUint (bID b + of_nat (length (bRecords b)) - 1)"

definition chSettingsFor :: "('a, 'v) chSink \<Rightarrow> 'a batch \<Rightarrow> chSettings option" where
  "chSettingsFor s b =
     (if \<not> dedup (chCfg s) then settingsC (chCfg s)
      else Some ((case settingsC (chCfg s) of Some m \<Rightarrow> m | None \<Rightarrow> Map.empty)
             (''insert_deduplication_token'' \<mapsto> ChString (dedupToken (scope (chCfg s)) b))))"

text \<open>The loop over the records: the rows appended, or the error that ends the flush.\<close>

fun appendRows :: "'v conn \<Rightarrow> ('a, 'v) chSink \<Rightarrow> nat \<Rightarrow> 'a list \<Rightarrow> 'v list list \<Rightarrow> error + 'v list list" where
  "appendRows c s i [] rows = Inr rows"
| "appendRows c s i (r # rs) rows =
     (let vals = chRow s r in
      if length vals \<noteq> chColumns s then Inl (Wrap ''record'' [ErrRowShape])
      else case appendRow c i vals of
          Some e \<Rightarrow> Inl (Wrap ''clickhouse: record'' [BErrPermanent, e])
        | None \<Rightarrow> appendRows c s (Suc i) rs (rows @ [vals]))"

text \<open>
  The whole flush. The result is the error, if any, and the rows that were handed to the server with
  \<^verbatim>\<open>Send\<close>, if it came to that. Whether an insert whose \<^verbatim>\<open>Send\<close> returned an error was stored, the sink
  cannot know: the acknowledgement may be what was lost.
\<close>

definition chFlush :: "'v conn \<Rightarrow> ('a, 'v) chSink \<Rightarrow> 'a batch \<Rightarrow> error option \<times> 'v list list option" where
  "chFlush c s b =
     (if bRecords b = [] then (None, None)
      else case prepareBatch c (chSettingsFor s b) (chQuery s) of
          Some e \<Rightarrow> (Some (classifyServer (Wrap ''clickhouse: prepare batch'' [e])), None)
        | None \<Rightarrow> (case appendRows c s 0 (bRecords b) [] of
             Inl e \<Rightarrow> (Some e, None)
           | Inr rows \<Rightarrow> (case sendRows c rows of
                Some e \<Rightarrow> (Some (classifyServer (Wrap ''clickhouse: insert batch'' [e])), Some rows)
              | None \<Rightarrow> (None, Some rows))))"

end
