(* ===== verification/ClickhouseProperties.thy ===== *)
theory ClickhouseProperties
  imports Clickhouse
begin

text \<open>
  What the ClickHouse sink guarantees: the tokens by which the server recognises a batch, and what one flush sends.
\<close>

subsection \<open>Tokens\<close>

text \<open>Splitting at the last occurrence of a character.\<close>

lemma last_cut:
  fixes c :: char
  assumes "xs @ c # ys = xs' @ c # ys'" and "c \<notin> set ys" and "c \<notin> set ys'"
  shows "xs = xs' \<and> ys = ys'"
proof -
  have "rev ys @ c # rev xs = rev ys' @ c # rev xs'" using arg_cong [OF assms(1), of rev] by simp
  then have "cutAt c (rev ys @ c # rev xs) = cutAt c (rev ys' @ c # rev xs')" by simp
  then show ?thesis using assms(2,3) by simp
qed

lemma digitChar_code: "d < 10 \<Longrightarrow> digitChar d \<noteq> CHR '':'' \<and> digitChar d \<noteq> CHR ''-''"
  by (auto simp: digitChar_def dest!: arg_cong [of _ _ "of_char :: char \<Rightarrow> nat"])

lemma formatUint_chars: "CHR '':'' \<notin> set (formatUint v)" "CHR ''-'' \<notin> set (formatUint v)"
  by (auto simp: formatUint_def dest!: decimal_chars digitChar_code)

lemma formatUint_inj: "formatUint u = formatUint v \<Longrightarrow> u = v"
  using parseUint_formatUint by (metis option.inject)

lemma dedupToken_parts:
  assumes "dedupToken sc b = dedupToken sc' b'" and "CHR '':'' \<notin> set (bLogID b)" and "CHR '':'' \<notin> set (bLogID b')"
  shows "sc = sc' \<and> bLogID b = bLogID b' \<and> bID b = bID b' \<and> bID b + of_nat (length (bRecords b)) - 1 = bID b' + of_nat (length (bRecords b')) - 1"
proof -
  let ?l = "\<lambda>b. bID b + of_nat (length (bRecords b)) - 1 :: u64"
  let ?r = "\<lambda>b. formatUint (bID b) @ CHR ''-'' # formatUint (?l b)"
  have no: "CHR '':'' \<notin> set (?r b)" "CHR '':'' \<notin> set (?r b')" using formatUint_chars by auto
  have "(sc @ CHR '':'' # bLogID b) @ CHR '':'' # ?r b = (sc' @ CHR '':'' # bLogID b') @ CHR '':'' # ?r b'"
    using assms(1) by (simp add: dedupToken_def)
  from last_cut [OF this no] have a: "sc @ CHR '':'' # bLogID b = sc' @ CHR '':'' # bLogID b'" "?r b = ?r b'" by auto
  from last_cut [OF a(1) assms(2,3)] last_cut [OF a(2) formatUint_chars(2) formatUint_chars(2)]
  show ?thesis using formatUint_inj by blast
qed

subsection \<open>Rows\<close>

text \<open>What a flush sends.\<close>

definition rowsFit :: "'v conn \<Rightarrow> ('a, 'v) chSink \<Rightarrow> nat \<Rightarrow> 'a list \<Rightarrow> bool" where
  "rowsFit c s i rs \<longleftrightarrow> (\<forall>j < length rs. length (chRow s (rs ! j)) = chColumns s \<and> appendRow c (i + j) (chRow s (rs ! j)) = None)"

lemma rowsFit_Cons: "rowsFit c s i (r # rs) \<longleftrightarrow> length (chRow s r) = chColumns s \<and> appendRow c i (chRow s r) = None \<and> rowsFit c s (Suc i) rs"
  by (auto simp: rowsFit_def All_less_Suc2)

lemma appendRows_fit: "appendRows c s i rs rows = Inr out \<longleftrightarrow> rowsFit c s i rs \<and> out = rows @ map (chRow s) rs"
  by (induction c s i rs rows rule: appendRows.induct)
    (auto simp: rowsFit_Cons Let_def split: option.splits, auto simp: rowsFit_def)

lemma appendRows_error:
  "appendRows c s i rs rows = Inl e \<Longrightarrow> errors_is e ErrRowShape \<or> errors_is e BErrPermanent"
  by (induction c s i rs rows rule: appendRows.induct) (auto simp: Let_def split: if_splits option.splits)

subsection \<open>Properties\<close>

text \<open>C39. A deduplication token names one batch. Two batches with the same token have the same scope, the same log identity and the same
  range of numbers, whatever characters the scopes contain, as long as the identities contain no colon (the random text
  of the log has none): the server never drops a batch as a duplicate of another.\<close>

theorem tokens_name_batches:
  fixes b b' :: "'a batch"
  assumes "dedupToken sc b = dedupToken sc' b'" and "CHR '':'' \<notin> set (bLogID b)" and "CHR '':'' \<notin> set (bLogID b')"
    and "length (bRecords b) < 2 ^ 64" and "length (bRecords b') < 2 ^ 64"
  shows "sc = sc' \<and> bLogID b = bLogID b' \<and> bID b = bID b' \<and> length (bRecords b) = length (bRecords b')"
proof -
  note p = dedupToken_parts [OF assms(1-3)]
  then have "(of_nat (length (bRecords b)) :: u64) = of_nat (length (bRecords b'))"
    by (metis add_left_cancel diff_add_cancel)
  then have "length (bRecords b) = length (bRecords b')" using unat_of_nat_u64 [OF assms(4)] unat_of_nat_u64 [OF assms(5)] by metis
  then show ?thesis using p by blast
qed

theorem tokens_name_batches_witness:
  "dedupToken ''a:b'' \<lparr>bID = 5, bLogID = ''L'', bRecords = [1 :: nat, 2], bAttempt = 1\<rparr>
     = dedupToken ''a:b'' \<lparr>bID = 5, bLogID = ''L'', bRecords = [3 :: nat, 4], bAttempt = 2\<rparr>
   \<and> length (bRecords \<lparr>bID = 5 :: u64, bLogID = ''L'', bRecords = [1 :: nat, 2], bAttempt = 1\<rparr>)
     = length (bRecords \<lparr>bID = 5 :: u64, bLogID = ''L'', bRecords = [3 :: nat, 4], bAttempt = 2\<rparr>)"
proof -
  let ?b = "\<lparr>bID = 5, bLogID = ''L'', bRecords = [1 :: nat, 2], bAttempt = 1\<rparr>"
  let ?b' = "\<lparr>bID = 5, bLogID = ''L'', bRecords = [3 :: nat, 4], bAttempt = 2\<rparr>"
  have t: "dedupToken ''a:b'' ?b = dedupToken ''a:b'' ?b'" by (simp add: dedupToken_def)
  from tokens_name_batches [OF t] t show ?thesis by simp
qed

text \<open>C40. A flush hands the server every row of the batch, in order and in one insert, or nothing. It returns nil exactly when the batch
  is empty and nothing was handed over, or the server acknowledged the insert. An error means that nothing was handed over, because
  preparing or a row failed, or that the sending of the whole batch failed; whether the rows were stored then, only the server knows.
  Nothing is ever handed over unless every row has as many values as there are columns and the driver took it.\<close>

theorem flush_hands_over_whole_batches:
  "(case chFlush c s b of
      (None, sent) \<Rightarrow> bRecords b = [] \<and> sent = None
        \<or> sent = Some (map (chRow s) (bRecords b)) \<and> sendRows c (map (chRow s) (bRecords b)) = None
    | (Some e, sent) \<Rightarrow> bRecords b \<noteq> [] \<and>
        (sent = None \<and> (prepareBatch c (chSettingsFor s b) (chQuery s) \<noteq> None
             \<or> (\<exists>j < length (bRecords b). length (chRow s (bRecords b ! j)) \<noteq> chColumns s \<or> appendRow c j (chRow s (bRecords b ! j)) \<noteq> None))
         \<or> sent = Some (map (chRow s) (bRecords b)) \<and> sendRows c (map (chRow s) (bRecords b)) \<noteq> None))
   \<and> (snd (chFlush c s b) \<noteq> None \<longrightarrow> prepareBatch c (chSettingsFor s b) (chQuery s) = None
        \<and> (\<forall>j < length (bRecords b). length (chRow s (bRecords b ! j)) = chColumns s \<and> appendRow c j (chRow s (bRecords b ! j)) = None))"
proof (cases "bRecords b = [] \<or> prepareBatch c (chSettingsFor s b) (chQuery s) \<noteq> None")
  case True
  then show ?thesis by (auto simp: chFlush_def)
next
  case False
  show ?thesis
  proof (cases "appendRows c s 0 (bRecords b) []")
    case (Inl e)
    then have "\<not> rowsFit c s 0 (bRecords b)" using appendRows_fit [of c s 0 "bRecords b" "[]"] by auto
    then show ?thesis using False Inl by (auto simp: chFlush_def rowsFit_def)
  next
    case (Inr rows)
    then have "rowsFit c s 0 (bRecords b)" "rows = map (chRow s) (bRecords b)" using appendRows_fit [of c s 0 "bRecords b" "[]"] by auto
    then show ?thesis using False Inr by (auto simp: chFlush_def rowsFit_def split: option.splits)
  qed
qed

definition calm_conn :: "nat conn" where
  "calm_conn = \<lparr>prepareBatch = (\<lambda>_ _. None), appendRow = (\<lambda>_ _. None), sendRows = (\<lambda>_. None)\<rparr>"

definition pair_sink :: "(nat, nat) chSink" where
  "pair_sink = \<lparr>chQuery = [], chColumns = 2, chRow = (\<lambda>x. [x, x]), chCfg = zeroChConfig\<rparr>"

definition deaf_conn :: "nat conn" where
  "deaf_conn = calm_conn\<lparr>sendRows := (\<lambda>_. Some (ForeignError 0))\<rparr>"

theorem flush_hands_over_whole_batches_witness:
  "\<exists>e rows. chFlush deaf_conn pair_sink \<lparr>bID = 5, bLogID = ''L'', bRecords = [1, 2], bAttempt = 1\<rparr> = (Some e, Some rows)
     \<and> rows = [[1, 1], [2, 2]] \<and> sendRows deaf_conn rows \<noteq> None"
proof -
  let ?b = "\<lparr>bID = 5, bLogID = ''L'', bRecords = [1 :: nat, 2], bAttempt = 1\<rparr>"
  obtain e rows where r: "chFlush deaf_conn pair_sink ?b = (Some e, Some rows)"
    by (simp add: chFlush_def deaf_conn_def calm_conn_def pair_sink_def chSettingsFor_def zeroChConfig_def Let_def)
  from flush_hands_over_whole_batches [where c = deaf_conn and s = pair_sink and b = ?b] have "rows = [[1, 1], [2, 2]] \<and> sendRows deaf_conn rows \<noteq> None"
    by (simp only: r prod.case option.case) (auto simp: pair_sink_def)
  then show ?thesis using r by blast
qed

text \<open>A record that does not fit is not retried for ever. When a row has the wrong shape or the driver cannot convert it, the verdict of
  \<^verbatim>\<open>Classify\<close> on the error is to fail the buffer or to dead-letter the batch.\<close>

theorem poison_rows_are_not_retried:
  assumes "prepareBatch c (chSettingsFor s b) (chQuery s) = None" and "j < length (bRecords b)"
    and "length (chRow s (bRecords b ! j)) \<noteq> chColumns s \<or> appendRow c j (chRow s (bRecords b ! j)) \<noteq> None"
  shows "rdAction (Classify (f\<lparr>sfErr := fst (chFlush c s b)\<rparr>)) \<in> {FailBuffer, DeadLetterBatch}"
proof -
  have "\<not> rowsFit c s 0 (bRecords b)" using assms(2,3) by (auto simp: rowsFit_def)
  then obtain e where e: "appendRows c s 0 (bRecords b) [] = Inl e"
    using appendRows_fit [of c s 0 "bRecords b" "[]"] by (cases "appendRows c s 0 (bRecords b) []") auto
  then have "fst (chFlush c s b) = Some e" using assms(1,2) by (auto simp: chFlush_def)
  then show ?thesis using appendRows_error [OF e] by (auto simp: Classify_def zeroDecision_def)
qed

definition fussy_conn :: "nat conn" where
  "fussy_conn = \<lparr>prepareBatch = (\<lambda>_ _. None), appendRow = (\<lambda>i vs. if i = 1 then Some (ForeignError 0) else None), sendRows = (\<lambda>_. None)\<rparr>"

theorem poison_rows_are_not_retried_witness:
  "rdAction (Classify \<lparr>sfID = 5, sfRecords = 2, sfBytes = 9, sfAttempt = 1, sfDeadLetter = False,
      sfErr = fst (chFlush fussy_conn \<lparr>chQuery = [], chColumns = 1, chRow = (\<lambda>x. [x]), chCfg = zeroChConfig\<rparr>
        \<lparr>bID = 5, bLogID = ''L'', bRecords = [1, 2], bAttempt = 1\<rparr>)\<rparr>) \<in> {FailBuffer, DeadLetterBatch}"
  using poison_rows_are_not_retried [of fussy_conn "\<lparr>chQuery = [], chColumns = 1, chRow = (\<lambda>x. [x]), chCfg = zeroChConfig\<rparr>"
      "\<lparr>bID = 5, bLogID = ''L'', bRecords = [1, 2], bAttempt = 1\<rparr>" 1 "\<lparr>sfID = 5, sfRecords = 2, sfBytes = 9, sfAttempt = 1, sfDeadLetter = False, sfErr = None\<rparr>"]
  by (simp add: fussy_conn_def)

end
