(* ===== verification/Spec2Isabelle.thy ===== *)
theory Spec2Isabelle
  imports LogProperties RecoveryProperties ReaderProperties ReaderStuck WriteProperties Capacity LifecycleProperties ClickhouseProperties
begin

text \<open>
  A verification development for better-batch, a durable batching buffer written in Go. Writers hand records to a
  buffer, which appends them to a write-ahead log and acknowledges them once they are on disk; a flusher reads the
  log back, assembles batches and hands them to a sink; a checkpoint records how far delivery has
  got, and the log below it is deleted. The promise is at-least-once delivery across crashes, with bounded memory and disk.

  \<^bold>\<open>Layers.\<close>
  Each theory models one part of the program, bottom up, and the theories named \<open>...Properties\<close>, \<open>Capacity\<close> and this one
  hold what is proved of them. Paths are relative to \<^verbatim>\<open>src/\<close>.

  \<^item> \<open>Prelude\<close>: words, errors (\<^verbatim>\<open>errors.Is\<close>), durations, lemmas on lists and words, and three contracts that several components share:
    \<open>self_delimiting\<close> for framings, \<open>invariant_system\<close> for step relations, \<open>forward_simulation\<close> for refinements.
  \<^item> \<open>RecordFormat\<close> (\<^verbatim>\<open>internal/wal/record.go\<close>): the framing of records with its CRC-32C. \<open>Text\<close>: decimal numbers, trimming and splitting as
    the standard library does them.
  \<^item> \<open>Filesystem\<close>: one directory, with what a kill and what a power loss leave of it. After a power loss (\<open>power_loss\<close>) every name is there in its
    synced or its latest state, a file keeps what was synced of it and any part of the rest; \<open>after_power_loss\<close> is the case that keeps only what was synced. Every call takes its outcome from a list of faults,
    so that every theorem holds for every pattern of I/O errors; a failed write may leave any prefix behind.
  \<^item> \<open>Segment\<close> (\<^verbatim>\<open>segment.go\<close>): names and the scan of a segment file. \<open>MetaFiles\<close> (\<^verbatim>\<open>checkpoint.go\<close>, \<^verbatim>\<open>reservation.go\<close>, \<^verbatim>\<open>identity.go\<close>): files
    replaced atomically, with the contract \<open>durable_cell\<close>. \<open>SegmentDisk\<close>: which records a segment file holds.
  \<^item> \<open>Wal\<close> (\<^verbatim>\<open>wal.go\<close>): the log: staging a batch, taking a round, writing it with rotation and rollback,
    settling it, truncation, the committer's loop and shutdown. \<open>AbstractLog\<close> is what the log promises, an unbounded list of numbered
    records; \<open>LogOutcomes\<close> and \<open>LogRefinement\<close> prove that these operations, interleaved in any order, implement it; \<open>LogCrash\<close> adds what survives.
  \<^item> \<open>Recovery\<close> (\<^verbatim>\<open>wal.go\<close>, \<^verbatim>\<open>salvage.go\<close>, \<^verbatim>\<open>lock_unix.go\<close>, \<^verbatim>\<open>lock_other.go\<close>): opening a log, salvage included; \<open>Leftovers\<close>: which segment files a step of the log can leave in the
    directory, and that they are opened again. \<open>Reader\<close> (\<^verbatim>\<open>reader.go\<close>): the cursor over the log;
    \<open>ReaderGrowth\<close>: the cursor beside a log that goes on changing; \<open>ReaderStuck\<close>: the cursor in front of a segment that salvage has emptied.
  \<^item> \<open>Acks\<close>, \<open>Ages\<close>, \<open>Support\<close> (\<^verbatim>\<open>internal_support.go\<close>, \<^verbatim>\<open>batch.go\<close>): the low-water mark, the age of the backlog, gates, recovered panics, backoff.
  \<^item> \<open>Config\<close> (\<^verbatim>\<open>options.go\<close>, \<^verbatim>\<open>policy.go\<close>, \<^verbatim>\<open>sink.go\<close>): options with their validation, policies, the vocabulary of sinks, codecs with
    the contract \<open>codec\<close>. \<open>Observer\<close> (\<^verbatim>\<open>observer.go\<close>): hooks and the asynchronous dispatcher.
  \<^item> \<open>Buffer\<close> and \<open>Writes\<close> (\<^verbatim>\<open>batch.go\<close>): the state of the buffer, capacity, the policy loop, shedding, and a write from encoding to settling.
  \<^item> \<open>Delivery\<close> and \<open>Flusher\<close> (\<^verbatim>\<open>flush.go\<close>): the retry ladders of the sink and the dead-letter sink; the flusher's loop. \<open>Lifecycle\<close> (\<^verbatim>\<open>batch.go\<close>, \<^verbatim>\<open>flush.go\<close>):
    \<^verbatim>\<open>Open\<close>, the checkpointer, \<^verbatim>\<open>Flush\<close>, \<^verbatim>\<open>Close\<close>, \<^verbatim>\<open>Stats\<close>. \<open>Pipeline\<close>: these goroutines together as a step relation; \<open>FlusherRefinement\<close>: the
    flusher's loop implements it, on a log that others append to and truncate meanwhile, while deliveries end. \<open>Capacity\<close>: any number of writers
    in \<^verbatim>\<open>reserve\<close>, interleaved between its atomic operations.
  \<^item> \<open>Clickhouse\<close> (\<^verbatim>\<open>clickhouse/sink.go\<close>, \<^verbatim>\<open>clickhouse/classify.go\<close>): the ClickHouse sink against a driver given as a parameter.

  \<^bold>\<open>Concurrency.\<close>
  The log (\<open>lstep\<close>), a reader beside it (\<open>rstep\<close>), writers that reserve capacity (\<open>wstep\<close>) and the pipeline (\<open>pstep\<close>) are relations whose steps interleave freely. A step is a
  critical section or an atomic operation of the code, with two exceptions, \<open>commitWrite\<close> and \<open>truncateLog\<close> (below); in the pipeline, the ends of deliveries and the checkpointer's steps are specification steps, which the
  properties of \<open>deliver\<close> and \<open>persist\<close> justify, and the set of numbers passed over is a ghost. Code that spans
  several critical sections, such as a write, a delivery or \<^verbatim>\<open>Close\<close>, is a function that is given what the other
  goroutines do at each point where shared state is read again; theorems about it state what they rely on of these (\<open>rely\<close>, \<open>fairRun\<close>,
  \<open>logRely\<close>), or nothing.

  \<^bold>\<open>Loops and fuel.\<close>
  Loops over data are structural, or terminate by a measure. A loop that waits for others runs on a list with one entry for
  each turn, and returns \<open>None\<close> when the list ends before the loop does: \<open>delivery_terminates\<close>, \<open>committer_stops\<close> and
  \<open>closing_releases_writers\<close> show that enough turns give a result, and how many. Counting the backlog runs on fuel; one unit
  more than the log has records is enough (\<open>open_counts_the_backlog\<close>).

  \<^bold>\<open>What is proved.\<close>
  Log: an acknowledged record survives a power loss until it is truncated, whatever the device keeps of unsynced bytes; the log implements the abstract list; a number is
  claimed on disk before it is handed out and never reused, whatever crashes; a killed log and one that lost power open again with
  their records, from the directories that the steps of the log leave; a round is all or nothing; truncation keeps to its limit. Framing: torn tails are found, and a changed byte behind the length field of a record is detected and not
  mistaken for a tear. Reader: what it returns are the log's records, in order, none left out, durable ones only, also
  while the log grows, rotates, rolls back and is truncated below the cursor. Buffer: what writers are granted never
  exceeds the capacity, or the backlog found at Open where that is larger; the accounts of a write balance on every path, writers are released by closing. Delivery: a delivery that ends has settled its range, tells the
  truth about the sinks, and ends. Pipeline: at-least-once delivery, consecutive batches, nothing deleted before its checkpoint, draining, and below the
  whole path from a write to the sink. ClickHouse: tokens name batches, a flush hands over whole batches or nothing.
  Four findings are recorded with these: a failed buffer does not release a writer that waits for a full disk; a round reported as broken
  can reappear; a reader cannot pass a segment that salvage emptied; and the first retry delay ignores the ceiling.

  \<^bold>\<open>Not modelled.\<close>
  Goroutine scheduling below the level of critical sections and atomic operations, and changes of the log in the middle of one call of the reader. \<open>commitWrite\<close> and \<open>truncateLog\<close> are
  single steps, although the code takes its lock several times in each, so that what others do between the parts of one of them is not covered. \<^verbatim>\<open>RetryAction\<close>, \<^verbatim>\<open>DecodeAction\<close> and
  \<^verbatim>\<open>Decision\<close> are closed datatypes: the integers of the code without a name, which its default branches handle, are not represented. Durations are integers and
  backoff is computed in the rationals, so the rounding of floats is not covered; random jitter is an argument. Sinks, policies,
  handlers, codecs (\<^verbatim>\<open>encoding/json\<close> behind \<^verbatim>\<open>JSONCodec\<close>) and the ClickHouse driver are parameters, which may fail
  or panic. The kernel's lock table is the outcome of \<^verbatim>\<open>flock\<close>. The error texts are not reproduced beyond what
  distinguishes them. \<^verbatim>\<open>policyCtx\<close>, which derives a context, is the flag that a policy is given; \<^verbatim>\<open>doc.go\<close> holds no code.
\<close>

subsection \<open>From a write to the sink\<close>

text \<open>C2. What is written is what the sink gets. A record that a write encodes, with any codec that decodes what it encodes, and that the log
  holds under a number the checkpoint has passed, is in a batch whose delivery has ended without being kept, at the place that its number gives it, as the
  value that was written, unless it was passed over and counted as dropped.\<close>

theorem written_records_reach_the_sink:
  assumes "codec enc dec" and "encodeAll enc vs [] [] = Inr (bs, ends)" and "i < length vs"
    and "ackT b = newAckTracker c" and "unat c + 1 < 2 ^ 64" and "sorted_wrt (<) (map fst lg)" and "\<forall>e \<in> set lg. fst e + 1 < 2 ^ 64"
    and "(pstep dec)\<^sup>*\<^sup>* (pipeStart b c lg) s"
    and "(n, cutPayloads 0 ends bs ! i) \<in> set (plog s)" and "unat c < n" and "n \<le> pcheckpoint s" and "n \<notin> pskipped s"
  shows "\<exists>x ft. x \<in> set (pflown s) \<and> xfate x = Some ft \<and> ft \<noteq> Kept \<and> unat (bID (xbatch x)) \<le> n
     \<and> n - unat (bID (xbatch x)) < length (bRecords (xbatch x)) \<and> bRecords (xbatch x) ! (n - unat (bID (xbatch x))) = vs ! i"
proof -
  let ?p = "cutPayloads 0 ends bs ! i"
  have inv: "pipe_inv dec (unat c) s" using reached_inv [OF assms(4-8)] .
  then have "n \<le> unat (mark (ackT (pbuf s)))" using assms(11) by (simp add: pipe_inv_def)
  from below_mark [OF inv assms(9,10) this] obtain x where x: "x \<in> set (pflown s)" "sent_as dec x n ?p" "\<not> isOpen x"
    using assms(12) by blast
  have "list_all2 (\<lambda>p v. dec p = Returns (Inr v)) (cutPayloads 0 ends bs) vs" using codec.encodeAll_cuts [OF assms(1,2)] by auto
  then have "dec ?p = Returns (Inr (vs ! i))" using assms(3) by (simp add: list_all2_conv_all_nth)
  then have "decodePayload dec ?p = Inr (vs ! i)" by (simp add: decodePayload_def)
  moreover obtain ft where "xfate x = Some ft" "ft \<noteq> Kept" using x(3) by (auto simp: isOpen_def)
  ultimately show ?thesis using x(1,2) by (auto simp: sent_as_def)
qed

theorem written_records_reach_the_sink_witness:
  "\<exists>x ft. x \<in> set (pflown demo6) \<and> xfate x = Some ft \<and> ft \<noteq> Kept \<and> bRecords (xbatch x) ! (1 - unat (bID (xbatch x))) = [7]"
proof -
  have e: "encodeAll bytesEncode [[7]] [] [] = Inr ([7], [1])" by (simp add: bytesEncode_def)
  have "demo_dec = bytesDecode" by (simp add: fun_eq_iff demo_dec_def bytesDecode_def)
  then have run: "(pstep bytesDecode)\<^sup>*\<^sup>* (pipeStart demo_buf 0 [(1, [7])]) demo6" using demo_run by (simp add: demo0_def)
  have d: "(1, cutPayloads 0 [1] [7] ! 0) \<in> set (plog demo6)" "1 \<le> pcheckpoint demo6" "1 \<notin> pskipped demo6"
    by (simp_all add: demo_states pipeStart_def)
  from written_records_reach_the_sink [OF bytesCodec.codec_axioms e _ _ _ _ _ run d(1) _ d(2,3)] show ?thesis
    by (auto simp: demo_buf_fields)
qed

end
